(* ===== verification/Prelude.thy ===== *)
theory Prelude
  imports Main "HOL-Library.Word"
begin

section \<open>Panics, results and diverging runs\<close>

text \<open>
  What every component shares. A Rust operation that can panic returns a value of
  \<open>'a res\<close>, with \<open>Inl\<close> the reason of the panic; a loop that need not end returns a
  value of \<open>'a run\<close>, with \<open>None\<close> for a run that never returns. \<open>and_then\<close> and
  \<open>run_then\<close> sequence the two. Machine integers are words: \<open>usize\<close> counters have 64
  bits, the metrics 32 bits, interests and bytes 8 bits.
\<close>

type_synonym usize = "64 word"
type_synonym u32 = "32 word"
type_synonym u8 = "8 word"

datatype panic =
    Index_panic        \<comment> \<open>\<open>nodes[key]\<close> or \<open>slab.remove(key)\<close> with no value at the key\<close>
  | Slice_panic        \<comment> \<open>a slice range outside the buffer\<close>
  | Unwrap_panic       \<comment> \<open>\<open>unwrap()\<close> on \<open>None\<close> or \<open>Err\<close>\<close>
  | Assert_panic       \<comment> \<open>\<open>assert!\<close> or \<open>assert_eq!\<close> failed\<close>
  | Unreachable_panic  \<comment> \<open>\<open>unreachable!()\<close>\<close>
  | Borrow_panic       \<comment> \<open>a \<open>RefCell\<close> borrowed while a mutable borrow is live\<close>
  | Thread_panic       \<comment> \<open>\<open>panic!\<close> of the thread check of a checked waker\<close>
  | Resumed_panic      \<comment> \<open>an \<open>async fn\<close> polled after it returned\<close>
  | Dangling           \<comment> \<open>use of memory that was released: undefined behaviour\<close>

type_synonym 'a res = "panic + 'a"
type_synonym 'a run = "(panic + 'a) option"

named_theorems res_iff \<open>when a sequence of fallible steps succeeds\<close>

subsection \<open>Sequencing fallible steps\<close>

fun and_then :: "'a res \<Rightarrow> ('a \<Rightarrow> 'b res) \<Rightarrow> 'b res" where
  "and_then (Inl e) f = Inl e"
| "and_then (Inr x) f = f x"

definition expect :: "panic \<Rightarrow> 'a option \<Rightarrow> 'a res" where
  "expect e x = (case x of None \<Rightarrow> Inl e | Some v \<Rightarrow> Inr v)"

definition ensure :: "panic \<Rightarrow> bool \<Rightarrow> unit res" where
  "ensure e b = (if b then Inr () else Inl e)"

lemma expect_simps [simp]:
  "expect e None = Inl e"
  "expect e (Some v) = Inr v"
  by (simp_all add: expect_def)

lemma ensure_simps [simp]:
  "ensure e True = Inr ()"
  "ensure e False = Inl e"
  by (simp_all add: ensure_def)

lemma and_then_cong [fundef_cong]:
  "r = r' \<Longrightarrow> (\<And>x. r' = Inr x \<Longrightarrow> f x = g x) \<Longrightarrow> and_then r f = and_then r' g"
  by (cases r') auto

lemma and_then_Inr_iff [res_iff]:
  "and_then r f = Inr y \<longleftrightarrow> (\<exists>x. r = Inr x \<and> f x = Inr y)"
  by (cases r) auto

lemma expect_Inr_iff [res_iff]: "expect e x = Inr v \<longleftrightarrow> x = Some v"
  by (cases x) auto

lemma ensure_Inr_iff [res_iff]: "ensure e b = Inr u \<longleftrightarrow> b"
  by (cases b) auto

lemma and_then_assoc: "and_then (and_then r f) g = and_then r (\<lambda>x. and_then (f x) g)"
  by (cases r) auto

subsection \<open>Sequencing runs that need not end\<close>

definition run_then :: "'a run \<Rightarrow> ('a \<Rightarrow> 'b run) \<Rightarrow> 'b run" where
  "run_then m f = Option.bind m (\<lambda>r. case r of Inl e \<Rightarrow> Some (Inl e) | Inr x \<Rightarrow> f x)"

lemma run_then_simps [simp]:
  "run_then None f = None"
  "run_then (Some (Inl e)) f = Some (Inl e)"
  "run_then (Some (Inr x)) f = f x"
  by (simp_all add: run_then_def)

lemma run_then_mono [partial_function_mono]:
  assumes "mono_option B" and "\<And>y. mono_option (\<lambda>f. C y f)"
  shows "mono_option (\<lambda>f. run_then (B f) (\<lambda>y. C y f))"
  unfolding run_then_def
proof (rule bind_mono)
  show "mono_option B" by (fact assms(1))
  show "mono_option (\<lambda>f. case r of Inl e \<Rightarrow> Some (Inl e) | Inr x \<Rightarrow> C x f)" for r
    using assms(2) by (cases r) (auto intro: option.const_mono)
qed

lemma run_then_Some_iff [res_iff]:
  "run_then m f = Some (Inr y) \<longleftrightarrow> (\<exists>x. m = Some (Inr x) \<and> f x = Some (Inr y))"
  by (cases m) (auto simp: run_then_def split: sum.splits)

lemma run_then_assoc: "run_then (run_then m f) g = run_then m (\<lambda>x. run_then (f x) g)"
  by (cases m) (auto simp: run_then_def split: sum.splits)

lemma run_then_cong:
  "m = m' \<Longrightarrow> (\<And>x. m' = Some (Inr x) \<Longrightarrow> f x = g x) \<Longrightarrow> run_then m f = run_then m' g"
  by (cases m') (auto simp: run_then_def split: sum.splits)

subsection \<open>Slices\<close>

definition slice_from :: "'a list \<Rightarrow> nat \<Rightarrow> 'a list res" where
  "slice_from buf a = (if a \<le> length buf then Inr (drop a buf) else Inl Slice_panic)"

definition slice_to :: "'a list \<Rightarrow> nat \<Rightarrow> 'a list res" where
  "slice_to buf b = (if b \<le> length buf then Inr (take b buf) else Inl Slice_panic)"

definition slice_range :: "'a list \<Rightarrow> nat \<Rightarrow> nat \<Rightarrow> 'a list res" where
  "slice_range buf a b =
     (if a \<le> b \<and> b \<le> length buf then Inr (drop a (take b buf)) else Inl Slice_panic)"

text \<open>The buffer after its part from \<open>a\<close> on was written through the slice \<open>&mut buf[a..]\<close>.\<close>

definition write_from :: "'a list \<Rightarrow> nat \<Rightarrow> 'a list \<Rightarrow> 'a list" where
  "write_from buf a part = take a buf @ part"

lemma slice_from_Inr_iff [res_iff]: "slice_from buf a = Inr s \<longleftrightarrow> a \<le> length buf \<and> s = drop a buf"
  by (auto simp: slice_from_def)

lemma slice_to_Inr_iff [res_iff]: "slice_to buf b = Inr s \<longleftrightarrow> b \<le> length buf \<and> s = take b buf"
  by (auto simp: slice_to_def)

lemma slice_range_Inr_iff [res_iff]:
  "slice_range buf a b = Inr s \<longleftrightarrow> a \<le> b \<and> b \<le> length buf \<and> s = drop a (take b buf)"
  by (auto simp: slice_range_def)

subsection \<open>Ends of a list of keys\<close>

definition first_or :: "'a option \<Rightarrow> 'a list \<Rightarrow> 'a option" where
  "first_or q xs = (case xs of [] \<Rightarrow> q | x # _ \<Rightarrow> Some x)"

definition last_or :: "'a option \<Rightarrow> 'a list \<Rightarrow> 'a option" where
  "last_or p xs = (if xs = [] then p else Some (last xs))"

lemma first_or_simps [simp]:
  "first_or q [] = q"
  "first_or q (x # xs) = Some x"
  "first_or q (xs @ ys) = first_or (first_or q ys) xs"
  by (auto simp: first_or_def split: list.splits)

lemma last_or_simps [simp]:
  "last_or p [] = p"
  "last_or p (x # xs) = last_or (Some x) xs"
  "last_or p (xs @ ys) = last_or (last_or p xs) ys"
  by (auto simp: last_or_def)

lemma first_or_None_iff [simp]: "first_or None xs = None \<longleftrightarrow> xs = []"
  by (cases xs) auto

lemma last_or_None_iff [simp]: "last_or None xs = None \<longleftrightarrow> xs = []"
  by (auto simp: last_or_def)

lemma first_or_SomeD: "first_or None xs = Some k \<Longrightarrow> \<exists>ys. xs = k # ys"
  by (cases xs) auto

lemma last_or_SomeD: "last_or None xs = Some k \<Longrightarrow> \<exists>ys. xs = ys @ [k]"
  by (cases xs rule: rev_cases) auto

lemma removeAll_split:
  "k \<notin> set ys \<Longrightarrow> k \<notin> set zs \<Longrightarrow> removeAll k (ys @ k # zs) = ys @ zs"
  by simp

subsection \<open>Cells with borrows checked at run time\<close>

text \<open>
  A \<open>RefCell\<close> of which only mutable borrows last: it is borrowed for the time a function of
  the program works on its content. A second borrow in that time panics.
\<close>

record 'd ref_cell =
  cell_borrowed :: bool
  cell_data :: 'd

definition ref_cell_new :: "'d \<Rightarrow> 'd ref_cell" where
  "ref_cell_new d = \<lparr>cell_borrowed = False, cell_data = d\<rparr>"

definition borrow :: "'d ref_cell \<Rightarrow> 'd res" where
  "borrow c = and_then (ensure Borrow_panic (\<not> cell_borrowed c)) (\<lambda>_. Inr (cell_data c))"

text \<open>A borrow under which no code outside the function runs, so that the flag need not show.\<close>

definition with_borrow :: "'d ref_cell \<Rightarrow> ('d \<Rightarrow> ('r \<times> 'd) res) \<Rightarrow> ('r \<times> 'd ref_cell) res" where
  "with_borrow c f =
     and_then (borrow c) (\<lambda>d. and_then (f d) (\<lambda>(r, d). Inr (r, c\<lparr>cell_data := d\<rparr>)))"

lemma ref_cell_new_simps [simp]:
  "cell_borrowed (ref_cell_new d) = False"
  "cell_data (ref_cell_new d) = d"
  by (simp_all add: ref_cell_new_def)

lemma borrow_free [simp]: "\<not> cell_borrowed c \<Longrightarrow> borrow c = Inr (cell_data c)"
  by (simp add: borrow_def)

lemma borrow_taken [simp]: "cell_borrowed c \<Longrightarrow> borrow c = Inl Borrow_panic"
  by (simp add: borrow_def)

lemma borrow_Inr_iff [res_iff]: "borrow c = Inr d \<longleftrightarrow> \<not> cell_borrowed c \<and> d = cell_data c"
  by (cases "cell_borrowed c") auto

subsection \<open>Counters that do not wrap\<close>

lemma usize_succ_unat: "(r :: usize) \<noteq> -1 \<Longrightarrow> unat (r + 1) = Suc (unat r)"
  by (metis add.commute unatSuc eq_neg_iff_add_eq_0)

lemma usize_succ_nonzero: "(r :: usize) \<noteq> -1 \<Longrightarrow> r + 1 \<noteq> 0"
  by (metis eq_neg_iff_add_eq_0)

lemma usize_succ_gt1: "0 < (r :: usize) \<Longrightarrow> r \<noteq> -1 \<Longrightarrow> 1 < r + 1"
  by (simp add: word_less_nat_alt usize_succ_unat)

lemma usize_max: "unat (-1 :: usize) = 2 ^ 64 - 1"
  by (simp add: unsigned_minus_1_eq_mask mask_eq_exp_minus_1)

lemma usize_below_max: "Suc (unat (r :: usize)) < 2 ^ 64 \<Longrightarrow> r \<noteq> -1"
  using usize_max by auto

lemma usize_pred_nonzero: "1 < (r :: usize) \<Longrightarrow> r - 1 \<noteq> 0"
  by auto

end
