(* ===== verification/Slab_Interface.thy ===== *)
theory Slab_Interface
  imports Prelude "HOL-Library.Multiset"
begin

section \<open>The slab interface\<close>

text \<open>
  Every collection of the program is a \<open>Slab\<close> of the crate \<open>slab\<close>, whose code is not part
  of the repository. A slab is therefore a parameter: a record of operations over an
  abstract slab type \<open>'s\<close> holding values of type \<open>'v\<close>. The list module is written against
  the smaller trait \<open>IndexMut<usize>\<close>, whose two operations (reading and overwriting an
  indexed place) are the parent record, so that the list operations accept a slab.

  \<open>slab_ok\<close> collects the documented behaviour the program relies on, as a hypothesis of the
  theorems: a slab is a finite map from keys to values, \<open>insert\<close> fills a vacant key and no
  other, keys below the capacity are handed out while the slab is not full, the capacity
  does not change without a reallocation, and an iteration visits every value once. Which
  vacant key is chosen and in which order an iteration proceeds is left open. \<open>vec_slab\<close> is
  one slab that satisfies the laws: it shows that the hypothesis can hold and is what the
  witnesses are evaluated on.
\<close>

record ('s, 'v) index_mut =
  im_get :: "'s \<Rightarrow> nat \<Rightarrow> 'v option"
  im_set :: "'s \<Rightarrow> nat \<Rightarrow> 'v \<Rightarrow> 's"

record ('s, 'v) slab_ops = "('s, 'v) index_mut" +
  with_capacity :: "nat \<Rightarrow> 's"
  slab_len :: "'s \<Rightarrow> nat"
  slab_capacity :: "'s \<Rightarrow> nat"
  vacant_key :: "'s \<Rightarrow> nat"
  slab_insert :: "'s \<Rightarrow> 'v \<Rightarrow> 's"
  slab_remove :: "'s \<Rightarrow> nat \<Rightarrow> 's"
  slab_clear :: "'s \<Rightarrow> 's"
  slab_iter :: "'s \<Rightarrow> (nat \<times> 'v) list"

subsection \<open>Indexing: \<open>nodes[key]\<close> read and written\<close>

definition index_at :: "('s, 'v, 'z) index_mut_scheme \<Rightarrow> 's \<Rightarrow> nat \<Rightarrow> 'v res" where
  "index_at I s k = expect Index_panic (im_get I s k)"

definition modify_at :: "('s, 'v, 'z) index_mut_scheme \<Rightarrow> 's \<Rightarrow> nat \<Rightarrow> ('v \<Rightarrow> 'v) \<Rightarrow> 's res" where
  "modify_at I s k f = and_then (index_at I s k) (\<lambda>v. Inr (im_set I s k (f v)))"

definition index_mut_ok :: "('s, 'v, 'z) index_mut_scheme \<Rightarrow> bool" where
  "index_mut_ok I \<longleftrightarrow>
     (\<forall>s k v. im_get I s k \<noteq> None \<longrightarrow> im_get I (im_set I s k v) = (im_get I s)(k \<mapsto> v))"

lemma index_at_eq [simp]: "im_get I s k = Some v \<Longrightarrow> index_at I s k = Inr v"
  by (simp add: index_at_def)

lemma index_at_None [simp]: "im_get I s k = None \<Longrightarrow> index_at I s k = Inl Index_panic"
  by (simp add: index_at_def)

lemma index_at_Inr_iff [res_iff]: "index_at I s k = Inr v \<longleftrightarrow> im_get I s k = Some v"
  by (simp add: index_at_def res_iff)

lemma modify_at_eq [simp]:
  "im_get I s k = Some v \<Longrightarrow> modify_at I s k f = Inr (im_set I s k (f v))"
  by (simp add: modify_at_def)

lemma modify_at_None [simp]: "im_get I s k = None \<Longrightarrow> modify_at I s k f = Inl Index_panic"
  by (simp add: modify_at_def)

lemma im_get_set:
  "index_mut_ok I \<Longrightarrow> im_get I s k = Some u \<Longrightarrow> im_get I (im_set I s k v) = (im_get I s)(k \<mapsto> v)"
  by (simp add: index_mut_ok_def)

text \<open>The plainest store: a partial map.\<close>

definition map_store :: "(nat \<Rightarrow> 'v option, 'v) index_mut" where
  "map_store = \<lparr>im_get = (\<lambda>s. s), im_set = (\<lambda>s k v. s(k \<mapsto> v))\<rparr>"

lemma map_store_simps [simp]:
  "im_get map_store s = s"
  "im_set map_store s k v = s(k \<mapsto> v)"
  "index_mut_ok map_store"
  by (simp_all add: map_store_def index_mut_ok_def)

subsection \<open>Slabs\<close>

text \<open>
  \<open>slab.insert(v)\<close> returns the key of the vacant entry it filled; \<open>slab.remove(k)\<close> returns the
  value and panics on a vacant key; \<open>get_mut\<close> is \<open>im_get\<close> followed by \<open>im_set\<close>.
\<close>

definition slab_add :: "('s, 'v) slab_ops \<Rightarrow> 's \<Rightarrow> 'v \<Rightarrow> nat \<times> 's" where
  "slab_add S s v = (vacant_key S s, slab_insert S s v)"

definition slab_take :: "('s, 'v) slab_ops \<Rightarrow> 's \<Rightarrow> nat \<Rightarrow> ('v \<times> 's) res" where
  "slab_take S s k = and_then (index_at S s k) (\<lambda>v. Inr (v, slab_remove S s k))"

definition slab_empty :: "('s, 'v) slab_ops \<Rightarrow> 's \<Rightarrow> bool" where
  "slab_empty S s \<longleftrightarrow> slab_len S s = 0"

definition slab_ok :: "('s, 'v) slab_ops \<Rightarrow> bool" where
  "slab_ok S \<longleftrightarrow>
     index_mut_ok S \<and>
     (\<forall>n. im_get S (with_capacity S n) = (\<lambda>_. None) \<and> slab_capacity S (with_capacity S n) = n) \<and>
     (\<forall>s. finite (dom (im_get S s)) \<and> slab_len S s = card (dom (im_get S s))) \<and>
     (\<forall>s. im_get S s (vacant_key S s) = None) \<and>
     (\<forall>s v. im_get S (slab_insert S s v) = (im_get S s)(vacant_key S s \<mapsto> v)) \<and>
     (\<forall>s. slab_len S s < slab_capacity S s \<longrightarrow> vacant_key S s < slab_capacity S s) \<and>
     (\<forall>s v. slab_len S s < slab_capacity S s \<longrightarrow>
        slab_capacity S (slab_insert S s v) = slab_capacity S s) \<and>
     (\<forall>s k v. im_get S s k \<noteq> None \<longrightarrow> slab_capacity S (im_set S s k v) = slab_capacity S s) \<and>
     (\<forall>s k. im_get S s k \<noteq> None \<longrightarrow>
        im_get S (slab_remove S s k) = (im_get S s)(k := None) \<and>
        slab_capacity S (slab_remove S s k) = slab_capacity S s) \<and>
     (\<forall>s. im_get S (slab_clear S s) = (\<lambda>_. None)) \<and>
     (\<forall>s. distinct (map fst (slab_iter S s)) \<and> map_of (slab_iter S s) = im_get S s)"

lemma slab_okD:
  assumes "slab_ok S"
  shows slab_index_ok: "index_mut_ok S"
    and slab_new: "im_get S (with_capacity S n) = (\<lambda>_. None)"
    and slab_new_capacity: "slab_capacity S (with_capacity S n) = n"
    and slab_finite: "finite (dom (im_get S s))"
    and slab_len_card: "slab_len S s = card (dom (im_get S s))"
    and slab_vacant: "im_get S s (vacant_key S s) = None"
    and slab_get_insert: "im_get S (slab_insert S s v) = (im_get S s)(vacant_key S s \<mapsto> v)"
    and slab_vacant_bound:
      "slab_len S s < slab_capacity S s \<Longrightarrow> vacant_key S s < slab_capacity S s"
    and slab_insert_capacity:
      "slab_len S s < slab_capacity S s \<Longrightarrow>
         slab_capacity S (slab_insert S s v) = slab_capacity S s"
    and slab_set_capacity:
      "im_get S s k \<noteq> None \<Longrightarrow> slab_capacity S (im_set S s k v) = slab_capacity S s"
    and slab_get_remove:
      "im_get S s k \<noteq> None \<Longrightarrow> im_get S (slab_remove S s k) = (im_get S s)(k := None)"
    and slab_remove_capacity:
      "im_get S s k \<noteq> None \<Longrightarrow> slab_capacity S (slab_remove S s k) = slab_capacity S s"
    and slab_get_clear: "im_get S (slab_clear S s) = (\<lambda>_. None)"
    and slab_iter_distinct: "distinct (map fst (slab_iter S s))"
    and slab_iter_map: "map_of (slab_iter S s) = im_get S s"
  using assms unfolding slab_ok_def by simp_all

lemma slab_get_set:
  "slab_ok S \<Longrightarrow> im_get S s k = Some u \<Longrightarrow> im_get S (im_set S s k v) = (im_get S s)(k \<mapsto> v)"
  by (rule im_get_set [OF slab_index_ok])

lemma slab_iter_mem:
  "slab_ok S \<Longrightarrow> (k, v) \<in> set (slab_iter S s) \<longleftrightarrow> im_get S s k = Some v"
  by (metis map_of_eq_Some_iff slab_iter_distinct slab_iter_map)

lemma slab_take_eq [simp]:
  "im_get S s k = Some v \<Longrightarrow> slab_take S s k = Inr (v, slab_remove S s k)"
  by (simp add: slab_take_def)

lemma slab_take_None [simp]: "im_get S s k = None \<Longrightarrow> slab_take S s k = Inl Index_panic"
  by (simp add: slab_take_def)

lemma slab_empty_iff: "slab_ok S \<Longrightarrow> slab_empty S s \<longleftrightarrow> im_get S s = (\<lambda>_. None)"
  by (simp add: slab_empty_def slab_len_card slab_finite)

lemma slab_len_set:
  "slab_ok S \<Longrightarrow> im_get S s k = Some u \<Longrightarrow> slab_len S (im_set S s k v) = slab_len S s"
  by (simp add: slab_len_card slab_get_set insert_absorb domI)

lemma slab_len_insert: "slab_ok S \<Longrightarrow> slab_len S (slab_insert S s v) = Suc (slab_len S s)"
  by (simp add: slab_len_card slab_get_insert slab_finite slab_vacant card_insert_if domIff)

lemma slab_len_remove:
  assumes "slab_ok S" and "im_get S s k = Some u"
  shows "slab_len S s = Suc (slab_len S (slab_remove S s k))"
proof -
  have "k \<in> dom (im_get S s)" using assms(2) by auto
  from card_Suc_Diff1 [OF slab_finite [OF assms(1)] this] show ?thesis
    using assms by (simp add: slab_len_card slab_get_remove)
qed

text \<open>The values of a slab as a multiset, however it is iterated.\<close>

definition slab_values :: "('s, 'v) slab_ops \<Rightarrow> 's \<Rightarrow> 'v multiset" where
  "slab_values S s = mset (map snd (slab_iter S s))"

lemma slab_values_alt:
  assumes "slab_ok S"
  shows "slab_values S s = image_mset (\<lambda>k. the (im_get S s k)) (mset_set (dom (im_get S s)))"
proof -
  let ?it = "slab_iter S s"
  have "map snd ?it = map (\<lambda>k. the (im_get S s k)) (map fst ?it)"
    by (auto simp: slab_iter_mem [OF assms] intro!: map_cong)
  then have "slab_values S s = image_mset (\<lambda>k. the (im_get S s k)) (mset (map fst ?it))"
    by (simp only: slab_values_def mset_map)
  moreover have "mset (map fst ?it) = mset_set (dom (im_get S s))"
    using slab_iter_distinct [OF assms, of s]
    by (simp only: mset_set_set slab_iter_map [OF assms, symmetric] dom_map_of_conv_image_fst
        set_map [symmetric])
  ultimately show ?thesis by simp
qed

lemma slab_values_clear: "slab_ok S \<Longrightarrow> slab_values S (slab_clear S s) = {#}"
  by (simp add: slab_values_alt slab_get_clear)

lemma slab_values_new: "slab_ok S \<Longrightarrow> slab_values S (with_capacity S n) = {#}"
  by (simp add: slab_values_alt slab_new)

lemma slab_values_insert:
  assumes "slab_ok S"
  shows "slab_values S (slab_insert S s v) = add_mset v (slab_values S s)"
proof -
  have k: "vacant_key S s \<notin> dom (im_get S s)" using slab_vacant [OF assms] by auto
  have "image_mset (\<lambda>k. the (im_get S (slab_insert S s v) k)) (mset_set (dom (im_get S s))) =
      image_mset (\<lambda>k. the (im_get S s k)) (mset_set (dom (im_get S s)))"
    using k by (intro image_mset_cong) (auto simp: slab_get_insert [OF assms] slab_finite [OF assms])
  then show ?thesis
    using k by (simp add: slab_values_alt [OF assms] slab_get_insert [OF assms]
        slab_finite [OF assms])
qed

lemma slab_values_remove:
  assumes "slab_ok S" and "im_get S s k = Some v"
  shows "slab_values S s = add_mset v (slab_values S (slab_remove S s k))"
proof -
  let ?D = "dom (im_get S s)"
  have k: "k \<in> ?D" and fin: "finite ?D" using assms by (auto simp: slab_finite)
  have "mset_set ?D = add_mset k (mset_set (?D - {k}))"
    using k fin by (metis mset_set.remove)
  moreover have "image_mset (\<lambda>k. the (im_get S s k)) (mset_set (?D - {k})) =
      slab_values S (slab_remove S s k)"
    using assms fin by (auto simp: slab_values_alt slab_get_remove intro!: image_mset_cong)
  ultimately show ?thesis using assms by (simp add: slab_values_alt)
qed

lemma slab_values_mem: "slab_ok S \<Longrightarrow> v \<in># slab_values S s \<longleftrightarrow> (\<exists>k. im_get S s k = Some v)"
  by (simp add: slab_iter_mem [symmetric]) (force simp: slab_values_def)

lemma slab_values_empty_iff: "slab_ok S \<Longrightarrow> slab_values S s = {#} \<longleftrightarrow> slab_empty S s"
  by (simp add: slab_values_alt slab_empty_iff slab_finite mset_set_empty_iff)

subsection \<open>A slab that satisfies the laws\<close>

record 'v vslab =
  slots :: "'v option list"
  reserved :: nat

fun first_vacant :: "'v option list \<Rightarrow> nat" where
  "first_vacant [] = 0"
| "first_vacant (None # xs) = 0"
| "first_vacant (Some _ # xs) = Suc (first_vacant xs)"

fun occupied :: "nat \<Rightarrow> 'v option list \<Rightarrow> (nat \<times> 'v) list" where
  "occupied i [] = []"
| "occupied i (None # xs) = occupied (Suc i) xs"
| "occupied i (Some v # xs) = (i, v) # occupied (Suc i) xs"

definition slot :: "'v vslab \<Rightarrow> nat \<Rightarrow> 'v option" where
  "slot s k = (if k < length (slots s) then slots s ! k else None)"

definition fill_slot :: "'v vslab \<Rightarrow> 'v \<Rightarrow> 'v vslab" where
  "fill_slot s v =
     (let k = first_vacant (slots s)
      in if k < length (slots s) then s\<lparr>slots := (slots s)[k := Some v]\<rparr>
         else s\<lparr>slots := slots s @ [Some v]\<rparr>)"

definition vec_slab :: "('v vslab, 'v) slab_ops" where
  "vec_slab =
     \<lparr>im_get = slot,
      im_set = (\<lambda>s k v. s\<lparr>slots := (slots s)[k := Some v]\<rparr>),
      with_capacity = (\<lambda>n. \<lparr>slots = [], reserved = n\<rparr>),
      slab_len = (\<lambda>s. length (occupied 0 (slots s))),
      slab_capacity = (\<lambda>s. max (length (slots s)) (reserved s)),
      vacant_key = (\<lambda>s. first_vacant (slots s)),
      slab_insert = fill_slot,
      slab_remove = (\<lambda>s k. s\<lparr>slots := (slots s)[k := None]\<rparr>),
      slab_clear = (\<lambda>s. s\<lparr>slots := []\<rparr>),
      slab_iter = (\<lambda>s. occupied 0 (slots s))\<rparr>"

lemma vec_slab_get: "im_get vec_slab = slot"
  by (simp add: vec_slab_def)

lemma first_vacant_le: "first_vacant xs \<le> length xs"
  by (induction xs rule: first_vacant.induct) auto

lemma first_vacant_None: "first_vacant xs < length xs \<Longrightarrow> xs ! first_vacant xs = None"
  by (induction xs rule: first_vacant.induct) auto

lemma occupied_keys: "(k, v) \<in> set (occupied i xs) \<Longrightarrow> i \<le> k"
  by (induction i xs rule: occupied.induct) force+

lemma occupied_distinct: "distinct (map fst (occupied i xs))"
  by (induction i xs rule: occupied.induct) (force dest: occupied_keys)+

lemma occupied_map:
  "map_of (occupied i xs) k = (if i \<le> k \<and> k < i + length xs then xs ! (k - i) else None)"
proof (induction i xs rule: occupied.induct)
  case (2 i xs)
  then show ?case by (auto simp: nth_Cons' Suc_diff_le not_less_eq_eq split: nat.splits)
next
  case (3 i v xs)
  then show ?case by (auto simp: nth_Cons')
qed auto

lemma occupied_full: "first_vacant xs = length xs \<Longrightarrow> length (occupied i xs) = length xs"
  by (induction i xs rule: occupied.induct) auto

lemma occupied_slot: "map_of (occupied 0 (slots s)) = slot s"
  by (rule ext) (simp add: occupied_map slot_def)

lemma dom_slot: "dom (slot s) = set (map fst (occupied 0 (slots s)))"
  by (simp add: occupied_slot [symmetric] dom_map_of_conv_image_fst)

lemma slot_fill: "slot (fill_slot s v) = (slot s)(first_vacant (slots s) \<mapsto> v)"
proof (cases "first_vacant (slots s) < length (slots s)")
  case False
  then have "first_vacant (slots s) = length (slots s)"
    using first_vacant_le [of "slots s"] by simp
  then show ?thesis by (auto simp: fill_slot_def slot_def Let_def nth_append)
qed (auto simp: fill_slot_def slot_def Let_def)

lemma slot_vacant: "slot s (first_vacant (slots s)) = None"
  by (simp add: slot_def first_vacant_None)

lemma vec_slab_room:
  assumes "length (occupied 0 (slots s)) < max (length (slots s)) (reserved s)"
  shows "first_vacant (slots s) < max (length (slots s)) (reserved s)"
  using assms first_vacant_le [of "slots s"] occupied_full [of "slots s" 0] by linarith

lemma vec_slab_ok [simp]: "slab_ok vec_slab"
proof -
  have len: "length (occupied 0 (slots s)) = card (dom (slot s))" for s :: "'a vslab"
    by (metis dom_slot distinct_card length_map occupied_distinct)
  have cap: "max (length (slots (fill_slot s v))) (reserved (fill_slot s v)) =
      max (length (slots s)) (reserved s)"
    if "length (occupied 0 (slots s)) < max (length (slots s)) (reserved s)"
    for s :: "'a vslab" and v
    using vec_slab_room [OF that] first_vacant_le [of "slots s"]
    by (auto simp: fill_slot_def Let_def)
  have fin: "finite (dom (slot s))" for s :: "'a vslab"
    by (simp add: dom_slot)
  have room: "first_vacant (slots s) < max (length (slots s)) (reserved s)"
    if "card (dom (slot s)) < max (length (slots s)) (reserved s)" for s :: "'a vslab"
    using that by (simp only: len [symmetric] vec_slab_room)
  show ?thesis
    unfolding slab_ok_def index_mut_ok_def vec_slab_def
    using len cap fin room
    by (auto simp: slot_fill slot_vacant occupied_slot occupied_distinct)
      (auto simp: slot_def fun_eq_iff split: if_splits)
qed

end
