(* ===== verification/Queue_Interface.thy ===== *)
theory Queue_Interface
  imports Prelude
begin

section \<open>The interface between the run queues and their users\<close>

text \<open>
  The executors and the manual event loop keep the keys of the tasks or connections that
  have work to do in a queue threaded through the pool that stores them. They rely on the
  two contracts below and not on how the links are kept.

  \<open>node_queue\<close>: a queue \<open>l\<close> over a pool \<open>s\<close> stands for a sequence of distinct keys of the
  pool; \<open>front\<close> reads its head, \<open>push_back\<close> appends a key, \<open>remove\<close> takes a key out and
  does nothing when the key is not queued; neither changes a stored value or the capacity.
  \<open>node_pool\<close> adds the operations of the pool itself: writing a value, allocating an entry
  and freeing one that is not queued. The argument \<open>S\<close> of every operation is the dictionary
  of pool operations it is called with.
\<close>

locale node_queue =
  fixes view :: "'o \<Rightarrow> 's \<Rightarrow> nat \<Rightarrow> 'v option"
    and room :: "'o \<Rightarrow> 's \<Rightarrow> nat"
    and front :: "'l \<Rightarrow> nat option"
    and push_back :: "'o \<Rightarrow> 'l \<Rightarrow> 's \<Rightarrow> nat \<Rightarrow> ('l \<times> 's) res"
    and remove :: "'o \<Rightarrow> 'l \<Rightarrow> 's \<Rightarrow> nat \<Rightarrow> ('l \<times> 's) res"
    and rep :: "'o \<Rightarrow> 's \<Rightarrow> 'l \<Rightarrow> nat list \<Rightarrow> bool"
  assumes rep_distinct: "rep S s l xs \<Longrightarrow> distinct xs"
    and rep_present: "rep S s l xs \<Longrightarrow> k \<in> set xs \<Longrightarrow> view S s k \<noteq> None"
    and front_rep: "rep S s l xs \<Longrightarrow> front l = first_or None xs"
    and push_back_rep:
      "rep S s l xs \<Longrightarrow> view S s k = Some v \<Longrightarrow> k \<notin> set xs \<Longrightarrow>
         \<exists>l' s'. push_back S l s k = Inr (l', s') \<and> rep S s' l' (xs @ [k]) \<and>
           view S s' = view S s \<and> room S s' = room S s"
    and remove_rep:
      "rep S s l xs \<Longrightarrow> view S s k = Some v \<Longrightarrow>
         \<exists>l' s'. remove S l s k = Inr (l', s') \<and> rep S s' l' (removeAll k xs) \<and>
           view S s' = view S s \<and> room S s' = room S s"
begin

text \<open>Removing a key and appending it again moves it, or puts it, to the end of the queue.\<close>

lemma requeue:
  assumes "rep S s l xs" and "view S s k = Some v"
  shows "\<exists>l1 s1 l2 s2. remove S l s k = Inr (l1, s1) \<and> push_back S l1 s1 k = Inr (l2, s2) \<and>
    rep S s2 l2 (removeAll k xs @ [k]) \<and> view S s2 = view S s \<and> room S s2 = room S s"
proof -
  obtain l1 s1 where r: "remove S l s k = Inr (l1, s1)" "rep S s1 l1 (removeAll k xs)"
      "view S s1 = view S s" "room S s1 = room S s"
    using remove_rep [OF assms] by blast
  obtain l2 s2 where "push_back S l1 s1 k = Inr (l2, s2)" "rep S s2 l2 (removeAll k xs @ [k])"
      "view S s2 = view S s1" "room S s2 = room S s1"
    using push_back_rep [OF r(2), of k v] r(3) assms(2) by auto
  with r show ?thesis by auto
qed

text \<open>Removing the key at the front takes the head off the sequence.\<close>

lemma remove_front:
  assumes "rep S s l xs" and "front l = Some k"
  shows "\<exists>ks l' s'. xs = k # ks \<and> remove S l s k = Inr (l', s') \<and> rep S s' l' ks \<and>
    view S s' = view S s \<and> room S s' = room S s \<and> view S s k \<noteq> None"
proof -
  obtain ks where xs: "xs = k # ks"
    using front_rep [OF assms(1)] assms(2) by (auto dest: first_or_SomeD [OF sym])
  then obtain v where "view S s k = Some v" using rep_present [OF assms(1), of k] by auto
  moreover have "removeAll k xs = ks" using rep_distinct [OF assms(1)] xs by simp
  ultimately show ?thesis using remove_rep [OF assms(1), of k v] xs by auto
qed

lemma front_None_iff: "rep S s l xs \<Longrightarrow> front l = None \<longleftrightarrow> xs = []"
  by (simp add: front_rep)

end

locale node_pool = node_queue view room front push_back remove rep
  for view :: "'o \<Rightarrow> 's \<Rightarrow> nat \<Rightarrow> 'v option"
    and room :: "'o \<Rightarrow> 's \<Rightarrow> nat"
    and front :: "'l \<Rightarrow> nat option"
    and push_back :: "'o \<Rightarrow> 'l \<Rightarrow> 's \<Rightarrow> nat \<Rightarrow> ('l \<times> 's) res"
    and remove :: "'o \<Rightarrow> 'l \<Rightarrow> 's \<Rightarrow> nat \<Rightarrow> ('l \<times> 's) res"
    and rep :: "'o \<Rightarrow> 's \<Rightarrow> 'l \<Rightarrow> nat list \<Rightarrow> bool" +
  fixes alter :: "'o \<Rightarrow> 's \<Rightarrow> nat \<Rightarrow> ('v \<Rightarrow> 'v) \<Rightarrow> 's res"
    and fresh :: "'o \<Rightarrow> 's \<Rightarrow> nat"
    and alloc :: "'o \<Rightarrow> 's \<Rightarrow> 'v \<Rightarrow> 's"
    and release :: "'o \<Rightarrow> 's \<Rightarrow> nat \<Rightarrow> 's res"
    and used :: "'o \<Rightarrow> 's \<Rightarrow> nat"
  assumes alter_rep:
      "rep S s l xs \<Longrightarrow> view S s k = Some v \<Longrightarrow>
         \<exists>s'. alter S s k f = Inr s' \<and> rep S s' l xs \<and> view S s' = (view S s)(k \<mapsto> f v) \<and>
           room S s' = room S s"
    and fresh_rep: "rep S s l xs \<Longrightarrow> view S s (fresh S s) = None"
    and fresh_room: "rep S s l xs \<Longrightarrow> used S s < room S s \<Longrightarrow> fresh S s < room S s"
    and alloc_rep:
      "rep S s l xs \<Longrightarrow> rep S (alloc S s v) l xs \<and>
         view S (alloc S s v) = (view S s)(fresh S s \<mapsto> v)"
    and alloc_room: "rep S s l xs \<Longrightarrow> used S s < room S s \<Longrightarrow> room S (alloc S s v) = room S s"
    and release_rep:
      "rep S s l xs \<Longrightarrow> view S s k = Some v \<Longrightarrow> k \<notin> set xs \<Longrightarrow>
         \<exists>s'. release S s k = Inr s' \<and> rep S s' l xs \<and> view S s' = (view S s)(k := None) \<and>
           room S s' = room S s"
    and used_view: "rep S s l xs \<Longrightarrow> used S s = card (dom (view S s)) \<and> finite (dom (view S s))"
begin

text \<open>Allocating an entry and queueing it, as spawning a task or accepting a connection does.\<close>

lemma alloc_push:
  assumes "rep S s l xs"
  shows "\<exists>l' s'. push_back S l (alloc S s v) (fresh S s) = Inr (l', s') \<and>
    rep S s' l' (xs @ [fresh S s]) \<and> view S s' = (view S s)(fresh S s \<mapsto> v) \<and>
    (used S s < room S s \<longrightarrow> room S s' = room S s)"
proof -
  have a: "rep S (alloc S s v) l xs" "view S (alloc S s v) = (view S s)(fresh S s \<mapsto> v)"
    using alloc_rep [OF assms] by blast+
  have "fresh S s \<notin> set xs" using fresh_rep [OF assms] rep_present [OF assms] by blast
  with push_back_rep [OF a(1), of "fresh S s" v] a(2) alloc_room [OF assms, of v] show ?thesis
    by auto
qed

text \<open>Taking a key out of the queue and freeing its entry, as completing a task does.\<close>

lemma remove_release:
  assumes "rep S s l xs" and "view S s k = Some v"
  shows "\<exists>l' s' s''. remove S l s k = Inr (l', s') \<and> release S s' k = Inr s'' \<and>
    rep S s'' l' (removeAll k xs) \<and> view S s'' = (view S s)(k := None) \<and> room S s'' = room S s"
proof -
  obtain l' s' where r: "remove S l s k = Inr (l', s')" "rep S s' l' (removeAll k xs)"
      "view S s' = view S s" "room S s' = room S s"
    using remove_rep [OF assms] by blast
  then show ?thesis using release_rep [OF r(2), of k v] assms(2) by auto
qed

lemma used_empty: "rep S s l xs \<Longrightarrow> used S s = 0 \<longleftrightarrow> view S s = (\<lambda>_. None)"
  using used_view [of S s l xs] by simp

end

end
