(* ===== verification/Intrusive_List.thy ===== *)
theory Intrusive_List
  imports Slab_Interface Queue_Interface
begin

section \<open>The intrusive doubly linked list (src/src/list.rs)\<close>

text \<open>
  A \<open>List\<close> holds the keys of its first and last node; the nodes live in a store the caller
  passes in and point at each other by key. The operations are translated statement by
  statement: a borrow \<open>&mut nodes[key]\<close> panics when the store has no such key, and each
  assignment through it is one \<open>modify_at\<close>. The abstraction \<open>is_dlist\<close> reads the list as a
  sequence of distinct keys; every operation is shown to refine the operation on sequences,
  to leave the values and all other nodes alone, and not to panic.
\<close>

record 'v node =
  nd_prev :: "nat option"
  nd_next :: "nat option"
  nd_value :: 'v

definition node_new :: "'v \<Rightarrow> 'v node" where
  "node_new v = \<lparr>nd_prev = None, nd_next = None, nd_value = v\<rparr>"

record dlist =
  l_head :: "nat option"
  l_tail :: "nat option"

definition list_default :: dlist where
  "list_default = \<lparr>l_head = None, l_tail = None\<rparr>"

definition list_is_empty :: "dlist \<Rightarrow> bool" where
  "list_is_empty l = (\<not> (l_head l \<noteq> None))"

subsection \<open>The operations\<close>

definition list_insert ::
  "('s, 'v node, 'z) index_mut_scheme \<Rightarrow> dlist \<Rightarrow> 's \<Rightarrow> nat option \<Rightarrow> nat \<Rightarrow> (dlist \<times> 's) res" where
  "list_insert I l nodes after key =
     and_then
       (case after of
          Some pkey \<Rightarrow>
            and_then (index_at I nodes pkey) (\<lambda>pn.
            let nxt = nd_next pn;
                nodes = im_set I nodes pkey (pn\<lparr>nd_next := Some key\<rparr>)
            in and_then (modify_at I nodes key (\<lambda>n. n\<lparr>nd_prev := Some pkey\<rparr>)) (\<lambda>nodes.
            Inr (nxt, l, nodes)))
        | None \<Rightarrow>
            let nxt = l_head l;
                l = l\<lparr>l_head := Some key\<rparr>
            in and_then (modify_at I nodes key (\<lambda>n. n\<lparr>nd_prev := None\<rparr>)) (\<lambda>nodes.
            Inr (nxt, l, nodes)))
       (\<lambda>(nxt, l, nodes).
     and_then (modify_at I nodes key (\<lambda>n. n\<lparr>nd_next := nxt\<rparr>)) (\<lambda>nodes.
     case nxt of
       Some nkey \<Rightarrow>
         and_then (modify_at I nodes nkey (\<lambda>nn. nn\<lparr>nd_prev := Some key\<rparr>)) (\<lambda>nodes.
         Inr (l, nodes))
     | None \<Rightarrow> Inr (l\<lparr>l_tail := Some key\<rparr>, nodes)))"

definition list_remove ::
  "('s, 'v node, 'z) index_mut_scheme \<Rightarrow> dlist \<Rightarrow> 's \<Rightarrow> nat \<Rightarrow> (dlist \<times> 's) res" where
  "list_remove I l nodes key =
     and_then (index_at I nodes key) (\<lambda>n.
     let prv = nd_prev n;
         nxt = nd_next n;
         nodes = im_set I nodes key (n\<lparr>nd_prev := None, nd_next := None\<rparr>)
     in
     and_then
       (case prv of
          Some pkey \<Rightarrow> modify_at I nodes pkey (\<lambda>pn. pn\<lparr>nd_next := nxt\<rparr>)
        | None \<Rightarrow> Inr nodes) (\<lambda>nodes.
     and_then
       (case nxt of
          Some nkey \<Rightarrow> modify_at I nodes nkey (\<lambda>nn. nn\<lparr>nd_prev := prv\<rparr>)
        | None \<Rightarrow> Inr nodes) (\<lambda>nodes.
     let l = (case l_head l of
                Some hkey \<Rightarrow> if hkey = key then l\<lparr>l_head := nxt\<rparr> else l
              | None \<Rightarrow> l);
         l = (case l_tail l of
                Some tkey \<Rightarrow> if tkey = key then l\<lparr>l_tail := prv\<rparr> else l
              | None \<Rightarrow> l)
     in Inr (l, nodes))))"

definition list_pop_front ::
  "('s, 'v node, 'z) index_mut_scheme \<Rightarrow> dlist \<Rightarrow> 's \<Rightarrow> (nat option \<times> dlist \<times> 's) res" where
  "list_pop_front I l nodes =
     (case l_head l of
        Some key \<Rightarrow>
          and_then (list_remove I l nodes key) (\<lambda>(l, nodes). Inr (Some key, l, nodes))
      | None \<Rightarrow> Inr (None, l, nodes))"

definition list_push_back ::
  "('s, 'v node, 'z) index_mut_scheme \<Rightarrow> dlist \<Rightarrow> 's \<Rightarrow> nat \<Rightarrow> (dlist \<times> 's) res" where
  "list_push_back I l nodes key = list_insert I l nodes (l_tail l) key"

definition list_concat ::
  "('s, 'v node, 'z) index_mut_scheme \<Rightarrow> dlist \<Rightarrow> 's \<Rightarrow> dlist \<Rightarrow> (dlist \<times> 's \<times> dlist) res" where
  "list_concat I l nodes other =
     (if list_is_empty other then Inr (l, nodes, other)
      else
        and_then (expect Unwrap_panic (l_head other)) (\<lambda>hkey.
        and_then (index_at I nodes hkey) (\<lambda>hn.
        let nxt = nd_next hn in
        and_then (list_insert I l nodes (l_tail l) hkey) (\<lambda>(l, nodes).
        and_then (modify_at I nodes hkey (\<lambda>n. n\<lparr>nd_next := nxt\<rparr>)) (\<lambda>nodes.
        let l = l\<lparr>l_tail := l_tail other\<rparr>;
            other = other\<lparr>l_head := None\<rparr>;
            other = other\<lparr>l_tail := None\<rparr>
        in Inr (l, nodes, other))))))"

subsection \<open>The sequence a list stands for\<close>

text \<open>
  \<open>linked m p xs q\<close>: the nodes \<open>xs\<close> of the store \<open>m\<close> are chained in this order, the first
  pointing back to \<open>p\<close> and the last pointing on to \<open>q\<close>. A node outside every list is
  detached: it has no neighbours, as \<open>Node::new\<close> makes it and \<open>remove\<close> leaves it.
\<close>

fun linked :: "(nat \<Rightarrow> 'v node option) \<Rightarrow> nat option \<Rightarrow> nat list \<Rightarrow> nat option \<Rightarrow> bool" where
  "linked m p [] q = True"
| "linked m p (k # ks) q =
     (case m k of
        None \<Rightarrow> False
      | Some n \<Rightarrow> nd_prev n = p \<and> nd_next n = first_or q ks \<and> linked m (Some k) ks q)"

definition is_dlist :: "(nat \<Rightarrow> 'v node option) \<Rightarrow> dlist \<Rightarrow> nat list \<Rightarrow> bool" where
  "is_dlist m l xs \<longleftrightarrow>
     distinct xs \<and> l_head l = first_or None xs \<and> l_tail l = last_or None xs \<and>
     linked m None xs None"

definition detached :: "'v node \<Rightarrow> bool" where
  "detached n \<longleftrightarrow> nd_prev n = None \<and> nd_next n = None"

definition same_values :: "(nat \<Rightarrow> 'v node option) \<Rightarrow> (nat \<Rightarrow> 'v node option) \<Rightarrow> bool" where
  "same_values m m' \<longleftrightarrow> (\<forall>k. map_option nd_value (m' k) = map_option nd_value (m k))"

lemma detached_new [simp]: "detached (node_new v)"
  by (simp add: detached_def node_new_def)

lemma node_new_value [simp]: "nd_value (node_new v) = v"
  by (simp add: node_new_def)

lemma linked_append:
  "linked m p (xs @ ys) q \<longleftrightarrow> linked m p xs (first_or q ys) \<and> linked m (last_or p xs) ys q"
  by (induction xs arbitrary: p) (auto split: option.splits)

lemma linked_present: "linked m p xs q \<Longrightarrow> k \<in> set xs \<Longrightarrow> \<exists>n. m k = Some n"
  by (induction xs arbitrary: p) (auto split: option.splits)

lemma linked_cong: "(\<And>k. k \<in> set xs \<Longrightarrow> m' k = m k) \<Longrightarrow> linked m' p xs q = linked m p xs q"
  by (induction xs arbitrary: p) (auto split: option.splits)

lemma linked_upd_other [simp]: "k \<notin> set xs \<Longrightarrow> linked (m(k := v)) p xs q = linked m p xs q"
  by (rule linked_cong) auto

lemma linked_set_prev:
  assumes "linked m p xs q" and "m k = Some n" and "distinct xs" and "first_or None xs = Some k"
  shows "linked (m(k \<mapsto> n\<lparr>nd_prev := p'\<rparr>)) p' xs q"
  using assms by (cases xs) auto

lemma linked_set_next:
  assumes "linked m p xs q" and "m k = Some n" and "distinct xs" and "last_or None xs = Some k"
  shows "linked (m(k \<mapsto> n\<lparr>nd_next := q'\<rparr>)) p xs q'"
proof -
  obtain ys where "xs = ys @ [k]" using last_or_SomeD [OF assms(4)] by blast
  with assms show ?thesis by (auto simp: linked_append)
qed

lemma same_values_refl [simp]: "same_values m m"
  by (simp add: same_values_def)

lemma same_values_trans: "same_values m m' \<Longrightarrow> same_values m' m'' \<Longrightarrow> same_values m m''"
  by (simp add: same_values_def)

lemma same_values_upd:
  "same_values m m' \<Longrightarrow> m' k = Some n \<Longrightarrow> nd_value n' = nd_value n \<Longrightarrow> same_values m (m'(k \<mapsto> n'))"
  by (auto simp: same_values_def) (metis option.map(2))

lemma same_values_dom: "same_values m m' \<Longrightarrow> dom m' = dom m"
  unfolding same_values_def set_eq_iff domIff by (metis option.map_disc_iff)

lemma same_valuesD:
  "same_values m m' \<Longrightarrow> m k = Some n \<Longrightarrow> \<exists>n'. m' k = Some n' \<and> nd_value n' = nd_value n"
  by (metis (no_types, lifting) map_option_eq_Some same_values_def)

subsection \<open>Every operation refines its operation on sequences\<close>

text \<open>
  \<open>relinked m m' K\<close>: from store \<open>m\<close> to \<open>m'\<close> no value changed and no node outside \<open>K\<close> did.
\<close>

definition relinked :: "(nat \<Rightarrow> 'v node option) \<Rightarrow> (nat \<Rightarrow> 'v node option) \<Rightarrow> nat set \<Rightarrow> bool" where
  "relinked m m' K \<longleftrightarrow> same_values m m' \<and> (\<forall>j. j \<notin> K \<longrightarrow> m' j = m j)"

lemma relinked_refl [simp]: "relinked m m K"
  by (simp add: relinked_def)

lemma relinked_upd:
  "relinked m m' K \<Longrightarrow> m' k = Some n \<Longrightarrow> k \<in> K \<Longrightarrow> nd_value n' = nd_value n \<Longrightarrow>
     relinked m (m'(k \<mapsto> n')) K"
  by (auto simp: relinked_def intro: same_values_upd)

lemma relinked_trans: "relinked m m' K \<Longrightarrow> relinked m' m'' K \<Longrightarrow> relinked m m'' K"
  by (auto simp: relinked_def intro: same_values_trans)

lemma relinked_mono: "relinked m m' K \<Longrightarrow> K \<subseteq> K' \<Longrightarrow> relinked m m' K'"
  by (auto simp: relinked_def)

lemma is_dlist_frame:
  "is_dlist m l xs \<Longrightarrow> relinked m m' K \<Longrightarrow> K \<inter> set xs = {} \<Longrightarrow> is_dlist m' l xs"
  unfolding is_dlist_def relinked_def by (metis disjoint_iff linked_cong)

lemma list_insert_after:
  assumes I: "index_mut_ok I" and l: "is_dlist (im_get I s) l (ys @ p # zs)"
    and k: "im_get I s k = Some n" "k \<notin> set (ys @ p # zs)"
  shows "\<exists>l' s'. list_insert I l s (Some p) k = Inr (l', s') \<and>
           is_dlist (im_get I s') l' (ys @ p # k # zs) \<and>
           relinked (im_get I s) (im_get I s') (insert k (set (ys @ p # zs)))"
proof -
  obtain pn where pn: "im_get I s p = Some pn" "nd_prev pn = last_or None ys"
      "nd_next pn = first_or None zs"
    using l by (auto simp: is_dlist_def linked_append split: option.splits)
  show ?thesis
  proof (cases zs)
    case Nil
    then show ?thesis
      using l k pn
      by (auto simp: list_insert_def is_dlist_def linked_append im_get_set [OF I] Let_def
          linked_set_next intro!: relinked_upd)
  next
    case (Cons z zs')
    obtain zn where "im_get I s z = Some zn"
      using l Cons by (auto simp: is_dlist_def linked_append split: option.splits)
    then show ?thesis
      using l k pn Cons
      by (auto simp: list_insert_def is_dlist_def linked_append im_get_set [OF I] Let_def
          intro!: relinked_upd)
  qed
qed

lemma list_insert_front:
  assumes I: "index_mut_ok I" and l: "is_dlist (im_get I s) l xs"
    and k: "im_get I s k = Some n" "k \<notin> set xs"
  shows "\<exists>l' s'. list_insert I l s None k = Inr (l', s') \<and>
           is_dlist (im_get I s') l' (k # xs) \<and>
           relinked (im_get I s) (im_get I s') (insert k (set xs))"
proof (cases xs)
  case Nil
  then show ?thesis
    using l k
    by (auto simp: list_insert_def is_dlist_def im_get_set [OF I] Let_def intro!: relinked_upd)
next
  case (Cons z zs)
  obtain zn where "im_get I s z = Some zn"
    using l Cons by (auto simp: is_dlist_def split: option.splits)
  then show ?thesis
    using l k Cons
    by (auto simp: list_insert_def is_dlist_def im_get_set [OF I] Let_def intro!: relinked_upd)
qed

lemma list_push_back_refines:
  assumes I: "index_mut_ok I" and l: "is_dlist (im_get I s) l xs"
    and k: "im_get I s k = Some n" "k \<notin> set xs"
  shows "\<exists>l' s'. list_push_back I l s k = Inr (l', s') \<and>
           is_dlist (im_get I s') l' (xs @ [k]) \<and>
           relinked (im_get I s) (im_get I s') (insert k (set xs))"
proof (cases xs rule: rev_cases)
  case Nil
  then have "l_tail l = None" using l by (simp add: is_dlist_def)
  with list_insert_front [OF assms] Nil show ?thesis by (simp add: list_push_back_def)
next
  case (snoc ys p)
  then have "l_tail l = Some p" using l by (simp add: is_dlist_def)
  with list_insert_after [OF I, of s l ys p "[]"] l k snoc show ?thesis
    by (simp add: list_push_back_def)
qed

lemma list_remove_member:
  assumes I: "index_mut_ok I" and l: "is_dlist (im_get I s) l (ys @ k # zs)"
  shows "\<exists>l' s'. list_remove I l s k = Inr (l', s') \<and>
           is_dlist (im_get I s') l' (ys @ zs) \<and>
           relinked (im_get I s) (im_get I s') (set (ys @ k # zs)) \<and>
           (\<exists>n. im_get I s' k = Some n \<and> detached n)"
proof -
  have dist: "distinct (ys @ k # zs)" using l by (simp add: is_dlist_def)
  obtain n where n: "im_get I s k = Some n" "nd_prev n = last_or None ys"
      "nd_next n = first_or None zs"
    using l by (auto simp: is_dlist_def linked_append split: option.splits)
  have ahead: "linked (im_get I s) None ys (Some k)"
    and behind: "linked (im_get I s) (Some k) zs None"
    using l n by (auto simp: is_dlist_def linked_append)
  have ends: "l_head l = first_or (Some k) ys" "l_tail l = last_or (Some k) zs"
    using l by (simp_all add: is_dlist_def)
  show ?thesis
  proof (cases ys rule: rev_cases)
    case Nil
    show ?thesis
    proof (cases zs)
      case Nil
      with \<open>ys = []\<close> n ends show ?thesis
        by (auto simp: list_remove_def is_dlist_def im_get_set [OF I] Let_def detached_def
            intro!: relinked_upd)
    next
      case (Cons z zs')
      then obtain zn where "im_get I s z = Some zn" using behind by (auto split: option.splits)
      with Cons \<open>ys = []\<close> n ends behind dist show ?thesis
        by (auto simp: list_remove_def is_dlist_def im_get_set [OF I] Let_def detached_def
            last_or_def intro!: relinked_upd)
    qed
  next
    case (snoc ys' p)
    then obtain pn where pn: "im_get I s p = Some pn"
      using ahead by (auto simp: linked_append split: option.splits)
    have p: "p \<noteq> k" "p \<notin> set zs" using snoc dist by auto
    obtain h where h: "first_or (Some p) ys' = Some h" "h \<noteq> k"
      using snoc dist by (cases ys') auto
    show ?thesis
    proof (cases zs)
      case Nil
      with snoc n ends ahead dist pn p h show ?thesis
        by (auto simp: list_remove_def is_dlist_def im_get_set [OF I] Let_def
            detached_def linked_append intro!: relinked_upd)
    next
      case (Cons z zs')
      then obtain zn where "im_get I s z = Some zn" using behind by (auto split: option.splits)
      with Cons snoc n ends ahead behind dist pn p h show ?thesis
        by (auto simp: list_remove_def is_dlist_def im_get_set [OF I] Let_def
            detached_def linked_append last_or_def intro!: relinked_upd)
    qed
  qed
qed

lemma list_remove_absent:
  assumes I: "index_mut_ok I" and l: "is_dlist (im_get I s) l xs"
    and k: "im_get I s k = Some n" "detached n" "k \<notin> set xs"
  shows "\<exists>s'. list_remove I l s k = Inr (l, s') \<and> im_get I s' = im_get I s"
proof -
  have "l_head l \<noteq> Some k" "l_tail l \<noteq> Some k"
    using l k by (auto simp: is_dlist_def first_or_def last_or_def split: list.splits if_splits)
  moreover have "n\<lparr>nd_prev := None, nd_next := None\<rparr> = n"
    using k(2) by (simp add: detached_def)
  ultimately show ?thesis
    using k(1,2) by (auto simp: list_remove_def im_get_set [OF I] Let_def detached_def
        split: option.splits)
qed

lemma list_pop_front_refines:
  assumes I: "index_mut_ok I" and l: "is_dlist (im_get I s) l (k # ks)"
  shows "\<exists>l' s'. list_pop_front I l s = Inr (Some k, l', s') \<and>
           is_dlist (im_get I s') l' ks \<and>
           relinked (im_get I s) (im_get I s') (set (k # ks)) \<and>
           (\<exists>n. im_get I s' k = Some n \<and> detached n)"
proof -
  have "l_head l = Some k" using l by (simp add: is_dlist_def)
  then show ?thesis
    using list_remove_member [OF I, of s l "[]" k ks] l
    by (auto simp: list_pop_front_def)
qed

lemma list_pop_front_empty:
  "is_dlist (im_get I s) l [] \<Longrightarrow> list_pop_front I l s = Inr (None, l, s)"
  by (simp add: is_dlist_def list_pop_front_def)

text \<open>
  \<open>concat\<close> splices the other list behind this one in constant time: it inserts the other
  list's head after this list's tail, puts back the \<open>next\<close> link the insertion cleared and
  takes over the other tail.
\<close>

lemma list_concat_refines:
  assumes I: "index_mut_ok I" and l: "is_dlist (im_get I s) l xs"
    and o: "is_dlist (im_get I s) other ys" and disj: "set xs \<inter> set ys = {}"
  shows "\<exists>l' s'. list_concat I l s other = Inr (l', s', list_default) \<and>
           is_dlist (im_get I s') l' (xs @ ys) \<and>
           relinked (im_get I s) (im_get I s') (set xs \<union> set ys)"
proof (cases ys)
  case Nil
  with o have "other = list_default" by (simp add: is_dlist_def list_default_def)
  with l Nil show ?thesis by (auto simp: list_concat_def list_is_empty_def list_default_def)
next
  case (Cons h hs)
  obtain hn where hn: "im_get I s h = Some hn" "nd_next hn = first_or None hs"
    and rest: "linked (im_get I s) (Some h) hs None"
    using o Cons by (auto simp: is_dlist_def split: option.splits)
  have h: "h \<notin> set xs" "h \<notin> set hs" using disj Cons o by (auto simp: is_dlist_def)
  obtain l1 s1 where ins: "list_insert I l s (l_tail l) h = Inr (l1, s1)"
    and l1: "is_dlist (im_get I s1) l1 (xs @ [h])"
    and r1: "relinked (im_get I s) (im_get I s1) (insert h (set xs))"
    using list_push_back_refines [OF I l hn(1) h(1)] by (auto simp: list_push_back_def)
  obtain hn1 where hn1: "im_get I s1 h = Some hn1" "nd_prev hn1 = last_or None xs"
    using l1 by (auto simp: is_dlist_def linked_append split: option.splits)
  let ?s2 = "im_set I s1 h (hn1\<lparr>nd_next := first_or None hs\<rparr>)"
  let ?l2 = "l1\<lparr>l_tail := l_tail other\<rparr>"
  have get2: "im_get I ?s2 = (im_get I s1)(h \<mapsto> hn1\<lparr>nd_next := first_or None hs\<rparr>)"
    by (rule im_get_set [OF I hn1(1)])
  have run: "list_concat I l s other = Inr (?l2, ?s2, list_default)"
    using o Cons hn ins hn1
    by (simp add: list_concat_def list_is_empty_def is_dlist_def list_default_def Let_def)
  have "linked (im_get I s1) (Some h) hs None"
    using rest r1 h disj Cons
    by (subst linked_cong [where m = "im_get I s"]) (auto simp: relinked_def)
  moreover have "linked (im_get I s1) None xs (Some h)"
    using l1 by (auto simp: is_dlist_def linked_append)
  ultimately have "linked (im_get I ?s2) None (xs @ ys) None"
    using hn1 h Cons by (simp add: get2 linked_append)
  then have d2: "is_dlist (im_get I ?s2) ?l2 (xs @ ys)"
    using l1 l o disj Cons by (auto simp: is_dlist_def last_or_def)
  have "relinked (im_get I s) (im_get I ?s2) (set xs \<union> set ys)"
    unfolding get2
    by (rule relinked_upd [OF relinked_mono [OF r1]]) (use Cons hn1 in auto)
  with run d2 show ?thesis by blast
qed

subsection \<open>The list as a queue threaded through a slab\<close>

text \<open>
  \<open>queue_rep S s l xs\<close>: \<open>S\<close> is a lawful slab, the list \<open>l\<close> over its nodes stands for \<open>xs\<close>,
  and every other node is detached. It is what the executors and the manual loop keep true
  of their slab and queue, and with it the list operations meet the queue contract.
\<close>

definition queue_rep :: "('s, 'v node) slab_ops \<Rightarrow> 's \<Rightarrow> dlist \<Rightarrow> nat list \<Rightarrow> bool" where
  "queue_rep S s l xs \<longleftrightarrow>
     slab_ok S \<and> is_dlist (im_get S s) l xs \<and>
     (\<forall>k n. im_get S s k = Some n \<longrightarrow> k \<notin> set xs \<longrightarrow> detached n)"

definition value_at :: "('s, 'v node) slab_ops \<Rightarrow> 's \<Rightarrow> nat \<Rightarrow> 'v option" where
  "value_at S s k = map_option nd_value (im_get S s k)"

definition alter_value :: "('s, 'v node) slab_ops \<Rightarrow> 's \<Rightarrow> nat \<Rightarrow> ('v \<Rightarrow> 'v) \<Rightarrow> 's res" where
  "alter_value S s k f = modify_at S s k (\<lambda>n. n\<lparr>nd_value := f (nd_value n)\<rparr>)"

definition alloc_node :: "('s, 'v node) slab_ops \<Rightarrow> 's \<Rightarrow> 'v \<Rightarrow> 's" where
  "alloc_node S s v = slab_insert S s (node_new v)"

definition release_node :: "('s, 'v node) slab_ops \<Rightarrow> 's \<Rightarrow> nat \<Rightarrow> 's res" where
  "release_node S s k = and_then (slab_take S s k) (\<lambda>(_, s). Inr s)"

lemma value_at_upd:
  "im_get S s' = (im_get S s)(k := x) \<Longrightarrow>
     value_at S s' = (value_at S s)(k := map_option nd_value x)"
  by (rule ext) (simp add: value_at_def)

lemma value_at_same: "im_get S s' = im_get S s \<Longrightarrow> value_at S s' = value_at S s"
  by (rule ext) (simp add: value_at_def)

text \<open>Whatever overwriting a node keeps, the list operations keep: the capacity, here.\<close>

definition set_keeps :: "('s, 'v, 'z) index_mut_scheme \<Rightarrow> ('s \<Rightarrow> 'c) \<Rightarrow> bool" where
  "set_keeps I f \<longleftrightarrow> (\<forall>s k v. im_get I s k \<noteq> None \<longrightarrow> f (im_set I s k v) = f s)"

lemma modify_at_keeps: "set_keeps I f \<Longrightarrow> modify_at I s k g = Inr s' \<Longrightarrow> f s' = f s"
  by (auto simp: set_keeps_def modify_at_def res_iff)

lemma im_set_keeps: "set_keeps I f \<Longrightarrow> im_get I s k = Some u \<Longrightarrow> f (im_set I s k v) = f s"
  by (simp add: set_keeps_def)

lemma list_insert_keeps:
  assumes "set_keeps I f" and "list_insert I l s after k = Inr (l', s')"
  shows "f s' = f s"
  using assms(2)
  by (auto simp: list_insert_def res_iff Let_def im_set_keeps [OF assms(1)]
      dest!: modify_at_keeps [OF assms(1)] split: option.splits)

lemma list_remove_keeps:
  assumes "set_keeps I f" and "list_remove I l s k = Inr (l', s')"
  shows "f s' = f s"
  using assms(2)
  by (auto simp: list_remove_def res_iff Let_def im_set_keeps [OF assms(1)]
      dest!: modify_at_keeps [OF assms(1)] split: option.splits)

lemma slab_set_keeps_capacity: "slab_ok S \<Longrightarrow> set_keeps S (slab_capacity S)"
  by (simp add: set_keeps_def slab_set_capacity)

lemma relinked_value_at: "relinked (im_get S s) (im_get S s') K \<Longrightarrow> value_at S s' = value_at S s"
  by (auto simp: relinked_def same_values_def value_at_def)

lemma queue_rep_relinked:
  assumes "queue_rep S s l xs" and "is_dlist (im_get S s') l' xs'"
    and "relinked (im_get S s) (im_get S s') (insert k (set xs))"
    and "set xs \<subseteq> insert k (set xs')"
    and "k \<notin> set xs' \<Longrightarrow> \<exists>n. im_get S s' k = Some n \<and> detached n"
  shows "queue_rep S s' l' xs'"
  unfolding queue_rep_def
proof (intro conjI allI impI)
  show "slab_ok S" "is_dlist (im_get S s') l' xs'" using assms by (simp_all add: queue_rep_def)
  fix j n assume "im_get S s' j = Some n" "j \<notin> set xs'"
  show "detached n"
  proof (cases "j = k")
    case False
    with \<open>j \<notin> set xs'\<close> assms(3,4) have "j \<notin> set xs" "im_get S s' j = im_get S s j"
      by (auto simp: relinked_def)
    with \<open>im_get S s' j = Some n\<close> assms(1) show ?thesis by (simp add: queue_rep_def)
  qed (use \<open>im_get S s' j = Some n\<close> \<open>j \<notin> set xs'\<close> assms(5) in auto)
qed

lemma queue_rep_push_back:
  assumes r: "queue_rep S s l xs" and k: "value_at S s k = Some v" "k \<notin> set xs"
  shows "\<exists>l' s'. list_push_back S l s k = Inr (l', s') \<and> queue_rep S s' l' (xs @ [k]) \<and>
    value_at S s' = value_at S s \<and> slab_capacity S s' = slab_capacity S s"
proof -
  have ok: "slab_ok S" and d: "is_dlist (im_get S s) l xs" using r by (simp_all add: queue_rep_def)
  obtain n where n: "im_get S s k = Some n" using k(1) by (auto simp: value_at_def)
  obtain l' s' where p: "list_push_back S l s k = Inr (l', s')"
      "is_dlist (im_get S s') l' (xs @ [k])"
      "relinked (im_get S s) (im_get S s') (insert k (set xs))"
    using list_push_back_refines [OF slab_index_ok [OF ok] d n k(2)] by blast
  have "queue_rep S s' l' (xs @ [k])" by (rule queue_rep_relinked [OF r p(2,3)]) auto
  then show ?thesis
    using p relinked_value_at list_insert_keeps [OF slab_set_keeps_capacity [OF ok]]
    by (metis list_push_back_def)
qed

lemma queue_rep_remove:
  assumes r: "queue_rep S s l xs" and k: "value_at S s k = Some v"
  shows "\<exists>l' s'. list_remove S l s k = Inr (l', s') \<and> queue_rep S s' l' (removeAll k xs) \<and>
    value_at S s' = value_at S s \<and> slab_capacity S s' = slab_capacity S s"
proof -
  have ok: "slab_ok S" and d: "is_dlist (im_get S s) l xs" using r by (simp_all add: queue_rep_def)
  obtain n where n: "im_get S s k = Some n" using k by (auto simp: value_at_def)
  have "\<exists>l' s'. list_remove S l s k = Inr (l', s') \<and> queue_rep S s' l' (removeAll k xs) \<and>
    value_at S s' = value_at S s"
  proof (cases "k \<in> set xs")
    case True
    then obtain ys zs where xs: "xs = ys @ k # zs" by (meson split_list)
    then have del: "removeAll k xs = ys @ zs" using d by (auto simp: is_dlist_def)
    obtain l' s' where p: "list_remove S l s k = Inr (l', s')" "is_dlist (im_get S s') l' (ys @ zs)"
        "relinked (im_get S s) (im_get S s') (set xs)" "\<exists>n. im_get S s' k = Some n \<and> detached n"
      using list_remove_member [OF slab_index_ok [OF ok], of s l ys k zs] d xs by blast
    have "queue_rep S s' l' (ys @ zs)"
      by (rule queue_rep_relinked [OF r p(2), of k])
        (use p xs in \<open>auto simp: insert_absorb\<close>)
    with p del show ?thesis using relinked_value_at by metis
  next
    case False
    then have "detached n" using r n by (auto simp: queue_rep_def)
    then obtain s' where s': "list_remove S l s k = Inr (l, s')" "im_get S s' = im_get S s"
      using list_remove_absent [OF slab_index_ok [OF ok] d n _ False] by blast
    then have "queue_rep S s' l xs" using r by (simp add: queue_rep_def)
    with s' value_at_same [OF s'(2)] False show ?thesis by simp
  qed
  then show ?thesis using list_remove_keeps [OF slab_set_keeps_capacity [OF ok]] by metis
qed

lemma queue_rep_alter:
  assumes r: "queue_rep S s l xs" and k: "value_at S s k = Some v"
  shows "\<exists>s'. alter_value S s k f = Inr s' \<and> queue_rep S s' l xs \<and>
    value_at S s' = (value_at S s)(k \<mapsto> f v) \<and> slab_capacity S s' = slab_capacity S s"
proof -
  have ok: "slab_ok S" and d: "is_dlist (im_get S s) l xs" using r by (simp_all add: queue_rep_def)
  obtain n where n: "im_get S s k = Some n" "nd_value n = v" using k by (auto simp: value_at_def)
  have "linked ((im_get S s)(k \<mapsto> n\<lparr>nd_value := w\<rparr>)) p ks q = linked (im_get S s) p ks q"
    for w p ks q
    using n(1) by (induction ks arbitrary: p) (auto split: option.splits)
  then show ?thesis
    using r d n slab_get_set [OF ok n(1)] slab_set_capacity [OF ok, of s k]
    by (auto simp: alter_value_def queue_rep_def is_dlist_def value_at_upd detached_def)
qed

lemma queue_rep_alloc:
  assumes "queue_rep S s l xs"
  shows "queue_rep S (alloc_node S s v) l xs"
    and "value_at S (alloc_node S s v) = (value_at S s)(vacant_key S s \<mapsto> v)"
proof -
  have ok: "slab_ok S" and d: "is_dlist (im_get S s) l xs"
    using assms by (simp_all add: queue_rep_def)
  have "vacant_key S s \<notin> set xs"
    using d slab_vacant [OF ok] by (fastforce simp: is_dlist_def dest: linked_present)
  then show "queue_rep S (alloc_node S s v) l xs"
    using assms by (auto simp: queue_rep_def alloc_node_def slab_get_insert is_dlist_def)
  show "value_at S (alloc_node S s v) = (value_at S s)(vacant_key S s \<mapsto> v)"
    by (simp add: alloc_node_def value_at_upd [OF slab_get_insert [OF ok]])
qed

lemma queue_rep_release:
  assumes r: "queue_rep S s l xs" and k: "value_at S s k = Some v" "k \<notin> set xs"
  shows "\<exists>s'. release_node S s k = Inr s' \<and> queue_rep S s' l xs \<and>
    value_at S s' = (value_at S s)(k := None) \<and> slab_capacity S s' = slab_capacity S s"
proof -
  have ok: "slab_ok S" and d: "is_dlist (im_get S s) l xs" using r by (simp_all add: queue_rep_def)
  obtain n where n: "im_get S s k = Some n" using k by (auto simp: value_at_def)
  then show ?thesis
    using r k(2) slab_get_remove [OF ok, of s k] slab_remove_capacity [OF ok, of s k]
    by (auto simp: release_node_def queue_rep_def is_dlist_def value_at_upd)
qed

text \<open>The same two facts on the operations themselves.\<close>

lemma value_at_Some_iff: "value_at S s k = Some v \<longleftrightarrow> (\<exists>n. im_get S s k = Some n \<and> nd_value n = v)"
  by (auto simp: value_at_def)

lemma queue_rep_put:
  assumes "queue_rep S s l xs" and "im_get S s k = Some n"
  shows "queue_rep S (im_set S s k (n\<lparr>nd_value := v\<rparr>)) l xs"
    and "value_at S (im_set S s k (n\<lparr>nd_value := v\<rparr>)) = (value_at S s)(k \<mapsto> v)"
    and "slab_capacity S (im_set S s k (n\<lparr>nd_value := v\<rparr>)) = slab_capacity S s"
  using queue_rep_alter [OF assms(1), of k "nd_value n" "\<lambda>_. v"] assms(2)
  by (auto simp: value_at_def alter_value_def)

lemma queue_rep_take:
  assumes "queue_rep S s l xs" and "im_get S s k = Some n" and "k \<notin> set xs"
  shows "queue_rep S (slab_remove S s k) l xs"
    and "value_at S (slab_remove S s k) = (value_at S s)(k := None)"
    and "slab_capacity S (slab_remove S s k) = slab_capacity S s"
  using queue_rep_release [OF assms(1), of k "nd_value n"] assms(2,3)
  by (auto simp: value_at_def release_node_def)

lemma dom_value_at: "dom (value_at S s) = dom (im_get S s)"
  by (auto simp: value_at_def dom_def)

interpretation run_queue: node_queue value_at slab_capacity l_head list_push_back list_remove
  queue_rep
proof
  fix S :: "('s, 'v node) slab_ops" and s l xs k v
  assume r: "queue_rep S s l xs"
  then have d: "is_dlist (im_get S s) l xs" by (simp add: queue_rep_def)
  show "distinct xs" "l_head l = first_or None xs" using d by (simp_all add: is_dlist_def)
  show "value_at S s k \<noteq> None" if "k \<in> set xs"
    using d that by (auto simp: is_dlist_def value_at_def dest: linked_present)
qed (fact queue_rep_push_back queue_rep_remove)+

interpretation task_pool: node_pool value_at slab_capacity l_head list_push_back list_remove
  queue_rep alter_value vacant_key alloc_node release_node slab_len
proof
  fix S :: "('s, 'v node) slab_ops" and s l xs k v and f :: "'v \<Rightarrow> 'v"
  assume r: "queue_rep S s l xs"
  then have ok: "slab_ok S" by (simp add: queue_rep_def)
  show "value_at S s (vacant_key S s) = None" by (simp add: value_at_def slab_vacant [OF ok])
  show "slab_len S s = card (dom (value_at S s)) \<and> finite (dom (value_at S s))"
    by (simp add: dom_value_at slab_len_card [OF ok] slab_finite [OF ok])
  show "vacant_key S s < slab_capacity S s" if "slab_len S s < slab_capacity S s"
    by (rule slab_vacant_bound [OF ok that])
  show "slab_capacity S (alloc_node S s v) = slab_capacity S s"
    if "slab_len S s < slab_capacity S s"
    unfolding alloc_node_def by (rule slab_insert_capacity [OF ok that])
  show "queue_rep S (alloc_node S s v) l xs \<and>
      value_at S (alloc_node S s v) = (value_at S s)(vacant_key S s \<mapsto> v)"
    using queue_rep_alloc [OF r] by blast
qed (fact queue_rep_alter queue_rep_release)+

subsection \<open>Any sequence of operations\<close>

text \<open>
  The operations as a client calls them, one after the other on one list: \<open>list_do\<close> runs the
  code, \<open>seq_do\<close> is the specification on the sequence, \<open>allowed\<close> the caller's obligation. A
  key is stored, is inserted only while it is in no list and after a key that is in this one;
  any stored key may be removed.
\<close>

datatype list_op = Insert "nat option" nat | Remove nat | Push_back nat | Pop_front

fun list_do :: "('s, 'v node) slab_ops \<Rightarrow> list_op \<Rightarrow> dlist \<Rightarrow> 's \<Rightarrow> (nat option \<times> dlist \<times> 's) res"
  where
  "list_do S (Insert after k) l s =
     and_then (list_insert S l s after k) (\<lambda>(l, s). Inr (None, l, s))"
| "list_do S (Remove k) l s = and_then (list_remove S l s k) (\<lambda>(l, s). Inr (None, l, s))"
| "list_do S (Push_back k) l s = and_then (list_push_back S l s k) (\<lambda>(l, s). Inr (None, l, s))"
| "list_do S Pop_front l s = list_pop_front S l s"

fun list_run :: "('s, 'v node) slab_ops \<Rightarrow> list_op list \<Rightarrow> dlist \<Rightarrow> 's \<Rightarrow>
    (nat option list \<times> dlist \<times> 's) res" where
  "list_run S [] l s = Inr ([], l, s)"
| "list_run S (p # ps) l s =
     and_then (list_do S p l s) (\<lambda>(out, l, s).
     and_then (list_run S ps l s) (\<lambda>(outs, l, s). Inr (out # outs, l, s)))"

fun insert_after :: "nat \<Rightarrow> nat \<Rightarrow> nat list \<Rightarrow> nat list" where
  "insert_after p k [] = []"
| "insert_after p k (x # xs) = (if x = p then x # k # xs else x # insert_after p k xs)"

fun seq_do :: "list_op \<Rightarrow> nat list \<Rightarrow> nat option \<times> nat list" where
  "seq_do (Insert None k) xs = (None, k # xs)"
| "seq_do (Insert (Some p) k) xs = (None, insert_after p k xs)"
| "seq_do (Remove k) xs = (None, removeAll k xs)"
| "seq_do (Push_back k) xs = (None, xs @ [k])"
| "seq_do Pop_front [] = (None, [])"
| "seq_do Pop_front (x # xs) = (Some x, xs)"

fun seq_run :: "list_op list \<Rightarrow> nat list \<Rightarrow> nat option list \<times> nat list" where
  "seq_run [] xs = ([], xs)"
| "seq_run (p # ps) xs =
     (let (out, xs) = seq_do p xs; (outs, xs) = seq_run ps xs in (out # outs, xs))"

fun allowed :: "nat set \<Rightarrow> nat list \<Rightarrow> list_op \<Rightarrow> bool" where
  "allowed K xs (Insert None k) \<longleftrightarrow> k \<in> K \<and> k \<notin> set xs"
| "allowed K xs (Insert (Some p) k) \<longleftrightarrow> k \<in> K \<and> k \<notin> set xs \<and> p \<in> set xs"
| "allowed K xs (Remove k) \<longleftrightarrow> k \<in> K"
| "allowed K xs (Push_back k) \<longleftrightarrow> k \<in> K \<and> k \<notin> set xs"
| "allowed K xs Pop_front \<longleftrightarrow> True"

fun all_allowed :: "nat set \<Rightarrow> nat list \<Rightarrow> list_op list \<Rightarrow> bool" where
  "all_allowed K xs [] \<longleftrightarrow> True"
| "all_allowed K xs (p # ps) \<longleftrightarrow> allowed K xs p \<and> all_allowed K (snd (seq_do p xs)) ps"

lemma insert_after_split: "p \<notin> set ys \<Longrightarrow> insert_after p k (ys @ p # zs) = ys @ p # k # zs"
  by (induction ys) auto

lemma queue_rep_insert:
  assumes r: "queue_rep S s l xs" and k: "value_at S s k = Some v" "k \<notin> set xs"
    and p: "after = None \<or> the after \<in> set xs"
  shows "\<exists>l' s'. list_insert S l s after k = Inr (l', s') \<and>
    queue_rep S s' l' (snd (seq_do (Insert after k) xs)) \<and> value_at S s' = value_at S s"
proof -
  have ok: "slab_ok S" and d: "is_dlist (im_get S s) l xs" using r by (simp_all add: queue_rep_def)
  obtain n where n: "im_get S s k = Some n" using k(1) by (auto simp: value_at_def)
  have "\<exists>l' s'. list_insert S l s after k = Inr (l', s') \<and>
      is_dlist (im_get S s') l' (snd (seq_do (Insert after k) xs)) \<and>
      relinked (im_get S s) (im_get S s') (insert k (set xs)) \<and>
      insert k (set xs) = set (snd (seq_do (Insert after k) xs))"
  proof (cases after)
    case None
    then show ?thesis using list_insert_front [OF slab_index_ok [OF ok] d n k(2)] by simp
  next
    case (Some q)
    with p obtain ys zs where xs: "xs = ys @ q # zs" "q \<notin> set ys"
      by (auto dest!: split_list_first)
    then have "snd (seq_do (Insert after k) xs) = ys @ q # k # zs"
      using Some by (simp add: insert_after_split)
    then show ?thesis
      using list_insert_after [OF slab_index_ok [OF ok], of s l ys q zs k n] d n k(2) xs Some
      by (simp add: insert_commute)
  qed
  then obtain l' s' where i: "list_insert S l s after k = Inr (l', s')"
      "is_dlist (im_get S s') l' (snd (seq_do (Insert after k) xs))"
      "relinked (im_get S s) (im_get S s') (insert k (set xs))"
      "insert k (set xs) = set (snd (seq_do (Insert after k) xs))" by blast
  have "queue_rep S s' l' (snd (seq_do (Insert after k) xs))"
    by (rule queue_rep_relinked [OF r i(2,3)]) (use i(4) in auto)
  with i(1) relinked_value_at [OF i(3)] show ?thesis by blast
qed

lemma queue_rep_pop:
  assumes r: "queue_rep S s l xs"
  shows "\<exists>l' s'. list_pop_front S l s = Inr (fst (seq_do Pop_front xs), l', s') \<and>
    queue_rep S s' l' (snd (seq_do Pop_front xs)) \<and> value_at S s' = value_at S s"
proof (cases xs)
  case Nil
  then show ?thesis using r list_pop_front_empty by (fastforce simp: queue_rep_def)
next
  case (Cons k ks)
  then have h: "l_head l = Some k" using run_queue.front_rep [OF r] by simp
  then show ?thesis
    using run_queue.remove_front [OF r h] Cons by (auto simp: list_pop_front_def)
qed

lemma list_do_refines:
  assumes r: "queue_rep S s l xs" and a: "allowed (dom (value_at S s)) xs p"
  shows "\<exists>l' s'. list_do S p l s = Inr (fst (seq_do p xs), l', s') \<and>
    queue_rep S s' l' (snd (seq_do p xs)) \<and> value_at S s' = value_at S s"
proof (cases p)
  case (Insert after k)
  then show ?thesis
    using a queue_rep_insert [OF r, of k _ after] by (cases after) auto
next
  case (Remove k)
  then show ?thesis using a run_queue.remove_rep [OF r, of k] by auto
next
  case (Push_back k)
  then show ?thesis using a run_queue.push_back_rep [OF r, of k] by auto
qed (use queue_rep_pop [OF r] in simp)

lemma list_run_simulates:
  assumes "queue_rep S s l xs" and "all_allowed (dom (value_at S s)) xs ps"
  shows "\<exists>l' s'. list_run S ps l s = Inr (fst (seq_run ps xs), l', s') \<and>
    queue_rep S s' l' (snd (seq_run ps xs)) \<and> value_at S s' = value_at S s"
  using assms
proof (induction ps arbitrary: l s xs)
  case (Cons p ps)
  obtain l1 s1 where one: "list_do S p l s = Inr (fst (seq_do p xs), l1, s1)"
      "queue_rep S s1 l1 (snd (seq_do p xs))" "value_at S s1 = value_at S s"
    using list_do_refines [OF Cons.prems(1), of p] Cons.prems(2) by auto
  with Cons.IH [OF one(2)] Cons.prems(2) show ?case
    by (auto simp: Let_def split: prod.splits)
qed auto

text \<open>
  C8. Every sequence of list operations a client may make runs without a panic, returns what
  the operations on sequences return, leaves a list that stands for the resulting sequence
  with every other node detached, and changes no stored value.
\<close>

theorem list_run_refines:
  assumes "queue_rep S s l xs" and "all_allowed (dom (value_at S s)) xs ps"
  shows "\<exists>l' s'. list_run S ps l s = Inr (fst (seq_run ps xs), l', s') \<and>
    queue_rep S s' l' (snd (seq_run ps xs)) \<and> value_at S s' = value_at S s"
  by (rule list_run_simulates [OF assms])

text \<open>A store of four nodes and the empty list, for the witnesses.\<close>

definition four_nodes :: "nat node vslab" where
  "four_nodes = \<lparr>slots = map (Some \<circ> node_new) [10, 11, 12, 13], reserved = 4\<rparr>"

lemma four_nodes_rep: "queue_rep vec_slab four_nodes list_default []"
  by (auto simp: queue_rep_def is_dlist_def list_default_def four_nodes_def vec_slab_get slot_def
      less_Suc_eq numeral_eq_Suc split: if_splits)

lemma four_nodes_dom: "dom (value_at vec_slab four_nodes) = {0, 1, 2, 3}"
  by (auto simp: value_at_def vec_slab_get four_nodes_def slot_def dom_def)

theorem list_run_refines_witness:
  "\<exists>l' s'. list_run vec_slab
      [Push_back 2, Insert None 0, Insert (Some 0) 3, Remove 0, Pop_front] list_default four_nodes =
    Inr ([None, None, None, None, Some 3], l', s') \<and> queue_rep vec_slab s' l' [2]"
  using list_run_refines [OF four_nodes_rep,
      of "[Push_back 2, Insert None 0, Insert (Some 0) 3, Remove 0, Pop_front]"]
  by (simp add: four_nodes_dom) blast

lemma seq_run_append:
  "seq_run (ps @ qs) xs =
     (let (outs, ys) = seq_run ps xs; (outs', zs) = seq_run qs ys in (outs @ outs', zs))"
  by (induction ps arbitrary: xs) (auto simp: Let_def split: prod.splits)

lemma seq_run_push: "seq_run (map Push_back ks) xs = (map (\<lambda>_. None) ks, xs @ ks)"
  by (induction ks arbitrary: xs) simp_all

lemma seq_run_pop: "seq_run (replicate (length xs) Pop_front) xs = (map Some xs, [])"
  by (induction xs) simp_all

lemma all_allowed_pop: "all_allowed K xs (replicate n Pop_front)"
  by (induction n arbitrary: xs) simp_all

lemma all_allowed_push:
  "set ks \<subseteq> K \<Longrightarrow> distinct ks \<Longrightarrow> set ks \<inter> set xs = {} \<Longrightarrow>
     all_allowed K xs (map Push_back ks @ replicate n Pop_front)"
  by (induction ks arbitrary: xs) (simp_all add: all_allowed_pop)

text \<open>
  C34. First in, first out: keys pushed to the back of a list and popped from its front again
  come out in the order they went in, behind those that were queued before.
\<close>

theorem list_fifo:
  assumes "queue_rep S s l xs" and "set ks \<subseteq> dom (value_at S s)" and "distinct ks"
    and "set ks \<inter> set xs = {}"
  shows "\<exists>s'. list_run S (map Push_back ks @ replicate (length xs + length ks) Pop_front) l s =
    Inr (map (\<lambda>_. None) ks @ map Some (xs @ ks), list_default, s') \<and>
    queue_rep S s' list_default []"
proof -
  let ?ps = "map Push_back ks @ replicate (length xs + length ks) Pop_front"
  have run: "seq_run ?ps xs = (map (\<lambda>_. None) ks @ map Some (xs @ ks), [])"
    using seq_run_pop [of "xs @ ks"] by (simp add: seq_run_append seq_run_push)
  obtain l' s' where "list_run S ?ps l s = Inr (fst (seq_run ?ps xs), l', s')"
      "queue_rep S s' l' (snd (seq_run ?ps xs))"
    using list_run_simulates [OF assms(1) all_allowed_push [OF assms(2-4)]] by blast
  moreover from this(2) have "l' = list_default"
    by (simp add: run queue_rep_def is_dlist_def list_default_def)
  ultimately show ?thesis by (simp add: run)
qed

theorem list_fifo_witness:
  "\<exists>s'. list_run vec_slab (map Push_back [3, 0, 2] @ replicate 3 Pop_front) list_default four_nodes =
    Inr ([None, None, None, Some 3, Some 0, Some 2], list_default, s')"
  using list_fifo [OF four_nodes_rep, of "[3, 0, 2]"]
  by (simp add: four_nodes_dom numeral_eq_Suc) blast

text \<open>
  C29. \<open>concat\<close> appends the other list, which is left empty, and touches no node outside the
  two lists: any third list over the same store stands for what it did before.
\<close>

theorem list_concat_appends:
  assumes "index_mut_ok I" and "is_dlist (im_get I s) l xs" and "is_dlist (im_get I s) other ys"
    and "is_dlist (im_get I s) third zs"
    and "set xs \<inter> set ys = {}" and "set zs \<inter> (set xs \<union> set ys) = {}"
  shows "\<exists>l' s' other'. list_concat I l s other = Inr (l', s', other') \<and>
    is_dlist (im_get I s') l' (xs @ ys) \<and> list_is_empty other' \<and>
    is_dlist (im_get I s') third zs \<and> same_values (im_get I s) (im_get I s')"
proof -
  obtain l' s' where c: "list_concat I l s other = Inr (l', s', list_default)"
      "is_dlist (im_get I s') l' (xs @ ys)"
      "relinked (im_get I s) (im_get I s') (set xs \<union> set ys)"
    using list_concat_refines [OF assms(1-3,5)] by blast
  moreover have "is_dlist (im_get I s') third zs"
    by (rule is_dlist_frame [OF assms(4) c(3)]) (use assms(6) in blast)
  ultimately show ?thesis by (auto simp: list_is_empty_def list_default_def relinked_def)
qed

theorem list_concat_appends_witness:
  "\<exists>l' s' other'. list_concat vec_slab \<lparr>l_head = Some 1, l_tail = Some 1\<rparr> four_nodes
      \<lparr>l_head = Some 3, l_tail = Some 3\<rparr> = Inr (l', s', other') \<and>
    is_dlist (im_get vec_slab s') l' [1, 3]"
proof -
  have one: "is_dlist (im_get vec_slab four_nodes) \<lparr>l_head = Some k, l_tail = Some k\<rparr> [k]"
    if "k < 4" for k
    using that
    by (auto simp: is_dlist_def vec_slab_get slot_def four_nodes_def node_new_def nth_map
        split: option.splits) (auto simp: numeral_eq_Suc less_Suc_eq)
  show ?thesis
    using list_concat_appends [OF slab_index_ok [OF vec_slab_ok] one [of 1] one [of 3] one [of 2]]
    by simp blast
qed

text \<open>
  C35. A list operation panics exactly when it is given a key the store does not hold, and then
  with the index panic of the store.
\<close>

theorem list_panics_iff_missing:
  assumes "queue_rep S s l xs"
  shows "(\<forall>k e. list_remove S l s k = Inl e \<longleftrightarrow> value_at S s k = None \<and> e = Index_panic) \<and>
    (\<forall>k e. k \<notin> set xs \<longrightarrow>
       (list_push_back S l s k = Inl e \<longleftrightarrow> value_at S s k = None \<and> e = Index_panic)) \<and>
    (\<forall>e. list_pop_front S l s \<noteq> Inl e)"
proof (intro conjI allI impI)
  fix k e
  show "list_remove S l s k = Inl e \<longleftrightarrow> value_at S s k = None \<and> e = Index_panic"
    using run_queue.remove_rep [OF assms, of k]
    by (cases "value_at S s k") (auto simp: list_remove_def value_at_def)
  show "list_push_back S l s k = Inl e \<longleftrightarrow> value_at S s k = None \<and> e = Index_panic"
    if "k \<notin> set xs"
  proof (cases "value_at S s k")
    case None
    have "index_mut_ok S" using assms by (simp add: queue_rep_def slab_index_ok)
    moreover have "\<exists>n. im_get S s p = Some n \<and> p \<noteq> k" if "l_tail l = Some p" for p
      using assms that None
      by (auto simp: queue_rep_def is_dlist_def value_at_def dest!: last_or_SomeD [OF sym])
        (auto simp: linked_append split: option.splits)
    ultimately show ?thesis
      using None by (cases "l_tail l")
        (auto simp: list_push_back_def list_insert_def value_at_def Let_def im_get_set)
  qed (use run_queue.push_back_rep [OF assms, of k] that in auto)
  show "list_pop_front S l s \<noteq> Inl e" using queue_rep_pop [OF assms] by auto
qed

theorem list_panics_iff_missing_witness:
  "list_remove vec_slab list_default four_nodes 7 = Inl Index_panic"
proof -
  have "7 \<notin> dom (value_at vec_slab four_nodes)" by (simp add: four_nodes_dom)
  then have "value_at vec_slab four_nodes 7 = None" by (simp add: domIff)
  with list_panics_iff_missing [OF four_nodes_rep] show ?thesis by blast
qed

end
