(* ===== verification/Waker.thy ===== *)
theory Waker
  imports Slab_Interface
begin

section \<open>Wakers (src/src/waker.rs)\<close>

text \<open>
  A \<open>std::task::Waker\<close> is a data pointer and a table of four functions. The table is the
  record \<open>raw_vtable\<close>: \<open>'d\<close> is the data pointer and \<open>'x\<close> the memory the functions work on.
  The pointer is an address in a memory of wakers or of reference-counted boxes, given as an
  \<open>index_mut\<close> dictionary \<open>M\<close>; a pointer to released memory gives \<open>Dangling\<close>, which stands for
  undefined behaviour. What a waker does when it wakes is a parameter: the trait method.
\<close>

record ('d, 'x) raw_vtable =
  vt_clone :: "'d \<Rightarrow> 'x \<Rightarrow> ('d \<times> 'x) res"
  vt_wake :: "'d \<Rightarrow> 'x \<Rightarrow> 'x res"
  vt_wake_by_ref :: "'d \<Rightarrow> 'x \<Rightarrow> 'x res"
  vt_drop :: "'d \<Rightarrow> 'x \<Rightarrow> 'x res"

definition deref :: "('x, 'a, 'z) index_mut_scheme \<Rightarrow> nat \<Rightarrow> 'x \<Rightarrow> 'a res" where
  "deref M ptr x = expect Dangling (im_get M x ptr)"

subsection \<open>Embedded wakers\<close>

record embed_waker =
  ew_refs :: usize
  ew_task_id :: nat

definition embed_waker_new :: "nat \<Rightarrow> embed_waker" where
  "embed_waker_new task_id = \<lparr>ew_refs = 1, ew_task_id = task_id\<rparr>"

definition ref_count :: "embed_waker \<Rightarrow> usize" where
  "ref_count w = ew_refs w"

definition embed_clone ::
  "('x, embed_waker, 'z) index_mut_scheme \<Rightarrow> nat \<Rightarrow> 'x \<Rightarrow> (nat \<times> 'x) res" where
  "embed_clone M ptr x =
     and_then (deref M ptr x) (\<lambda>s.
     Inr (ptr, im_set M x ptr (s\<lparr>ew_refs := ew_refs s + 1\<rparr>)))"

definition embed_wake_by_ref ::
  "('x, embed_waker, 'z) index_mut_scheme \<Rightarrow> (nat \<Rightarrow> 'x \<Rightarrow> 'x res) \<Rightarrow> nat \<Rightarrow> 'x \<Rightarrow> 'x res" where
  "embed_wake_by_ref M wake ptr x =
     and_then (deref M ptr x) (\<lambda>s. wake (ew_task_id s) x)"

definition embed_drop :: "('x, embed_waker, 'z) index_mut_scheme \<Rightarrow> nat \<Rightarrow> 'x \<Rightarrow> 'x res" where
  "embed_drop M ptr x =
     and_then (deref M ptr x) (\<lambda>s.
     let refs = ew_refs s in
     and_then (ensure Assert_panic (refs > 1)) (\<lambda>_.
     Inr (im_set M x ptr (s\<lparr>ew_refs := refs - 1\<rparr>))))"

definition embed_wake ::
  "('x, embed_waker, 'z) index_mut_scheme \<Rightarrow> (nat \<Rightarrow> 'x \<Rightarrow> 'x res) \<Rightarrow> nat \<Rightarrow> 'x \<Rightarrow> 'x res" where
  "embed_wake M wake ptr x =
     and_then (embed_wake_by_ref M wake ptr x) (embed_drop M ptr)"

text \<open>\<open>as_std\<close>: the waker of a poll, built in place and never dropped, counts as no reference.\<close>

definition embed_vtable ::
  "('x, embed_waker, 'z) index_mut_scheme \<Rightarrow> (nat \<Rightarrow> 'x \<Rightarrow> 'x res) \<Rightarrow> (nat, 'x) raw_vtable" where
  "embed_vtable M wake =
     \<lparr>vt_clone = embed_clone M, vt_wake = embed_wake M wake,
      vt_wake_by_ref = embed_wake_by_ref M wake, vt_drop = embed_drop M\<rparr>"

subsection \<open>Reference-counted boxes\<close>

text \<open>
  The part of \<open>std::rc::Rc\<close> and \<open>std::sync::Arc\<close> the wakers use. A box whose strong count is
  zero has been released; a \<open>Weak\<close> still reads that count.
\<close>

record 'a rc_box =
  rc_strong :: usize
  rc_value :: 'a

definition rc_deref :: "('x, 'a rc_box, 'z) index_mut_scheme \<Rightarrow> nat \<Rightarrow> 'x \<Rightarrow> 'a rc_box res" where
  "rc_deref M ptr x =
     and_then (deref M ptr x) (\<lambda>b. if rc_strong b = 0 then Inl Dangling else Inr b)"

definition rc_clone :: "('x, 'a rc_box, 'z) index_mut_scheme \<Rightarrow> nat \<Rightarrow> 'x \<Rightarrow> 'x res" where
  "rc_clone M ptr x =
     and_then (rc_deref M ptr x) (\<lambda>b.
     Inr (im_set M x ptr (b\<lparr>rc_strong := rc_strong b + 1\<rparr>)))"

definition rc_drop :: "('x, 'a rc_box, 'z) index_mut_scheme \<Rightarrow> nat \<Rightarrow> 'x \<Rightarrow> 'x res" where
  "rc_drop M ptr x =
     and_then (rc_deref M ptr x) (\<lambda>b.
     Inr (im_set M x ptr (b\<lparr>rc_strong := rc_strong b - 1\<rparr>)))"

definition weak_strong_count :: "('x, 'a rc_box, 'z) index_mut_scheme \<Rightarrow> nat \<Rightarrow> 'x \<Rightarrow> usize" where
  "weak_strong_count M ptr x =
     (case im_get M x ptr of None \<Rightarrow> 0 | Some b \<Rightarrow> rc_strong b)"

text \<open>
  The traits \<open>LocalWake\<close>, \<open>CheckedLocalWake\<close> and \<open>Wake\<close>: \<open>wake\<close> consumes its \<open>Rc\<close>,
  \<open>wake_by_ref\<close> borrows it and by default clones it and wakes the clone. One record stands for
  \<open>LocalWake\<close> and \<open>CheckedLocalWake\<close>, which extends it by the thread it belongs to: the only type
  that implements one implements both. Counts are words and wrap around, where the standard
  library aborts the process when a count overflows.
\<close>

record ('a, 'x) local_wake =
  lw_wake :: "nat \<Rightarrow> 'x \<Rightarrow> 'x res"
  lw_wake_by_ref :: "nat \<Rightarrow> 'x \<Rightarrow> 'x res"
  lw_thread_id :: "'a \<Rightarrow> nat"

definition default_wake_by_ref ::
  "('x, 'a rc_box, 'z) index_mut_scheme \<Rightarrow> (nat \<Rightarrow> 'x \<Rightarrow> 'x res) \<Rightarrow> nat \<Rightarrow> 'x \<Rightarrow> 'x res" where
  "default_wake_by_ref M wake ptr x = and_then (rc_clone M ptr x) (wake ptr)"

subsection \<open>Rc-based wakers\<close>

definition raw_waker ::
  "('x, 'a rc_box, 'z) index_mut_scheme \<Rightarrow> ('a, 'x) local_wake \<Rightarrow> (nat, 'x) raw_vtable" where
  "raw_waker M W =
     \<lparr>vt_clone = (\<lambda>ptr x. and_then (rc_clone M ptr x) (\<lambda>x. Inr (ptr, x))),
      vt_wake = (\<lambda>ptr x. and_then (rc_deref M ptr x) (\<lambda>_. lw_wake W ptr x)),
      vt_wake_by_ref = (\<lambda>ptr x. and_then (rc_deref M ptr x) (\<lambda>_. lw_wake_by_ref W ptr x)),
      vt_drop = rc_drop M\<rparr>"

definition is_current_thread :: "nat \<Rightarrow> nat \<Rightarrow> bool" where
  "is_current_thread current tid \<longleftrightarrow> tid = current"

definition check_thread ::
  "('x, 'a rc_box, 'z) index_mut_scheme \<Rightarrow> ('a, 'x) local_wake \<Rightarrow> nat \<Rightarrow> nat \<Rightarrow> 'x \<Rightarrow> unit res" where
  "check_thread M W current ptr x =
     and_then (rc_deref M ptr x) (\<lambda>b.
     if \<not> is_current_thread current (lw_thread_id W (rc_value b)) then Inl Thread_panic
     else Inr ())"

definition checked_raw_waker ::
  "('x, 'a rc_box, 'z) index_mut_scheme \<Rightarrow> ('a, 'x) local_wake \<Rightarrow> nat \<Rightarrow> (nat, 'x) raw_vtable" where
  "checked_raw_waker M W current =
     \<lparr>vt_clone = (\<lambda>ptr x.
        and_then (check_thread M W current ptr x) (\<lambda>_.
        and_then (rc_clone M ptr x) (\<lambda>x. Inr (ptr, x)))),
      vt_wake = (\<lambda>ptr x.
        and_then (check_thread M W current ptr x) (\<lambda>_. lw_wake W ptr x)),
      vt_wake_by_ref = (\<lambda>ptr x.
        and_then (check_thread M W current ptr x) (\<lambda>_. lw_wake_by_ref W ptr x)),
      vt_drop = (\<lambda>ptr x.
        and_then (check_thread M W current ptr x) (\<lambda>_. rc_drop M ptr x))\<rparr>"

subsection \<open>The waker factories\<close>

text \<open>
  A factory moves the inner value into a fresh box with strong count 1, which the returned
  waker owns, and returns a function that reads the count through a weak reference. The box
  is placed at the address \<open>ptr\<close> the allocator chose. The Arc-based waker is the one the
  standard library builds from an \<open>Arc<impl Wake>\<close>, with the same table of functions.
\<close>

definition rc_new :: "'a \<Rightarrow> 'a rc_box" where
  "rc_new v = \<lparr>rc_strong = 1, rc_value = v\<rparr>"

datatype waker_factory = Rc_waker_factory | Checked_rc_waker_factory | Arc_waker_factory

definition factory_vtable ::
  "waker_factory \<Rightarrow> ('x, 'a rc_box, 'z) index_mut_scheme \<Rightarrow> ('a, 'x) local_wake \<Rightarrow> nat \<Rightarrow>
     (nat, 'x) raw_vtable" where
  "factory_vtable f M W current =
     (case f of
        Rc_waker_factory \<Rightarrow> raw_waker M W
      | Checked_rc_waker_factory \<Rightarrow> checked_raw_waker M W current
      | Arc_waker_factory \<Rightarrow> raw_waker M W)"

definition new_waker ::
  "('x, 'a rc_box, 'z) index_mut_scheme \<Rightarrow> (nat \<Rightarrow> 'a rc_box \<Rightarrow> 'x \<Rightarrow> 'x) \<Rightarrow> nat \<Rightarrow> 'a \<Rightarrow> 'x \<Rightarrow>
     nat \<times> ('x \<Rightarrow> usize) \<times> 'x" where
  "new_waker M place ptr inner x =
     (ptr, weak_strong_count M ptr, place ptr (rc_new inner) x)"

subsection \<open>The contract of a waker\<close>

text \<open>
  What the reactor and the executors rely on: a live waker has a number of references
  \<open>refs\<close>; cloning adds one, dropping takes one away, waking by reference notifies the task
  and changes no count, waking by value notifies and takes one away. \<open>live\<close> includes that
  the memory is lawful and that notifying keeps every count.
\<close>

datatype waker_use = Use_clone | Use_ref | Use_wake | Use_drop

fun waker_uses :: "(nat, 'x) raw_vtable \<Rightarrow> nat \<Rightarrow> waker_use list \<Rightarrow> 'x \<Rightarrow> 'x res" where
  "waker_uses vt p [] x = Inr x"
| "waker_uses vt p (Use_clone # us) x =
     and_then (vt_clone vt p x) (\<lambda>(_, x). waker_uses vt p us x)"
| "waker_uses vt p (Use_ref # us) x = and_then (vt_wake_by_ref vt p x) (waker_uses vt p us)"
| "waker_uses vt p (Use_wake # us) x = and_then (vt_wake vt p x) (waker_uses vt p us)"
| "waker_uses vt p (Use_drop # us) x = and_then (vt_drop vt p x) (waker_uses vt p us)"

fun uses_count :: "nat \<Rightarrow> waker_use list \<Rightarrow> nat" where
  "uses_count r [] = r"
| "uses_count r (Use_clone # us) = uses_count (Suc r) us"
| "uses_count r (Use_ref # us) = uses_count r us"
| "uses_count r (Use_wake # us) = uses_count (r - 1) us"
| "uses_count r (Use_drop # us) = uses_count (r - 1) us"

fun uses_within :: "nat \<Rightarrow> waker_use list \<Rightarrow> bool" where
  "uses_within r [] \<longleftrightarrow> True"
| "uses_within r (Use_clone # us) \<longleftrightarrow> Suc r < 2 ^ 64 \<and> uses_within (Suc r) us"
| "uses_within r (Use_ref # us) \<longleftrightarrow> uses_within r us"
| "uses_within r (Use_wake # us) \<longleftrightarrow> 1 < r \<and> uses_within (r - 1) us"
| "uses_within r (Use_drop # us) \<longleftrightarrow> 1 < r \<and> uses_within (r - 1) us"

locale waker_contract =
  fixes vt :: "'o \<Rightarrow> (nat, 'x) raw_vtable"
    and live :: "'o \<Rightarrow> 'x \<Rightarrow> nat \<Rightarrow> bool"
    and refs :: "'o \<Rightarrow> 'x \<Rightarrow> nat \<Rightarrow> usize"
    and notify :: "'o \<Rightarrow> nat \<Rightarrow> 'x \<Rightarrow> 'x res"
  assumes clone_adds:
      "live V x p \<Longrightarrow> refs V x p \<noteq> -1 \<Longrightarrow>
         \<exists>x'. vt_clone (vt V) p x = Inr (p, x') \<and> live V x' p \<and>
         refs V x' = (refs V x)(p := refs V x p + 1)"
    and drop_takes:
      "live V x p \<Longrightarrow> 1 < refs V x p \<Longrightarrow> \<exists>x'. vt_drop (vt V) p x = Inr x' \<and> live V x' p \<and>
         refs V x' = (refs V x)(p := refs V x p - 1)"
    and wake_ref_notifies:
      "live V x p \<Longrightarrow> vt_wake_by_ref (vt V) p x = notify V p x"
    and wake_notifies:
      "live V x p \<Longrightarrow> vt_wake (vt V) p x = and_then (notify V p x) (vt_drop (vt V) p)"
    and notify_keeps:
      "live V x p \<Longrightarrow> notify V p x = Inr x' \<Longrightarrow> live V x' p \<and> refs V x' = refs V x"
begin

text \<open>A clone that is dropped again leaves the count as it was.\<close>

lemma clone_drop:
  assumes "live V x p" and "0 < refs V x p" and "refs V x p \<noteq> -1"
  shows "\<exists>x1 x2. vt_clone (vt V) p x = Inr (p, x1) \<and> vt_drop (vt V) p x1 = Inr x2 \<and>
    live V x2 p \<and> refs V x2 = refs V x"
proof -
  obtain x1 where c: "vt_clone (vt V) p x = Inr (p, x1)" "live V x1 p"
      "refs V x1 = (refs V x)(p := refs V x p + 1)"
    using clone_adds [OF assms(1,3)] by blast
  have "1 < refs V x1 p"
    using usize_succ_gt1 [OF assms(2,3)] c(3) by simp
  from drop_takes [OF c(2) this] c show ?thesis by auto
qed

text \<open>A clone that is woken and so consumed leaves the count as it was.\<close>

lemma clone_wake:
  assumes "live V x p" and "0 < refs V x p" and "refs V x p \<noteq> -1"
    and "\<And>x1. live V x1 p \<Longrightarrow> \<exists>x2. notify V p x1 = Inr x2"
  shows "\<exists>x1 x2. vt_clone (vt V) p x = Inr (p, x1) \<and> vt_wake (vt V) p x1 = Inr x2 \<and>
    live V x2 p \<and> refs V x2 = refs V x"
proof -
  obtain x1 where c: "vt_clone (vt V) p x = Inr (p, x1)" "live V x1 p"
      "refs V x1 = (refs V x)(p := refs V x p + 1)"
    using clone_adds [OF assms(1,3)] by blast
  obtain x2 where n: "notify V p x1 = Inr x2" using assms(4) [OF c(2)] by blast
  have l2: "live V x2 p" "refs V x2 = refs V x1" using notify_keeps [OF c(2) n] by auto
  have "1 < refs V x2 p"
    using usize_succ_gt1 [OF assms(2,3)] c(3) l2(2) by simp
  from drop_takes [OF l2(1) this] c n l2 wake_notifies [OF c(2)] show ?thesis by auto
qed

text \<open>
  Any sequence of uses of a waker: the count goes up by the clones and down by the drops and
  the wakes by value, as long as it stays positive and does not wrap, and all notifications
  succeed.
\<close>

lemma uses_balance:
  assumes "live V x p" and "0 < unat (refs V x p)" and "uses_within (unat (refs V x p)) us"
    and ok: "\<And>x1. live V x1 p \<Longrightarrow> \<exists>x2. notify V p x1 = Inr x2"
  shows "\<exists>x'. waker_uses (vt V) p us x = Inr x' \<and> live V x' p \<and>
    unat (refs V x' p) = uses_count (unat (refs V x p)) us"
  using assms(1-3)
proof (induction us arbitrary: x)
  case (Cons u us)
  obtain x1 where n: "notify V p x = Inr x1" using ok [OF Cons.prems(1)] by blast
  note l1 = notify_keeps [OF Cons.prems(1) n]
  have pred: "unat (r - 1) = unat r - 1" if "1 < r" for r :: usize
    using that by (metis unat_minus_one word_less_nat_alt unat_0 not_less_zero)
  show ?case
  proof (cases u)
    case Use_clone
    have "refs V x p \<noteq> -1"
      using Cons.prems(3) Use_clone by (intro usize_below_max) simp
    with clone_adds [OF Cons.prems(1)] obtain x2 where c: "vt_clone (vt V) p x = Inr (p, x2)"
        "live V x2 p" "unat (refs V x2 p) = Suc (unat (refs V x p))"
      by (auto simp: usize_succ_unat)
    with Cons.IH [OF c(2)] Cons.prems Use_clone show ?thesis by simp
  next
    case Use_ref
    with Cons.IH [of x1] Cons.prems l1 n wake_ref_notifies [OF Cons.prems(1)] show ?thesis by simp
  next
    case Use_wake
    then have gt: "1 < refs V x p" using Cons.prems(3) by (simp add: word_less_nat_alt)
    with drop_takes [of V x1 p] l1 obtain x2 where d: "vt_drop (vt V) p x1 = Inr x2"
        "live V x2 p" "refs V x2 p = refs V x p - 1" by auto
    with Cons.IH [OF d(2)] Cons.prems Use_wake n wake_notifies [OF Cons.prems(1)] pred [OF gt]
    show ?thesis by simp
  next
    case Use_drop
    then have gt: "1 < refs V x p" using Cons.prems(3) by (simp add: word_less_nat_alt)
    with drop_takes [OF Cons.prems(1)] obtain x2 where d: "vt_drop (vt V) p x = Inr x2"
        "live V x2 p" "refs V x2 p = refs V x p - 1" by auto
    with Cons.IH [OF d(2)] Cons.prems Use_drop pred [OF gt] show ?thesis by simp
  qed
qed simp

end

text \<open>An embedded waker meets the contract when waking a task keeps every waker.\<close>

definition embed_refs :: "('x, embed_waker, 'z) index_mut_scheme \<Rightarrow> 'x \<Rightarrow> nat \<Rightarrow> usize" where
  "embed_refs M x p = (case im_get M x p of None \<Rightarrow> 0 | Some w \<Rightarrow> ew_refs w)"

definition embed_live ::
  "('x, embed_waker, 'z) index_mut_scheme \<times> (nat \<Rightarrow> 'x \<Rightarrow> 'x res) \<Rightarrow> 'x \<Rightarrow> nat \<Rightarrow> bool" where
  "embed_live V x p \<longleftrightarrow>
     index_mut_ok (fst V) \<and> im_get (fst V) x p \<noteq> None \<and>
     (\<forall>k y y'. snd V k y = Inr y' \<longrightarrow> im_get (fst V) y' = im_get (fst V) y)"

definition embed_notify ::
  "('x, embed_waker, 'z) index_mut_scheme \<times> (nat \<Rightarrow> 'x \<Rightarrow> 'x res) \<Rightarrow> nat \<Rightarrow> 'x \<Rightarrow> 'x res" where
  "embed_notify V p x = and_then (deref (fst V) p x) (\<lambda>s. snd V (ew_task_id s) x)"

interpretation embedded: waker_contract
  "\<lambda>V. embed_vtable (fst V) (snd V)" embed_live "\<lambda>V. embed_refs (fst V)" embed_notify
proof unfold_locales
  fix V :: "('a, embed_waker, 'z) index_mut_scheme \<times> (nat \<Rightarrow> 'a \<Rightarrow> 'a res)"
    and x x' :: 'a and p :: nat
  assume l: "embed_live V x p"
  then obtain w where w: "im_get (fst V) x p = Some w" by (auto simp: embed_live_def)
  have set: "im_get (fst V) (im_set (fst V) x p v) = (im_get (fst V) x)(p \<mapsto> v)" for v
    using l w by (simp add: embed_live_def im_get_set)
  have live: "embed_live V (im_set (fst V) x p v) p" for v
    using l by (simp add: embed_live_def set)
  show "\<exists>x'. vt_clone (embed_vtable (fst V) (snd V)) p x = Inr (p, x') \<and> embed_live V x' p \<and>
      embed_refs (fst V) x' = (embed_refs (fst V) x)(p := embed_refs (fst V) x p + 1)"
    by (auto simp: embed_vtable_def embed_clone_def deref_def w live set embed_refs_def)
  show "\<exists>x'. vt_drop (embed_vtable (fst V) (snd V)) p x = Inr x' \<and> embed_live V x' p \<and>
      embed_refs (fst V) x' = (embed_refs (fst V) x)(p := embed_refs (fst V) x p - 1)"
    if "1 < embed_refs (fst V) x p"
    using that
    by (auto simp: embed_vtable_def embed_drop_def deref_def w live set embed_refs_def Let_def)
  show "vt_wake_by_ref (embed_vtable (fst V) (snd V)) p x = embed_notify V p x"
    by (simp add: embed_vtable_def embed_wake_by_ref_def embed_notify_def)
  show "vt_wake (embed_vtable (fst V) (snd V)) p x =
      and_then (embed_notify V p x) (vt_drop (embed_vtable (fst V) (snd V)) p)"
    by (simp add: embed_vtable_def embed_wake_def embed_wake_by_ref_def embed_notify_def)
  show "embed_live V x' p \<and> embed_refs (fst V) x' = embed_refs (fst V) x"
    if "embed_notify V p x = Inr x'"
  proof -
    have "im_get (fst V) x' = im_get (fst V) x"
      using that l w by (auto simp: embed_notify_def deref_def embed_live_def)
    then show ?thesis using l by (auto simp: embed_live_def embed_refs_def fun_eq_iff)
  qed
qed

text \<open>
  C31. From a new waker on, whatever uses are made of it and its clones, the count of an
  embedded waker is one plus the clones less the drops and the wakes by value, and no use
  panics, as long as the waker itself is not dropped and waking tasks succeeds.
\<close>

theorem embed_waker_counts:
  assumes "index_mut_ok M" and "im_get M x p = Some (embed_waker_new k)"
    and "\<And>j y. \<exists>y'. wake j y = Inr y' \<and> im_get M y' = im_get M y"
    and "uses_within 1 us"
  shows "\<exists>x' w. waker_uses (embed_vtable M wake) p us x = Inr x' \<and> im_get M x' p = Some w \<and>
    unat (ref_count w) = uses_count 1 us"
proof -
  have keep: "im_get M y' = im_get M y" if "wake j y = Inr y'" for j y y'
    using assms(3) [of j y] that by auto
  have live: "embed_live (M, wake) x p"
    using assms(1,2) keep by (auto simp: embed_live_def)
  have one: "unat (embed_refs M x p) = 1"
    using assms(2) by (simp add: embed_refs_def embed_waker_new_def)
  have notify: "\<exists>x2. embed_notify (M, wake) p x1 = Inr x2" if "embed_live (M, wake) x1 p" for x1
  proof -
    obtain w where "im_get M x1 p = Some w" using \<open>embed_live (M, wake) x1 p\<close> by (auto simp: embed_live_def)
    then show ?thesis using assms(3) [of "ew_task_id w" x1] by (auto simp: embed_notify_def deref_def)
  qed
  obtain x' where "waker_uses (embed_vtable M wake) p us x = Inr x'" "embed_live (M, wake) x' p"
      "unat (embed_refs M x' p) = uses_count 1 us"
    using embedded.uses_balance [OF live _ _ notify, of us] one assms(4) by auto
  then show ?thesis by (auto simp: embed_live_def embed_refs_def ref_count_def)
qed

theorem embed_waker_counts_witness:
  "\<exists>x'. waker_uses (embed_vtable map_store (\<lambda>_ y. Inr y)) 0 [Use_clone, Use_clone, Use_wake, Use_ref]
      (Map.empty(0 \<mapsto> embed_waker_new 5)) = Inr x' \<and> unat (ref_count (the (x' 0))) = 2"
  using embed_waker_counts [of map_store "Map.empty(0 \<mapsto> embed_waker_new 5)" 0 5 "\<lambda>_ y. Inr y"
      "[Use_clone, Use_clone, Use_wake, Use_ref]"] by force

text \<open>
  Dropping an embedded waker whose count is one fails the assertion: the reference the task
  itself holds is never given up through the waker.
\<close>

lemma embed_drop_asserts:
  assumes "im_get M x p = Some w"
  shows "(vt_drop (embed_vtable M wake) p x = Inl Assert_panic \<longleftrightarrow> ew_refs w \<le> 1) \<and>
    (\<forall>x'. vt_drop (embed_vtable M wake) p x = Inr x' \<longleftrightarrow>
       1 < ew_refs w \<and> x' = im_set M x p (w\<lparr>ew_refs := ew_refs w - 1\<rparr>))"
  using assms by (cases "1 < ew_refs w") (auto simp: embed_vtable_def embed_drop_def deref_def Let_def)

end
