(* ===== verification/Task_Queue.thy ===== *)
theory Task_Queue
  imports Intrusive_List Waker
begin

section \<open>The run queue of the executors (src/src/executor.rs)\<close>

text \<open>
  The modules \<open>arg\<close>, \<open>bx\<close> and \<open>boxrc\<close> each have their own \<open>Task\<close> and repeat the same handling
  of its \<open>awake\<close> flag, of the slab \<open>nodes\<close> and of the list \<open>next\<close> of the tasks to poll. What
  they repeat is defined here once over the two functions \<open>task_ops\<close> that read and write the
  flag of a module's \<open>Task\<close>.

  The invariant \<open>queue_ok\<close> is shared too: a task is awake exactly when it is queued, and the
  keys stay below the capacity. It is what makes a wakeup neither lost nor doubled.
\<close>

record 'v task_ops =
  awake_of :: "'v \<Rightarrow> bool"
  set_awake :: "bool \<Rightarrow> 'v \<Rightarrow> 'v"

subsection \<open>The operations\<close>

definition wake_nodes ::
  "'v task_ops \<Rightarrow> ('s, 'v node) slab_ops \<Rightarrow> nat \<Rightarrow> dlist \<Rightarrow> 's \<Rightarrow> (dlist \<times> 's) res" where
  "wake_nodes T S task_id nxt nodes =
     and_then (index_at S nodes task_id) (\<lambda>n.
     let task = nd_value n in
     if \<not> awake_of T task then
       let nodes = im_set S nodes task_id (n\<lparr>nd_value := set_awake T True task\<rparr>) in
       and_then (list_remove S nxt nodes task_id) (\<lambda>(nxt, nodes).
       list_push_back S nxt nodes task_id)
     else Inr (nxt, nodes))"

definition add_nodes ::
  "('s, 'v node) slab_ops \<Rightarrow> (nat \<Rightarrow> 'v) \<Rightarrow> dlist \<Rightarrow> 's \<Rightarrow> (nat \<times> dlist \<times> 's) option res" where
  "add_nodes S new_task nxt nodes =
     (if slab_len S nodes = slab_capacity S nodes then Inr None
      else
        let key = vacant_key S nodes;
            task = new_task key;
            nodes = slab_insert S nodes (node_new task)
        in
        and_then (list_push_back S nxt nodes key) (\<lambda>(nxt, nodes).
        Inr (Some (key, nxt, nodes))))"

definition take_next ::
  "'v task_ops \<Rightarrow> ('s, 'v node) slab_ops \<Rightarrow> dlist \<Rightarrow> 's \<Rightarrow> (nat \<times> dlist \<times> 's) option res" where
  "take_next T S nxt nodes =
     (case l_head nxt of
        None \<Rightarrow> Inr None
      | Some nkey \<Rightarrow>
          and_then (list_remove S nxt nodes nkey) (\<lambda>(nxt, nodes).
          and_then (modify_at S nodes nkey (\<lambda>n. n\<lparr>nd_value := set_awake T False (nd_value n)\<rparr>)) (\<lambda>nodes.
          Inr (Some (nkey, nxt, nodes)))))"

definition free_nodes ::
  "('s, 'v node) slab_ops \<Rightarrow> nat \<Rightarrow> dlist \<Rightarrow> 's \<Rightarrow> (dlist \<times> 's) res" where
  "free_nodes S nkey nxt nodes =
     and_then (list_remove S nxt nodes nkey) (\<lambda>(nxt, nodes).
     and_then (slab_take S nodes nkey) (\<lambda>(_, nodes).
     Inr (nxt, nodes)))"

subsection \<open>The scheduler they implement\<close>

text \<open>The queue as a sequence of task ids: waking an awake task does nothing.\<close>

definition sched_wake :: "nat \<Rightarrow> nat list \<Rightarrow> nat list" where
  "sched_wake k xs = (if k \<in> set xs then xs else xs @ [k])"

lemma sched_wake_set [simp]: "set (sched_wake k xs) = insert k (set xs)"
  by (auto simp: sched_wake_def)

lemma sched_wake_appends: "\<exists>zs. sched_wake k xs = xs @ zs"
  by (simp add: sched_wake_def)

lemma sched_wake_twice [simp]: "sched_wake k (sched_wake k xs) = sched_wake k xs"
  by (simp add: sched_wake_def)

definition queue_ok ::
  "'v task_ops \<Rightarrow> ('s, 'v node) slab_ops \<Rightarrow> nat \<Rightarrow> dlist \<Rightarrow> 's \<Rightarrow> nat list \<Rightarrow> bool" where
  "queue_ok T S cap nxt nodes xs \<longleftrightarrow>
     queue_rep S nodes nxt xs \<and> slab_capacity S nodes = cap \<and>
     (\<forall>k v. value_at S nodes k = Some v \<longrightarrow> (awake_of T v \<longleftrightarrow> k \<in> set xs) \<and> k < cap)"

lemma queue_ok_rep: "queue_ok T S cap nxt nodes xs \<Longrightarrow> queue_rep S nodes nxt xs"
  by (simp add: queue_ok_def)

lemma queue_ok_slab: "queue_ok T S cap nxt nodes xs \<Longrightarrow> slab_ok S"
  by (simp add: queue_ok_def queue_rep_def)

lemma queue_ok_new:
  "slab_ok S \<Longrightarrow> queue_ok T S cap list_default (with_capacity S cap) []"
  by (auto simp: queue_ok_def queue_rep_def is_dlist_def list_default_def slab_new value_at_def
      slab_new_capacity)

lemma queue_ok_member:
  "queue_ok T S cap nxt nodes xs \<Longrightarrow> k \<in> set xs \<Longrightarrow> \<exists>v. value_at S nodes k = Some v"
  using run_queue.rep_present queue_ok_rep by fastforce

lemma queue_ok_len:
  assumes "queue_ok T S cap nxt nodes xs"
  shows "slab_len S nodes \<le> cap"
proof -
  have "dom (value_at S nodes) \<subseteq> {..<cap}" using assms by (auto simp: queue_ok_def)
  from card_mono [OF _ this] task_pool.used_view [OF queue_ok_rep [OF assms]] show ?thesis by simp
qed

lemma queue_ok_empty_iff:
  "queue_ok T S cap nxt nodes xs \<Longrightarrow> slab_empty S nodes \<longleftrightarrow> value_at S nodes = Map.empty"
  by (simp add: slab_empty_def task_pool.used_empty [OF queue_ok_rep])

subsection \<open>What every \<open>Task\<close> provides, and what follows\<close>

locale task_flag =
  fixes T :: "'v task_ops"
  assumes awake_set: "awake_of T (set_awake T b v) = b"
begin

lemma wake_ok:
  assumes q: "queue_ok T S cap nxt nodes xs" and k: "value_at S nodes k = Some v"
  shows "\<exists>nxt' nodes'. wake_nodes T S k nxt nodes = Inr (nxt', nodes') \<and>
    queue_ok T S cap nxt' nodes' (sched_wake k xs) \<and>
    value_at S nodes' = (value_at S nodes)(k \<mapsto> (if awake_of T v then v else set_awake T True v))"
proof (cases "awake_of T v")
  case True
  then have "k \<in> set xs" using q k by (simp add: queue_ok_def)
  with True q k show ?thesis
    by (auto simp: wake_nodes_def sched_wake_def value_at_Some_iff fun_upd_idem)
next
  case False
  then have nk: "k \<notin> set xs" using q k by (simp add: queue_ok_def)
  obtain n where n: "im_get S nodes k = Some n" "nd_value n = v"
    using k by (auto simp: value_at_Some_iff)
  let ?nodes = "im_set S nodes k (n\<lparr>nd_value := set_awake T True v\<rparr>)"
  note put = queue_rep_put [OF queue_ok_rep [OF q] n(1), of "set_awake T True v"]
  obtain l1 s1 l2 s2 where r: "list_remove S nxt ?nodes k = Inr (l1, s1)"
      "list_push_back S l1 s1 k = Inr (l2, s2)" "queue_rep S s2 l2 (removeAll k xs @ [k])"
      "value_at S s2 = value_at S ?nodes" "slab_capacity S s2 = slab_capacity S ?nodes"
    using run_queue.requeue [OF put(1), of k "set_awake T True v"] put(2) by auto
  have "queue_ok T S cap l2 s2 (xs @ [k])"
    unfolding queue_ok_def r(4) put(2)
  proof (intro conjI allI impI)
    show "queue_rep S s2 l2 (xs @ [k])" using r(3) nk by simp
    show "slab_capacity S s2 = cap" using r(5) put(3) q by (simp add: queue_ok_def)
    fix j u assume "((value_at S nodes)(k \<mapsto> set_awake T True v)) j = Some u"
    then show "awake_of T u \<longleftrightarrow> j \<in> set (xs @ [k])" "j < cap"
      using q k by (auto simp: queue_ok_def awake_set split: if_splits)
  qed
  then show ?thesis
    using r(1,2,4) n nk False put(2) by (simp add: wake_nodes_def sched_wake_def Let_def)
qed

lemma add_ok:
  assumes q: "queue_ok T S cap nxt nodes xs" and aw: "\<And>k. awake_of T (new_task k)"
    and room: "slab_len S nodes < cap"
  shows "\<exists>k nxt' nodes'. add_nodes S new_task nxt nodes = Inr (Some (k, nxt', nodes')) \<and>
    value_at S nodes k = None \<and> k < cap \<and> queue_ok T S cap nxt' nodes' (xs @ [k]) \<and>
    value_at S nodes' = (value_at S nodes)(k \<mapsto> new_task k)"
proof -
  let ?k = "vacant_key S nodes"
  note rep = queue_ok_rep [OF q]
  have c: "slab_capacity S nodes = cap" using q by (simp add: queue_ok_def)
  obtain l' s' where p: "list_push_back S nxt (alloc_node S nodes (new_task ?k)) ?k = Inr (l', s')"
      "queue_rep S s' l' (xs @ [?k])" "value_at S s' = (value_at S nodes)(?k \<mapsto> new_task ?k)"
      "slab_capacity S s' = cap"
    using task_pool.alloc_push [OF rep, of "new_task ?k"] c room by auto
  have k: "value_at S nodes ?k = None" "?k < cap"
    using task_pool.fresh_rep [OF rep] task_pool.fresh_room [OF rep] c room by simp_all
  have "?k \<notin> set xs" using run_queue.rep_present [OF rep] k(1) by blast
  then have "queue_ok T S cap l' s' (xs @ [?k])"
    using p q k aw by (auto simp: queue_ok_def split: if_splits)
  moreover have "add_nodes S new_task nxt nodes = Inr (Some (?k, l', s'))"
    using p(1) c room by (simp add: add_nodes_def Let_def alloc_node_def)
  ultimately show ?thesis using p(3) k by blast
qed

lemma add_full:
  "queue_ok T S cap nxt nodes xs \<Longrightarrow> slab_len S nodes = cap \<Longrightarrow>
     add_nodes S new_task nxt nodes = Inr None"
  by (simp add: add_nodes_def queue_ok_def)

lemma take_ok:
  assumes q: "queue_ok T S cap nxt nodes (k # xs)"
  shows "\<exists>nxt' nodes' v. take_next T S nxt nodes = Inr (Some (k, nxt', nodes')) \<and>
    value_at S nodes k = Some v \<and> queue_ok T S cap nxt' nodes' xs \<and>
    value_at S nodes' = (value_at S nodes)(k \<mapsto> set_awake T False v)"
proof -
  note rep = queue_ok_rep [OF q]
  have h: "l_head nxt = Some k" using run_queue.front_rep [OF rep] by simp
  have nk: "k \<notin> set xs" using run_queue.rep_distinct [OF rep] by simp
  obtain l' s' v where r: "list_remove S nxt nodes k = Inr (l', s')" "queue_rep S s' l' xs"
      "value_at S s' = value_at S nodes" "slab_capacity S s' = slab_capacity S nodes"
      and v: "value_at S nodes k = Some v"
    using run_queue.remove_front [OF rep h] by auto
  obtain n where n: "im_get S s' k = Some n" "nd_value n = v"
    using v r(3) by (metis value_at_Some_iff)
  let ?s = "im_set S s' k (n\<lparr>nd_value := set_awake T False v\<rparr>)"
  note put = queue_rep_put [OF r(2) n(1), of "set_awake T False v"]
  have "queue_ok T S cap l' ?s xs"
    unfolding queue_ok_def put(2) r(3)
  proof (intro conjI allI impI)
    show "queue_rep S ?s l' xs" by (fact put(1))
    show "slab_capacity S ?s = cap" using put(3) r(4) q by (simp add: queue_ok_def)
    fix j u assume "((value_at S nodes)(k \<mapsto> set_awake T False v)) j = Some u"
    then show "awake_of T u \<longleftrightarrow> j \<in> set xs" "j < cap"
      using q v nk by (auto simp: queue_ok_def awake_set split: if_splits)
  qed
  then show ?thesis using r n v h put(2) by (auto simp: take_next_def)
qed

lemma take_none:
  "queue_ok T S cap nxt nodes [] \<Longrightarrow> take_next T S nxt nodes = Inr None"
  using run_queue.front_rep by (fastforce simp: take_next_def queue_ok_def)

lemma free_ok:
  assumes q: "queue_ok T S cap nxt nodes xs" and v: "value_at S nodes k = Some v"
  shows "\<exists>nxt' nodes'. free_nodes S k nxt nodes = Inr (nxt', nodes') \<and>
    queue_ok T S cap nxt' nodes' (removeAll k xs) \<and>
    value_at S nodes' = (value_at S nodes)(k := None)"
proof -
  obtain l' s' s'' where r: "list_remove S nxt nodes k = Inr (l', s')"
      "release_node S s' k = Inr s''" "queue_rep S s'' l' (removeAll k xs)"
      "value_at S s'' = (value_at S nodes)(k := None)" "slab_capacity S s'' = slab_capacity S nodes"
    using task_pool.remove_release [OF queue_ok_rep [OF q] v] by blast
  have "queue_ok T S cap l' s'' (removeAll k xs)"
    using q r(3-5) by (auto simp: queue_ok_def)
  moreover have "free_nodes S k nxt nodes = Inr (l', s'')"
    using r(1,2) by (auto simp: free_nodes_def release_node_def res_iff)
  ultimately show ?thesis using r(4) by blast
qed

text \<open>A value written without touching the flag keeps the queue.\<close>

lemma put_ok:
  assumes q: "queue_ok T S cap nxt nodes xs" and n: "im_get S nodes k = Some n"
    and aw: "awake_of T v = awake_of T (nd_value n)"
  shows "queue_ok T S cap nxt (im_set S nodes k (n\<lparr>nd_value := v\<rparr>)) xs \<and>
    value_at S (im_set S nodes k (n\<lparr>nd_value := v\<rparr>)) = (value_at S nodes)(k \<mapsto> v)"
proof -
  note put = queue_rep_put [OF queue_ok_rep [OF q] n, of v]
  have "value_at S nodes k = Some (nd_value n)" using n by (auto simp: value_at_Some_iff)
  then show ?thesis using q put aw by (auto simp: queue_ok_def split: if_splits)
qed

end

end
