(* ===== verification/Poll_Loop.thy ===== *)
theory Poll_Loop
  imports Prelude
begin

section \<open>The loops of the executors (src/src/executor.rs)\<close>

text \<open>
  \<open>process_next\<close> and \<open>run\<close> are the same two loops in the modules \<open>arg\<close>, \<open>bx\<close> and \<open>boxrc\<close>. They
  are defined here once over what differs: \<open>begin_turn\<close> takes the task at the front of the queue,
  \<open>poll\<close> polls it and \<open>complete\<close> removes it when it is done.

  The locale \<open>poll_loop\<close> is the contract they rely on: \<open>inv t xs\<close> is the invariant of the
  executor with the queue \<open>xs\<close>, and a turn only appends to the queue, so that the tasks that wait
  keep their places. \<open>process_next\<close> need not end, since a task may wake itself forever; it ends
  when some measure of the state decreases with every turn, and \<open>run\<close> ends when one decreases
  with every wait for events.
\<close>

subsection \<open>The two loops\<close>

type_synonym ('t, 'w) polling = "nat \<Rightarrow> 't \<Rightarrow> 'w \<Rightarrow> (bool \<times> 't \<times> 'w) run"
type_synonym ('t, 'w) completing = "nat \<Rightarrow> 't \<Rightarrow> 'w \<Rightarrow> ('t \<times> 'w) res"
type_synonym ('t, 'w, 'e) parking = "'t \<Rightarrow> 'w \<Rightarrow> (('e + unit) \<times> 't \<times> 'w) res"

partial_function (option) process_loop ::
  "('t \<Rightarrow> (nat option \<times> 't) res) \<Rightarrow> ('t, 'w) polling \<Rightarrow> ('t, 'w) completing \<Rightarrow>
     't \<Rightarrow> 'w \<Rightarrow> ('t \<times> 'w) run" where
  "process_loop begin_turn poll complete t w =
     run_then (Some (begin_turn t)) (\<lambda>(nkey, t).
     case nkey of
       None \<Rightarrow> Some (Inr (t, w))
     | Some nkey \<Rightarrow>
         run_then (poll nkey t w) (\<lambda>(done, t, w).
         run_then (Some (if done then complete nkey t w else Inr (t, w))) (\<lambda>(t, w).
         process_loop begin_turn poll complete t w)))"

declare process_loop.simps [code]

partial_function (option) executor_run ::
  "('t \<Rightarrow> 'w \<Rightarrow> ('t \<times> 'w) run) \<Rightarrow> ('t \<Rightarrow> bool res) \<Rightarrow> ('t, 'w, 'e) parking \<Rightarrow>
     't \<Rightarrow> 'w \<Rightarrow> ('t \<times> 'w) run" where
  "executor_run process_next is_empty park t w =
     run_then (process_next t w) (\<lambda>(t, w).
     run_then (Some (is_empty t)) (\<lambda>empty.
     if empty then Some (Inr (t, w))
     else
       run_then (Some (park t w)) (\<lambda>(parked, t, w).
       case parked of
         Inl e \<Rightarrow> Some (Inl Unwrap_panic)
       | Inr _ \<Rightarrow> executor_run process_next is_empty park t w)))"

declare executor_run.simps [code]

text \<open>One turn of the first loop: a poll, and the completion when it was the last one.\<close>

definition turn :: "('t, 'w) polling \<Rightarrow> ('t, 'w) completing \<Rightarrow> nat \<Rightarrow> 't \<Rightarrow> 'w \<Rightarrow> ('t \<times> 'w) run" where
  "turn poll complete nkey t w =
     run_then (poll nkey t w) (\<lambda>(done, t, w).
     Some (if done then complete nkey t w else Inr (t, w)))"

lemma process_loop_eq:
  "process_loop begin_turn poll complete t w =
     run_then (Some (begin_turn t)) (\<lambda>(nkey, t).
     case nkey of
       None \<Rightarrow> Some (Inr (t, w))
     | Some k \<Rightarrow> run_then (turn poll complete k t w) (\<lambda>(t, w).
         process_loop begin_turn poll complete t w))"
  by (subst process_loop.simps)
    (auto simp: turn_def run_then_assoc split: sum.splits option.splits intro!: run_then_cong)

text \<open>Induction on the turns of a run that returns.\<close>

lemma process_loop_induct:
  assumes "process_loop begin_turn poll complete t w = Some (Inr r)"
    and "\<And>t w t1. begin_turn t = Inr (None, t1) \<Longrightarrow> P t w (t1, w)"
    and "\<And>t w k t1 t2 w2 r. begin_turn t = Inr (Some k, t1) \<Longrightarrow>
      turn poll complete k t1 w = Some (Inr (t2, w2)) \<Longrightarrow> P t2 w2 r \<Longrightarrow> P t w r"
  shows "P t w r"
proof -
  have "\<forall>r. y = Inr r \<longrightarrow> b' = begin_turn \<longrightarrow> p' = poll \<longrightarrow> c' = complete \<longrightarrow> P t w r"
    if "process_loop b' p' c' t w = Some y" for b' p' c' t w y
    using that
  proof (induction b' p' c' t w y
      rule: process_loop.raw_induct [rotated, consumes 1, case_names turn])
    case (turn f b' p' c' t w y)
    show ?case
    proof (intro allI impI)
      fix r assume eqs: "y = Inr r" "b' = begin_turn" "p' = poll" "c' = complete"
      obtain nkey t1 where b: "begin_turn t = Inr (nkey, t1)"
        using turn.hyps eqs by (cases "begin_turn t") auto
      show "P t w r"
      proof (cases nkey)
        case None
        with turn.hyps eqs b assms(2) show ?thesis by auto
      next
        case (Some k)
        from turn.hyps eqs b Some obtain d2 t2 w2 t3 w3 where
          p: "poll k t1 w = Some (Inr (d2, t2, w2))"
          "(if d2 then complete k t2 w2 else Inr (t2, w2)) = Inr (t3, w3)"
          and rest: "f begin_turn poll complete t3 w3 = Some (Inr r)"
          by (auto simp: res_iff)
        have "turn poll complete k t1 w = Some (Inr (t3, w3))" using p by (simp add: turn_def)
        with assms(3) b Some turn.IH [OF rest] show ?thesis by blast
      qed
    qed
  qed
  with assms(1) show ?thesis by blast
qed

lemma executor_run_induct:
  assumes "executor_run process is_empty park t w = Some (Inr r)"
    and "\<And>t w t1 w1. process t w = Some (Inr (t1, w1)) \<Longrightarrow> is_empty t1 = Inr True \<Longrightarrow> P t w (t1, w1)"
    and "\<And>t w t1 w1 t2 w2 r. process t w = Some (Inr (t1, w1)) \<Longrightarrow> is_empty t1 = Inr False \<Longrightarrow>
      park t1 w1 = Inr (Inr (), t2, w2) \<Longrightarrow> P t2 w2 r \<Longrightarrow> P t w r"
  shows "P t w r"
proof -
  have "\<forall>r. y = Inr r \<longrightarrow> p' = process \<longrightarrow> e' = is_empty \<longrightarrow> k' = park \<longrightarrow> P t w r"
    if "executor_run p' e' k' t w = Some y" for p' e' k' t w y
    using that
  proof (induction p' e' k' t w y
      rule: executor_run.raw_induct [rotated, consumes 1, case_names turn])
    case (turn f p' e' k' t w y)
    show ?case
    proof (intro allI impI)
      fix r assume eqs: "y = Inr r" "p' = process" "e' = is_empty" "k' = park"
      from turn.hyps eqs obtain t1 w1 empty
        where pr: "process t w = Some (Inr (t1, w1))" and em: "is_empty t1 = Inr empty"
          and rest: "(if empty then Some (Inr (t1, w1))
            else run_then (Some (park t1 w1)) (\<lambda>(parked, t, w).
              case parked of Inl e \<Rightarrow> Some (Inl Unwrap_panic)
              | Inr _ \<Rightarrow> f process is_empty park t w)) = Some (Inr r)"
        by (auto simp: res_iff)
      show "P t w r"
      proof (cases empty)
        case True
        with assms(2) [OF pr] em rest show ?thesis by auto
      next
        case False
        with rest obtain pd t2 w2 where pk: "park t1 w1 = Inr (pd, t2, w2)"
          and "(case pd of Inl e \<Rightarrow> Some (Inl Unwrap_panic) | Inr _ \<Rightarrow> f process is_empty park t2 w2) =
            Some (Inr r)"
          by (auto simp: res_iff)
        then have "pd = Inr ()" and f: "f process is_empty park t2 w2 = Some (Inr r)"
          by (cases pd; simp)+
        with assms(3) [OF pr] em False pk turn.IH [OF f] show ?thesis by auto
      qed
    qed
  qed
  with assms(1) show ?thesis by blast
qed

subsection \<open>The contract\<close>

locale poll_loop =
  fixes begin_turn :: "'t \<Rightarrow> (nat option \<times> 't) res"
    and poll :: "('t, 'w) polling"
    and complete :: "('t, 'w) completing"
    and inv :: "'t \<Rightarrow> nat list \<Rightarrow> bool"
  assumes begin_empty: "inv t [] \<Longrightarrow> begin_turn t = Inr (None, t)"
    and begin_front: "inv t (k # xs) \<Longrightarrow> \<exists>t1. begin_turn t = Inr (Some k, t1) \<and> inv t1 xs \<and> k \<notin> set xs"
    and turn_appends:
      "inv t xs \<Longrightarrow> k \<notin> set xs \<Longrightarrow> turn poll complete k t w = Some (Inr (t', w')) \<Longrightarrow>
       \<exists>zs. inv t' (xs @ zs)"
begin

text \<open>If \<open>process_next\<close> returns, no task is left in the queue.\<close>

lemma process_drains:
  assumes "process_loop begin_turn poll complete t w = Some (Inr (t', w'))" and "inv t xs"
  shows "inv t' []"
proof -
  have "\<forall>xs. inv t xs \<longrightarrow> inv (fst (t', w')) []"
  proof (rule process_loop_induct [OF assms(1), of "\<lambda>t w r. \<forall>xs. inv t xs \<longrightarrow> inv (fst r) []"];
      intro allI impI)
    fix t w t1 xs
    assume "begin_turn t = Inr (None, t1)" "inv t xs"
    then show "inv (fst (t1, w)) []"
      using begin_front [of t] begin_empty [of t] by (cases xs) auto
  next
    fix t w k t1 t2 w2 r xs
    assume b: "begin_turn t = Inr (Some k, t1)" and tn: "turn poll complete k t1 w = Some (Inr (t2, w2))"
      and IH: "\<forall>xs. inv t2 xs \<longrightarrow> inv (fst r) []" and i: "inv t xs"
    then obtain ks where "inv t1 ks" "k \<notin> set ks"
      using begin_front [of t] begin_empty [of t] by (cases xs) auto
    with turn_appends [OF this tn] IH show "inv (fst r) []" by blast
  qed
  with assms(2) show ?thesis by auto
qed

text \<open>
  \<open>process_next\<close> returns when every turn returns and makes a measure \<open>m\<close> smaller.
\<close>

lemma process_returns:
  assumes "inv t xs" and "G t w"
    and step: "\<And>t w k xs t1. inv t (k # xs) \<Longrightarrow> G t w \<Longrightarrow> begin_turn t = Inr (Some k, t1) \<Longrightarrow>
      \<exists>t2 w2. turn poll complete k t1 w = Some (Inr (t2, w2)) \<and> G t2 w2 \<and> (m t2 w2 :: nat) < m t w"
  shows "\<exists>t' w'. process_loop begin_turn poll complete t w = Some (Inr (t', w')) \<and> G t' w' \<and> inv t' []"
  using assms(1,2)
proof (induction "m t w" arbitrary: t w xs rule: less_induct)
  case less
  show ?case
  proof (cases xs)
    case Nil
    with less.prems begin_empty [of t] show ?thesis by (auto simp: process_loop_eq [of _ _ _ t])
  next
    case (Cons k ks)
    then obtain t1 where b: "begin_turn t = Inr (Some k, t1)" "inv t1 ks" "k \<notin> set ks"
      using begin_front less.prems by blast
    from step [OF _ less.prems(2) b(1)] less.prems(1) Cons obtain t2 w2
      where tn: "turn poll complete k t1 w = Some (Inr (t2, w2))" "G t2 w2" "m t2 w2 < m t w" by blast
    from turn_appends [OF b(2,3) tn(1)] obtain zs where "inv t2 (ks @ zs)" by blast
    from less.hyps [OF tn(3) this tn(2)] b(1) tn(1) show ?thesis
      by (auto simp: process_loop_eq [of _ _ _ t])
  qed
qed

text \<open>The tasks that wait are polled in their order, before any that is woken meanwhile.\<close>

lemma next_turn:
  assumes "inv t (k # j # xs)" and "begin_turn t = Inr (Some k, t1)"
    and "turn poll complete k t1 w = Some (Inr (t2, w2))"
  shows "\<exists>t3 zs. begin_turn t2 = Inr (Some j, t3) \<and> inv t3 (xs @ zs)"
proof -
  have "inv t1 (j # xs)" "k \<notin> set (j # xs)" using begin_front [OF assms(1)] assms(2) by auto
  from turn_appends [OF this assms(3)] obtain zs where "inv t2 (j # (xs @ zs))" by auto
  from begin_front [OF this] show ?thesis by blast
qed

text \<open>If \<open>run\<close> returns, no task is queued or stored, when waiting keeps the invariant.\<close>

lemma run_end:
  assumes "executor_run (process_loop begin_turn poll complete) is_empty park t w = Some (Inr (t', w'))"
    and "inv t xs"
    and park_inv: "\<And>t w p t' w'. inv t [] \<Longrightarrow> park t w = Inr (p, t', w') \<Longrightarrow> \<exists>zs. inv t' zs"
  shows "inv t' [] \<and> is_empty t' = Inr True"
proof -
  have "\<forall>xs. inv t xs \<longrightarrow> inv (fst (t', w')) [] \<and> is_empty (fst (t', w')) = Inr True"
  proof (rule executor_run_induct [OF assms(1),
        of "\<lambda>t w r. \<forall>xs. inv t xs \<longrightarrow> inv (fst r) [] \<and> is_empty (fst r) = Inr True"];
      intro allI impI)
    fix t w t1 w1 xs
    assume "process_loop begin_turn poll complete t w = Some (Inr (t1, w1))"
      "is_empty t1 = Inr True" "inv t xs"
    then show "inv (fst (t1, w1)) [] \<and> is_empty (fst (t1, w1)) = Inr True"
      using process_drains by simp
  next
    fix t w t1 w1 t2 w2 r xs
    assume "process_loop begin_turn poll complete t w = Some (Inr (t1, w1))"
      "park t1 w1 = Inr (Inr (), t2, w2)" "inv t xs"
      and "\<forall>xs. inv t2 xs \<longrightarrow> inv (fst r) [] \<and> is_empty (fst r) = Inr True"
    then show "inv (fst r) [] \<and> is_empty (fst r) = Inr True"
      using process_drains park_inv by blast
  qed
  with assms(2) show ?thesis by auto
qed

end

end
