(* ===== verification/Executor_Contract.thy ===== *)
theory Executor_Contract
  imports Task_Queue Poll_Loop
begin

section \<open>The contract of an executor\<close>

text \<open>
  What the server relies on, whichever of the three executors runs it. \<open>rep t m xs\<close>: the
  executor in state \<open>t\<close> stores the tasks \<open>m\<close>, each with its future and the number of references
  to its waker, and the queue is \<open>xs\<close>. The waker of the task with the key \<open>k\<close> is the data pointer
  \<open>wk k\<close> with the table \<open>vt\<close>. The operations act on \<open>m\<close> and \<open>xs\<close> as one expects; \<open>poll_task\<close> and
  \<open>complete\<close> are the two halves of a turn, \<open>poll\<close> and \<open>drop_fut\<close> what the future itself does.
\<close>

type_synonym 'f tasks = "nat \<Rightarrow> ('f \<times> usize) option"
type_synonym ('t, 'f, 'w) future_poll = "'f \<Rightarrow> nat \<Rightarrow> 't \<Rightarrow> 'w \<Rightarrow> (bool \<times> 'f \<times> 't \<times> 'w) run"
type_synonym ('t, 'f, 'w) future_drop = "'f \<Rightarrow> 't \<Rightarrow> 'w \<Rightarrow> ('t \<times> 'w) res"

subsection \<open>Scripted futures\<close>

text \<open>
  Programs of which the whole course is known, as a specification of the loops. A future is a name
  and a script, what it does when it is polled: \<open>True\<close>, it wakes itself and is pending; \<open>False\<close>,
  it is pending and nobody was told to wake it; at the end of the script it is done. The rest of
  the world is a log of the polls, the drops and the waits. \<open>rounds\<close> says what has to happen, over a
  queue of futures and the tasks \<open>s\<close> that sleep: the futures are polled in the order of the
  queue, those that woke themselves again after the others, and each that is done is dropped.
\<close>

datatype 'i script_event = Polled 'i | Dropped 'i | Parked

type_synonym 'i script = "'i \<times> bool list"

definition scripted_poll ::
  "(nat, 't) raw_vtable \<Rightarrow> ('t, 'i script, 'i script_event list) future_poll" where
  "scripted_poll vt = (\<lambda>(i, script) p t log.
     let log = log @ [Polled i] in
     case script of
       [] \<Rightarrow> Some (Inr (True, (i, []), t, log))
     | wakes # script \<Rightarrow>
         if wakes then run_then (Some (vt_wake_by_ref vt p t)) (\<lambda>t. Some (Inr (False, (i, script), t, log)))
         else Some (Inr (False, (i, script), t, log)))"

definition scripted_drop :: "('t, 'i script, 'i script_event list) future_drop" where
  "scripted_drop = (\<lambda>(i, script) t log. Inr (t, log @ [Dropped i]))"

fun rounds ::
  "(nat \<times> 'i script) list \<Rightarrow> 'i script tasks \<Rightarrow> 'i script_event list \<Rightarrow>
     'i script tasks \<times> 'i script_event list" where
  "rounds [] s log = (s, log)"
| "rounds ((k, i, []) # q) s log = rounds q s (log @ [Polled i, Dropped i])"
| "rounds ((k, i, True # script) # q) s log = rounds (q @ [(k, i, script)]) s (log @ [Polled i])"
| "rounds ((k, i, False # script) # q) s log = rounds q (s(k \<mapsto> ((i, script), 1))) (log @ [Polled i])"

text \<open>
  Between the rounds \<open>run\<close> waits. The environment is a function of the log: the keys it wakes when
  it is waited for, \<open>None\<close> when the wait fails. \<open>lives\<close> evaluates a whole program: when no task is
  left it ends; otherwise one waits, the tasks that were woken sleep no more and are in the
  queue, each once, and the next rounds begin.
\<close>

fun wake_all :: "(nat, 't) raw_vtable \<Rightarrow> (nat \<Rightarrow> nat) \<Rightarrow> nat list \<Rightarrow> 't \<Rightarrow> 't res" where
  "wake_all vt wk [] t = Inr t"
| "wake_all vt wk (k # ks) t = and_then (vt_wake_by_ref vt (wk k) t) (wake_all vt wk ks)"

definition scripted_park ::
  "(nat, 't) raw_vtable \<Rightarrow> (nat \<Rightarrow> nat) \<Rightarrow> ('i script_event list \<Rightarrow> nat list option) \<Rightarrow>
     ('t, 'i script_event list, unit) parking" where
  "scripted_park vt wk wakes t log =
     (case wakes log of
        None \<Rightarrow> Inr (Inl (), t, log)
      | Some ks \<Rightarrow> and_then (wake_all vt wk ks t) (\<lambda>t. Inr (Inr (), t, log @ [Parked])))"

definition woken :: "'f tasks \<Rightarrow> nat list \<Rightarrow> (nat \<times> 'f) list" where
  "woken s ks = map (\<lambda>k. (k, fst (the (s k)))) (fold sched_wake ks [])"

inductive lives ::
  "('i script_event list \<Rightarrow> nat list option) \<Rightarrow> (nat \<times> 'i script) list \<Rightarrow> 'i script tasks \<Rightarrow>
     'i script_event list \<Rightarrow> 'i script_event list res \<Rightarrow> bool"
  for wakes where
  lives_end: "rounds q s log = (s', log') \<Longrightarrow> s' = Map.empty \<Longrightarrow> lives wakes q s log (Inr log')"
| lives_fail: "rounds q s log = (s', log') \<Longrightarrow> s' \<noteq> Map.empty \<Longrightarrow> wakes log' = None \<Longrightarrow>
    lives wakes q s log (Inl Unwrap_panic)"
| lives_wait: "rounds q s log = (s', log') \<Longrightarrow> s' \<noteq> Map.empty \<Longrightarrow> wakes log' = Some ks \<Longrightarrow>
    set ks \<subseteq> dom s' \<Longrightarrow> lives wakes (woken s' ks) (s' |` (- set ks)) (log' @ [Parked]) r \<Longrightarrow>
    lives wakes q s log r"

text \<open>The tasks of a queue of futures; none of their wakers was cloned.\<close>

definition queued :: "(nat \<times> 'f) list \<Rightarrow> 'f tasks" where
  "queued q = map_of (map (\<lambda>(k, f). (k, (f, 1))) q)"

lemma queued_simps [simp]:
  "queued [] = Map.empty"
  "queued ((k, f) # q) = (queued q)(k \<mapsto> (f, 1))"
  "dom (queued q) = fst ` set q"
  by (auto simp: queued_def dom_map_of_conv_image_fst image_image split_beta)

lemma queued_snoc: "k \<notin> fst ` set q \<Longrightarrow> queued (q @ [(k, f)]) = (queued q)(k \<mapsto> (f, 1))"
  by (induction q) (auto simp: fun_upd_twist)

text \<open>No waker was cloned: the rounds leave it so, and the tasks that are woken are those stored.\<close>

definition unshared :: "'f tasks \<Rightarrow> bool" where
  "unshared m \<longleftrightarrow> (\<forall>k f r. m k = Some (f, r) \<longrightarrow> r = 1)"

lemma unshared_simps [simp]:
  "unshared Map.empty" "unshared m \<Longrightarrow> unshared (m(k \<mapsto> (f, 1)))" "unshared m \<Longrightarrow> unshared (m |` A)"
  by (auto simp: unshared_def restrict_map_def)

lemma unshared_rounds: "rounds q s log = (s', log') \<Longrightarrow> unshared s \<Longrightarrow> unshared s'"
  by (induction q s log rule: rounds.induct) auto

lemma fold_sched_wake_set [simp]: "set (fold sched_wake ks xs) = set ks \<union> set xs"
  by (induction ks arbitrary: xs) auto

lemma woken_keys: "map fst (woken s ks) = fold sched_wake ks []"
  by (simp add: woken_def comp_def)

lemma queued_map:
  "queued (map (\<lambda>k. (k, g k)) ks) = (\<lambda>k. if k \<in> set ks then Some (g k, 1) else None)"
  by (induction ks) auto

lemma woken_stored:
  assumes "unshared s" and "set ks \<subseteq> dom s"
  shows "(s |` (- set ks)) ++ queued (woken s ks) = s"
proof
  fix k
  have "s k = Some (fst (the (s k)), 1)" if "k \<in> set ks"
    using that assms by (cases "s k") (auto simp: unshared_def)
  then show "((s |` (- set ks)) ++ queued (woken s ks)) k = s k"
    by (cases "s k"; cases "k \<in> set ks") (auto simp: woken_def queued_map map_add_def)
qed

subsection \<open>The contract\<close>

locale task_executor =
  fixes vt :: "(nat, 't) raw_vtable"
    and wk :: "nat \<Rightarrow> nat"
    and cap :: nat
    and rep :: "'t \<Rightarrow> 'f tasks \<Rightarrow> nat list \<Rightarrow> bool"
    and begin_turn :: "'t \<Rightarrow> (nat option \<times> 't) res"
    and poll_task :: "('t, 'f, 'w) future_poll \<Rightarrow> ('t, 'w) polling"
    and complete :: "('t, 'f, 'w) future_drop \<Rightarrow> ('t, 'w) completing"
    and is_empty :: "'t \<Rightarrow> bool res"
    and spawn :: "'f \<Rightarrow> 't \<Rightarrow> ((unit + unit) \<times> 't) res"
  assumes rep_queue: "rep t m xs \<Longrightarrow> finite (dom m) \<and> distinct xs \<and> set xs \<subseteq> dom m"
    and wake_ref:
      "rep t m xs \<Longrightarrow> m k = Some a \<Longrightarrow>
       \<exists>t'. vt_wake_by_ref vt (wk k) t = Inr t' \<and> rep t' m (sched_wake k xs)"
    and wake_value:
      "rep t m xs \<Longrightarrow> m k = Some a \<Longrightarrow>
       vt_wake vt (wk k) t = and_then (vt_wake_by_ref vt (wk k) t) (vt_drop vt (wk k))"
    and clone_waker:
      "rep t m xs \<Longrightarrow> m k = Some (f, r) \<Longrightarrow> r + 1 \<noteq> 0 \<Longrightarrow>
       \<exists>t'. vt_clone vt (wk k) t = Inr (wk k, t') \<and> rep t' (m(k \<mapsto> (f, r + 1))) xs"
    and drop_waker:
      "rep t m xs \<Longrightarrow> m k = Some (f, r) \<Longrightarrow> 1 < r \<Longrightarrow>
       \<exists>t'. vt_drop vt (wk k) t = Inr t' \<and> rep t' (m(k \<mapsto> (f, r - 1))) xs"
    and spawn_room:
      "rep t m xs \<Longrightarrow> card (dom m) < cap \<Longrightarrow>
       \<exists>k t'. spawn f t = Inr (Inr (), t') \<and> m k = None \<and> rep t' (m(k \<mapsto> (f, 1))) (xs @ [k])"
    and spawn_full:
      "rep t m xs \<Longrightarrow> card (dom m) = cap \<Longrightarrow> spawn f t = Inr (Inl (), t)"
    and begin_none: "rep t m [] \<Longrightarrow> begin_turn t = Inr (None, t)"
    and begin_some: "rep t m (k # xs) \<Longrightarrow> \<exists>t1. begin_turn t = Inr (Some k, t1) \<and> rep t1 m xs"
    and poll_stores:
      "rep t m xs \<Longrightarrow> m k = Some (f, r) \<Longrightarrow> poll f (wk k) t w = Some (Inr (d, f', t2, w2)) \<Longrightarrow>
       rep t2 m2 ys \<Longrightarrow> m2 k = Some (f2, r2) \<Longrightarrow>
       \<exists>t3. poll_task poll k t w = Some (Inr (d, t3, w2)) \<and> rep t3 (m2(k \<mapsto> (f', r2))) ys"
    and complete_removes:
      "rep t m xs \<Longrightarrow> m k = Some (f, 1) \<Longrightarrow> (\<And>t. drop_fut f t w = Inr (t, w')) \<Longrightarrow>
       \<exists>t'. complete drop_fut k t w = Inr (t', w') \<and> rep t' (m(k := None)) (removeAll k xs)"
    and empty_iff: "rep t m xs \<Longrightarrow> is_empty t = Inr (m = Map.empty)"
begin

text \<open>Waking by value, in one step.\<close>

lemma wake_consumes:
  assumes "rep t m xs" and "m k = Some (f, r)" and "1 < r"
  shows "\<exists>t'. vt_wake vt (wk k) t = Inr t' \<and> rep t' (m(k \<mapsto> (f, r - 1))) (sched_wake k xs)"
proof -
  obtain t1 where "vt_wake_by_ref vt (wk k) t = Inr t1" "rep t1 m (sched_wake k xs)"
    using wake_ref [OF assms(1,2)] by blast
  with drop_waker [OF this(2) assms(2,3)] wake_value [OF assms(1,2)] show ?thesis by auto
qed

text \<open>Two spawns in an empty executor.\<close>

lemma spawn_two:
  assumes "rep t Map.empty []" and "2 \<le> cap"
  shows "\<exists>k j t1 t2. spawn f t = Inr (Inr (), t1) \<and> spawn g t1 = Inr (Inr (), t2) \<and> k \<noteq> j \<and>
    rep t2 (queued [(k, f), (j, g)]) [k, j]"
proof -
  obtain k t1 where t1: "spawn f t = Inr (Inr (), t1)" "rep t1 [k \<mapsto> (f, 1)] [k]"
    using spawn_room [OF assms(1), of f] assms(2) by auto
  obtain j t2 where t2: "spawn g t1 = Inr (Inr (), t2)" "[k \<mapsto> (f, 1 :: usize)] j = None"
      "rep t2 ([k \<mapsto> (f, 1)](j \<mapsto> (g, 1))) [k, j]"
    using spawn_room [OF t1(2), of g] assms(2) by auto
  have "k \<noteq> j" using t2(2) by auto
  with t1(1) t2 show ?thesis by (auto simp: fun_upd_twist)
qed

text \<open>A turn: the future is put back when it is pending and removed when it is done.\<close>

lemma turn_pending:
  assumes "rep t m xs" and "m k = Some (f, r)"
    and "poll f (wk k) t w = Some (Inr (False, f', t2, w2))" and "rep t2 m2 ys" and "m2 k = Some (f2, r2)"
  shows "\<exists>t3. turn (poll_task poll) (complete drop_fut) k t w = Some (Inr (t3, w2)) \<and>
    rep t3 (m2(k \<mapsto> (f', r2))) ys"
  using poll_stores [where poll = poll, OF assms] by (auto simp: turn_def)

lemma turn_done:
  assumes "rep t m xs" and "m k = Some (f, r)"
    and "poll f (wk k) t w = Some (Inr (True, f', t2, w2))" and "rep t2 m2 ys" and "m2 k = Some (f2, 1)"
    and "\<And>t. drop_fut f' t w2 = Inr (t, w3)"
  shows "\<exists>t3. turn (poll_task poll) (complete drop_fut) k t w = Some (Inr (t3, w3)) \<and>
    rep t3 (m2(k := None)) (removeAll k ys)"
proof -
  obtain t3 where t3: "poll_task poll k t w = Some (Inr (True, t3, w2))" "rep t3 (m2(k \<mapsto> (f', 1))) ys"
    using poll_stores [where poll = poll, OF assms(1-5)] by blast
  have "(m2(k \<mapsto> (f', 1))) k = Some (f', 1)" by simp
  from complete_removes [where drop_fut = drop_fut, OF t3(2) this assms(6)] t3(1) show ?thesis
    by (auto simp: turn_def simp del: fun_upd_apply)
qed

text \<open>
  The two loops return when a measure decreases with every turn and with every wait. \<open>G w m xs\<close>
  is what the futures keep true of the tasks \<open>m\<close> between two turns; for \<open>run\<close> it bounds the number
  of waits that are left.
\<close>

lemma process_terminates:
  assumes "rep t m xs" and "G w m xs"
    and step: "\<And>t w m k xs. rep t m xs \<Longrightarrow> k \<notin> set xs \<Longrightarrow> k \<in> dom m \<Longrightarrow> G w m (k # xs) \<Longrightarrow>
      \<exists>t2 w2 m2 ys. turn poll' complete' k t w = Some (Inr (t2, w2)) \<and> rep t2 m2 ys \<and>
        G w2 m2 ys \<and> (size_of m2 ys :: nat) < size_of m (k # xs)"
  shows "\<exists>t' w' m'. process_loop begin_turn poll' complete' t w = Some (Inr (t', w')) \<and>
    rep t' m' [] \<and> G w' m' []"
  using assms(1,2)
proof (induction "size_of m xs" arbitrary: t w m xs rule: less_induct)
  case less
  show ?case
  proof (cases xs)
    case Nil
    with less.prems begin_none [of t m] show ?thesis by (auto simp: process_loop_eq [of _ _ _ t])
  next
    case (Cons k ks)
    with less.prems obtain t1 where b: "begin_turn t = Inr (Some k, t1)" "rep t1 m ks"
      using begin_some by blast
    have "k \<notin> set ks" "k \<in> dom m" using rep_queue [OF less.prems(1)] Cons by auto
    from step [OF b(2) this] less.prems(2) Cons obtain t2 w2 m2 ys
      where "turn poll' complete' k t1 w = Some (Inr (t2, w2))" "rep t2 m2 ys" "G w2 m2 ys"
        "size_of m2 ys < size_of m xs" by blast
    with less.hyps [OF this(4) this(2,3)] b(1) show ?thesis
      by (auto simp: process_loop_eq [of _ _ _ t])
  qed
qed

lemma run_terminates:
  assumes "rep t m xs" and "G n w m xs"
    and process: "\<And>n t w m xs. rep t m xs \<Longrightarrow> G n w m xs \<Longrightarrow>
      \<exists>t' w' m'. process t w = Some (Inr (t', w')) \<and> rep t' m' [] \<and> G n w' m' []"
    and park: "\<And>n t w m. rep t m [] \<Longrightarrow> G n w m [] \<Longrightarrow> m \<noteq> Map.empty \<Longrightarrow>
      \<exists>t' w' m' ys n'. park t w = Inr (Inr (), t', w') \<and> rep t' m' ys \<and> G n' w' m' ys \<and> n' < (n :: nat)"
  shows "\<exists>t' w' n'. executor_run process is_empty park t w = Some (Inr (t', w')) \<and>
    rep t' Map.empty [] \<and> G n' w' Map.empty []"
  using assms(1,2)
proof (induction n arbitrary: t w m xs rule: less_induct)
  case (less n)
  from process [OF less.prems] obtain t1 w1 m1
    where p: "process t w = Some (Inr (t1, w1))" "rep t1 m1 []" "G n w1 m1 []" by blast
  note e = empty_iff [OF p(2)]
  show ?case
  proof (cases "m1 = Map.empty")
    case True
    with p e show ?thesis by (auto simp: executor_run.simps [of _ _ _ t])
  next
    case False
    from park [OF p(2,3) this] obtain t2 w2 m2 ys n' where k: "park t1 w1 = Inr (Inr (), t2, w2)"
      "rep t2 m2 ys" "G n' w2 m2 ys" "n' < n" by blast
    from less.IH [OF k(4,2,3)] p(1) e False k(1) show ?thesis
      by (auto simp: executor_run.simps [of _ _ _ t])
  qed
qed

text \<open>
  The simplest program: one task that wakes itself a number of times before it is done. It is
  what the hypotheses of the properties of each executor are tried on.
\<close>

definition yielding :: "('f \<Rightarrow> nat) \<Rightarrow> ('f \<Rightarrow> 'f) \<Rightarrow> ('t, 'f, 'w) future_poll" where
  "yielding left next_fut = (\<lambda>f p t w.
     if left f = 0 then Some (Inr (True, f, t, w))
     else run_then (Some (vt_wake_by_ref vt p t)) (\<lambda>t. Some (Inr (False, next_fut f, t, w))))"

lemma lone_task_returns:
  assumes "rep t [k \<mapsto> (f, 1)] [k]" and next_fut: "\<And>f. left f \<noteq> 0 \<Longrightarrow> left (next_fut f) < left f"
  shows "\<exists>t'. process_loop begin_turn (poll_task (yielding left next_fut)) (complete (\<lambda>_ t w. Inr (t, w)))
      t w = Some (Inr (t', w)) \<and> rep t' Map.empty []"
  using assms(1)
proof (induction "left f" arbitrary: f t rule: less_induct)
  case less
  let ?m = "[k \<mapsto> (f, 1 :: usize)]" and ?drop = "\<lambda>_ t w. Inr (t, w)"
  obtain t1 where b: "begin_turn t = Inr (Some k, t1)" "rep t1 ?m []"
    using begin_some [OF less.prems] by blast
  have f: "?m k = Some (f, 1)" by simp
  show ?case
  proof (cases "left f = 0")
    case True
    then have "yielding left next_fut f (wk k) t1 w = Some (Inr (True, f, t1, w))"
      by (simp add: yielding_def)
    from turn_done [where poll = "yielding left next_fut" and drop_fut = ?drop, OF b(2) f this b(2) f] obtain t3
      where tn: "turn (poll_task (yielding left next_fut)) (complete ?drop) k t1 w = Some (Inr (t3, w))"
        and "rep t3 (?m(k := None)) (removeAll k [])" by blast
    moreover have "?m(k := None) = Map.empty" by auto
    ultimately have "rep t3 Map.empty []" by simp
    with b(1) tn begin_none [of t3 Map.empty] show ?thesis
      by (auto simp: process_loop_eq [of _ _ _ t] process_loop_eq [of _ _ _ t3])
  next
    case False
    have "sched_wake k [] = [k]" by (simp add: sched_wake_def)
    then obtain t2 where w: "vt_wake_by_ref vt (wk k) t1 = Inr t2" "rep t2 ?m [k]"
      using wake_ref [OF b(2) f] by metis
    with False have "yielding left next_fut f (wk k) t1 w = Some (Inr (False, next_fut f, t2, w))"
      by (simp add: yielding_def)
    from turn_pending [where poll = "yielding left next_fut" and drop_fut = ?drop, OF b(2) f this w(2) f] obtain t3
      where tn: "turn (poll_task (yielding left next_fut)) (complete ?drop) k t1 w = Some (Inr (t3, w))"
        and "rep t3 (?m(k \<mapsto> (next_fut f, 1))) [k]" by blast
    then have r: "rep t3 [k \<mapsto> (next_fut f, 1)] [k]" by simp
    from less.hyps [OF next_fut [OF False] r] b(1) tn show ?thesis
      by (auto simp: process_loop_eq [of _ _ _ t])
  qed
qed

end

text \<open>With scripted futures \<open>process_next\<close> follows \<open>rounds\<close>, and \<open>run\<close> follows \<open>lives\<close>.\<close>

locale scripted_executor =
  task_executor vt wk cap rep begin_turn poll_task complete is_empty spawn
  for vt :: "(nat, 't) raw_vtable"
    and wk cap
    and rep :: "'t \<Rightarrow> 'i script tasks \<Rightarrow> nat list \<Rightarrow> bool"
    and begin_turn
    and poll_task :: "('t, 'i script, 'i script_event list) future_poll \<Rightarrow>
      ('t, 'i script_event list) polling"
    and complete is_empty spawn
begin

lemma process_rounds:
  assumes "rep t (s ++ queued q) (map fst q)" and "dom s \<inter> fst ` set q = {}"
  shows "case rounds q s log of (s', log') \<Rightarrow> \<exists>t'. process_loop begin_turn
      (poll_task (scripted_poll vt)) (complete scripted_drop) t log = Some (Inr (t', log')) \<and> rep t' s' []"
  using assms
proof (induction q s log arbitrary: t rule: rounds.induct)
  case (1 s log)
  with begin_none [of t s] show ?case by (auto simp: process_loop_eq [of _ _ _ t])
next
  case (2 k i q s log)
  let ?m = "(s ++ queued q)(k \<mapsto> ((i, []), 1))"
  have k: "k \<notin> fst ` set q" "k \<notin> dom s" using rep_queue [OF "2.prems"(1)] "2.prems"(2) by auto
  have "rep t ?m (k # map fst q)"
    using "2.prems"(1) by (simp only: queued_simps(2) map_add_upd list.map fst_conv)
  from begin_some [OF this] obtain t1 where b: "begin_turn t = Inr (Some k, t1)" "rep t1 ?m (map fst q)" by blast
  have m: "?m k = Some ((i, []), 1)" by simp
  have p: "scripted_poll vt (i, []) (wk k) t1 log = Some (Inr (True, (i, []), t1, log @ [Polled i]))"
    by (simp add: scripted_poll_def Let_def)
  have d: "scripted_drop (i, []) t (log @ [Polled i]) = Inr (t, log @ [Polled i, Dropped i])" for t
    by (simp add: scripted_drop_def)
  from turn_done [where poll = "scripted_poll vt" and drop_fut = scripted_drop, OF b(2) m p b(2) m d] obtain t3
    where tn: "turn (poll_task (scripted_poll vt)) (complete scripted_drop) k t1 log =
      Some (Inr (t3, log @ [Polled i, Dropped i]))"
    and r: "rep t3 (?m(k := None)) (removeAll k (map fst q))" by blast
  have "k \<notin> dom (s ++ queued q)" using k by simp
  then have "?m(k := None) = s ++ queued q" by (simp add: domIff fun_upd_idem)
  with r k(1) have "rep t3 (s ++ queued q) (map fst q)" by (auto simp: removeAll_id)
  from "2.IH" [OF this] "2.prems"(2) b(1) tn show ?case
    by (auto simp: process_loop_eq [of _ _ _ t])
next
  case (3 k i script q s log)
  let ?m = "\<lambda>script. (s ++ queued q)(k \<mapsto> ((i, script), 1))"
  have k: "k \<notin> fst ` set q" using rep_queue [OF "3.prems"(1)] by auto
  have "rep t (?m (True # script)) (k # map fst q)"
    using "3.prems"(1) by (simp only: queued_simps(2) map_add_upd list.map fst_conv)
  from begin_some [OF this] obtain t1 where b: "begin_turn t = Inr (Some k, t1)"
    "rep t1 (?m (True # script)) (map fst q)" by blast
  have m: "?m (True # script) k = Some ((i, True # script), 1)" by simp
  have "sched_wake k (map fst q) = map fst q @ [k]" using k by (auto simp: sched_wake_def)
  with wake_ref [OF b(2) m] obtain t2 where w: "vt_wake_by_ref vt (wk k) t1 = Inr t2"
    "rep t2 (?m (True # script)) (map fst q @ [k])" by (simp only:) blast
  have p: "scripted_poll vt (i, True # script) (wk k) t1 log =
      Some (Inr (False, (i, script), t2, log @ [Polled i]))" using w(1) by (simp add: scripted_poll_def Let_def)
  from turn_pending [where poll = "scripted_poll vt" and drop_fut = scripted_drop, OF b(2) m p w(2) m] obtain t3
    where tn: "turn (poll_task (scripted_poll vt)) (complete scripted_drop) k t1 log =
      Some (Inr (t3, log @ [Polled i]))"
      and "rep t3 ((?m (True # script))(k \<mapsto> ((i, script), 1))) (map fst q @ [k])" by blast
  then have "rep t3 (s ++ queued (q @ [(k, i, script)])) (map fst (q @ [(k, i, script)]))"
    by (simp add: queued_snoc [OF k])
  from "3.IH" [OF this] "3.prems"(2) b(1) tn show ?case
    by (auto simp: process_loop_eq [of _ _ _ t])
next
  case (4 k i script q s log)
  let ?m = "\<lambda>script. (s ++ queued q)(k \<mapsto> ((i, script), 1))"
  have k: "k \<notin> fst ` set q" using rep_queue [OF "4.prems"(1)] by auto
  have "rep t (?m (False # script)) (k # map fst q)"
    using "4.prems"(1) by (simp only: queued_simps(2) map_add_upd list.map fst_conv)
  from begin_some [OF this] obtain t1 where b: "begin_turn t = Inr (Some k, t1)"
    "rep t1 (?m (False # script)) (map fst q)" by blast
  have m: "?m (False # script) k = Some ((i, False # script), 1)" by simp
  have p: "scripted_poll vt (i, False # script) (wk k) t1 log =
      Some (Inr (False, (i, script), t1, log @ [Polled i]))" by (simp add: scripted_poll_def Let_def)
  from turn_pending [where poll = "scripted_poll vt" and drop_fut = scripted_drop, OF b(2) m p b(2) m] obtain t3
    where tn: "turn (poll_task (scripted_poll vt)) (complete scripted_drop) k t1 log =
      Some (Inr (t3, log @ [Polled i]))" and "rep t3 ((?m (False # script))(k \<mapsto> ((i, script), 1))) (map fst q)"
    by blast
  then have "rep t3 (s(k \<mapsto> ((i, script), 1)) ++ queued q) (map fst q)"
    using k by (simp add: map_add_upd_left)
  moreover have "dom (s(k \<mapsto> ((i, script), 1))) \<inter> fst ` set q = {}" using "4.prems"(2) k by simp
  ultimately show ?case using "4.IH" b(1) tn
    by (auto simp: process_loop_eq [of _ _ _ t] simp del: fun_upd_apply)
qed

lemma wake_all_ok:
  assumes "rep t m xs" and "set ks \<subseteq> dom m"
  shows "\<exists>t'. wake_all vt wk ks t = Inr t' \<and> rep t' m (fold sched_wake ks xs)"
  using assms
proof (induction ks arbitrary: t xs)
  case (Cons k ks)
  then obtain a where "m k = Some a" by auto
  from wake_ref [OF Cons.prems(1) this] obtain t1 where "vt_wake_by_ref vt (wk k) t = Inr t1"
    "rep t1 m (sched_wake k xs)" by blast
  with Cons.IH [OF this(2)] Cons.prems(2) show ?case by auto
qed simp

lemma run_lives:
  assumes "lives wakes q s log r"
    and "rep t (s ++ queued q) (map fst q)" and "dom s \<inter> fst ` set q = {}" and "unshared s"
    and process: "process = process_loop begin_turn (poll_task (scripted_poll vt)) (complete scripted_drop)"
  shows "case r of
      Inl e \<Rightarrow> executor_run process is_empty (scripted_park vt wk wakes) t log = Some (Inl e)
    | Inr log' \<Rightarrow> \<exists>t'. executor_run process is_empty (scripted_park vt wk wakes) t log =
        Some (Inr (t', log')) \<and> rep t' Map.empty []"
  using assms(1-4)
proof (induction arbitrary: t)
  case (lives_end q s log s' log')
  with process_rounds [OF lives_end.prems(1,2), of log] show ?case
    by (auto simp: executor_run.simps [of process is_empty _ t] empty_iff process [symmetric])
next
  case (lives_fail q s log s' log')
  with process_rounds [OF lives_fail.prems(1,2), of log] show ?case
    by (auto simp: executor_run.simps [of process is_empty _ t] empty_iff process [symmetric]
        scripted_park_def)
next
  case (lives_wait q s log s' log' ks r)
  from process_rounds [OF lives_wait.prems(1,2), of log] lives_wait.hyps(1) process
  obtain t1 where t1: "process t log = Some (Inr (t1, log'))" "rep t1 s' []" by auto
  from wake_all_ok [OF t1(2) lives_wait.hyps(4)] obtain t2
    where t2: "wake_all vt wk ks t1 = Inr t2" "rep t2 s' (fold sched_wake ks [])" by blast
  have u: "unshared s'" by (rule unshared_rounds [OF lives_wait.hyps(1) lives_wait.prems(3)])
  have "rep t2 ((s' |` (- set ks)) ++ queued (woken s' ks)) (map fst (woken s' ks))"
    using t2(2) by (simp only: woken_stored [OF u lives_wait.hyps(4)] woken_keys)
  moreover have "dom (s' |` (- set ks)) \<inter> fst ` set (woken s' ks) = {}" by (auto simp: woken_def)
  moreover have "unshared (s' |` (- set ks))" using u by simp
  ultimately have "case r of
      Inl e \<Rightarrow> executor_run process is_empty (scripted_park vt wk wakes) t2 (log' @ [Parked]) = Some (Inl e)
    | Inr log'' \<Rightarrow> \<exists>t'. executor_run process is_empty (scripted_park vt wk wakes) t2 (log' @ [Parked]) =
        Some (Inr (t', log'')) \<and> rep t' Map.empty []" by (rule lives_wait.IH)
  moreover have "executor_run process is_empty (scripted_park vt wk wakes) t log =
      executor_run process is_empty (scripted_park vt wk wakes) t2 (log' @ [Parked])"
    using t1 t2(1) lives_wait.hyps(2,3)
    by (simp add: executor_run.simps [of process is_empty _ t] empty_iff [OF t1(2)] scripted_park_def)
  ultimately show ?case by (simp only:)
qed

end

end
