(* ===== verification/Fake_IO.thy ===== *)
theory Fake_IO
  imports Slab_Interface
begin

section \<open>Fake I/O objects and the poller (src/src/fakeio.rs)\<close>

text \<open>
  The streams and the listener do no I/O: each counts its calls and refuses every odd one
  with \<open>WouldBlock\<close>. \<open>Poll\<close> keeps the registered handles in a slab and reports every one of
  them at each poll. All of them report each call to a \<open>Stats\<close> object they share; the trait
  \<open>Stats\<close> is the parameter \<open>inc\<close>, its contract the locale \<open>stats_trait\<close>. The trait
  \<open>Evented\<close> is the dictionary \<open>evented\<close>.
\<close>

datatype stats_type = Register | Unregister | Poll | Accept | Read | Write

datatype io_error = WouldBlock | WriteZero

record 'e evented =
  set_poll_index :: "nat option \<Rightarrow> 'e \<Rightarrow> 'e"
  get_poll_index :: "'e \<Rightarrow> nat option"

subsection \<open>Streams\<close>

record fake_stream =
  fs_poll_index :: "nat option"
  fs_calls :: usize

definition fake_stream_new :: fake_stream where
  "fake_stream_new = \<lparr>fs_poll_index = None, fs_calls = 0\<rparr>"

definition hello_world :: "u8 list" where
  "hello_world = [104, 101, 108, 108, 111, 32, 119, 111, 114, 108, 100, 10]"

definition fake_stream_read ::
  "(stats_type \<Rightarrow> 't \<Rightarrow> 't res) \<Rightarrow> fake_stream \<Rightarrow> u8 list \<Rightarrow> 't \<Rightarrow>
     ((io_error + nat) \<times> fake_stream \<times> u8 list \<times> 't) res" where
  "fake_stream_read inc s buf st =
     and_then (inc Read st) (\<lambda>st.
     let s = s\<lparr>fs_calls := fs_calls s + 1\<rparr> in
     if fs_calls s mod 2 = 1 then Inr (Inl WouldBlock, s, buf, st)
     else
       let data = hello_world in
       and_then (ensure Assert_panic (length buf \<ge> length data)) (\<lambda>_.
       Inr (Inr (length data), s, data @ drop (length data) buf, st)))"

definition fake_stream_write ::
  "(stats_type \<Rightarrow> 't \<Rightarrow> 't res) \<Rightarrow> fake_stream \<Rightarrow> u8 list \<Rightarrow> 't \<Rightarrow>
     ((io_error + nat) \<times> fake_stream \<times> 't) res" where
  "fake_stream_write inc s buf st =
     and_then (inc Write st) (\<lambda>st.
     let s = s\<lparr>fs_calls := fs_calls s + 1\<rparr> in
     if fs_calls s mod 2 = 1 then Inr (Inl WouldBlock, s, st)
     else Inr (Inr (length buf), s, st))"

definition fake_stream_flush :: "fake_stream \<Rightarrow> io_error + unit" where
  "fake_stream_flush s = Inr ()"

definition stream_evented :: "fake_stream evented" where
  "stream_evented =
     \<lparr>set_poll_index = (\<lambda>index s. s\<lparr>fs_poll_index := index\<rparr>),
      get_poll_index = fs_poll_index\<rparr>"

subsection \<open>The listener\<close>

record fake_listener =
  fl_poll_index :: "nat option"
  fl_calls :: usize

definition fake_listener_new :: fake_listener where
  "fake_listener_new = \<lparr>fl_poll_index = None, fl_calls = 0\<rparr>"

definition fake_listener_accept ::
  "(stats_type \<Rightarrow> 't \<Rightarrow> 't res) \<Rightarrow> fake_listener \<Rightarrow> 't \<Rightarrow>
     ((io_error + fake_stream) \<times> fake_listener \<times> 't) res" where
  "fake_listener_accept inc l st =
     and_then (inc Accept st) (\<lambda>st.
     let l = l\<lparr>fl_calls := fl_calls l + 1\<rparr> in
     if fl_calls l mod 2 = 1 then Inr (Inl WouldBlock, l, st)
     else Inr (Inr fake_stream_new, l, st))"

definition listener_evented :: "fake_listener evented" where
  "listener_evented =
     \<lparr>set_poll_index = (\<lambda>index l. l\<lparr>fl_poll_index := index\<rparr>),
      get_poll_index = fl_poll_index\<rparr>"

subsection \<open>The poller\<close>

definition READABLE :: u8 where "READABLE = 1"
definition WRITABLE :: u8 where "WRITABLE = 2"

record 'i fake_poll =
  poll_items :: 'i

definition poll_new :: "('i, u8 \<times> nat) slab_ops \<Rightarrow> nat \<Rightarrow> 'i fake_poll" where
  "poll_new P capacity = \<lparr>poll_items = with_capacity P capacity\<rparr>"

definition poll_register ::
  "('i, u8 \<times> nat) slab_ops \<Rightarrow> (stats_type \<Rightarrow> 't \<Rightarrow> 't res) \<Rightarrow> 'e evented \<Rightarrow>
     'i fake_poll \<Rightarrow> 'e \<Rightarrow> nat \<Rightarrow> u8 \<Rightarrow> 't \<Rightarrow> ('i fake_poll \<times> 'e \<times> 't) res" where
  "poll_register P inc E p handle key interest st =
     and_then (inc Register st) (\<lambda>st.
     let (index, items) = slab_add P (poll_items p) (interest, key);
         handle = set_poll_index E (Some index) handle
     in Inr (p\<lparr>poll_items := items\<rparr>, handle, st))"

definition poll_unregister ::
  "('i, u8 \<times> nat) slab_ops \<Rightarrow> (stats_type \<Rightarrow> 't \<Rightarrow> 't res) \<Rightarrow> 'e evented \<Rightarrow>
     'i fake_poll \<Rightarrow> 'e \<Rightarrow> 't \<Rightarrow> ('i fake_poll \<times> 'e \<times> 't) res" where
  "poll_unregister P inc E p handle st =
     and_then (inc Unregister st) (\<lambda>st.
     case get_poll_index E handle of
       Some index \<Rightarrow>
         and_then (slab_take P (poll_items p) index) (\<lambda>(_, items).
         Inr (p\<lparr>poll_items := items\<rparr>, set_poll_index E None handle, st))
     | None \<Rightarrow> Inr (p, handle, st))"

definition poll_poll ::
  "('i, u8 \<times> nat) slab_ops \<Rightarrow> ('v, nat \<times> u8) slab_ops \<Rightarrow> (stats_type \<Rightarrow> 't \<Rightarrow> 't res) \<Rightarrow>
     'i fake_poll \<Rightarrow> 'v \<Rightarrow> 't \<Rightarrow> ('v \<times> 't) res" where
  "poll_poll P V inc p events st =
     and_then (inc Poll st) (\<lambda>st.
     let events = slab_clear V events;
         events =
           foldl (\<lambda>events (_, (interest, key)). snd (slab_add V events (key, interest)))
             events (slab_iter P (poll_items p))
     in Inr (events, st))"

definition poll_drop :: "('i, u8 \<times> nat) slab_ops \<Rightarrow> 'i fake_poll \<Rightarrow> unit res" where
  "poll_drop P p = ensure Assert_panic (slab_empty P (poll_items p))"

subsection \<open>Parity of the call counters\<close>

lemma usize_odd_iff [simp]: "(x :: usize) mod 2 = 1 \<longleftrightarrow> odd x"
  by (simp add: odd_iff_mod_2_eq_one)

lemma hello_world_length [simp]: "length hello_world = 12"
  by (simp add: hello_world_def)

lemma hello_world_newline [simp]: "10 \<in> set hello_world"
  by (simp add: hello_world_def)

text \<open>
  A stream answers exactly every second call, whichever of its two operations is called:
  this is what bounds every retry loop of the program. The counter may wrap around, which
  keeps the parity.
\<close>

lemma fake_stream_read_Inr_iff [res_iff]:
  "fake_stream_read inc s buf st = Inr (r, s', buf', st') \<longleftrightarrow>
     inc Read st = Inr st' \<and> s' = s\<lparr>fs_calls := fs_calls s + 1\<rparr> \<and>
     (if even (fs_calls s) then r = Inl WouldBlock \<and> buf' = buf
      else 12 \<le> length buf \<and> r = Inr 12 \<and> buf' = hello_world @ drop 12 buf)"
  by (auto simp: fake_stream_read_def res_iff Let_def)

lemma fake_stream_write_Inr_iff [res_iff]:
  "fake_stream_write inc s buf st = Inr (r, s', st') \<longleftrightarrow>
     inc Write st = Inr st' \<and> s' = s\<lparr>fs_calls := fs_calls s + 1\<rparr> \<and>
     r = (if even (fs_calls s) then Inl WouldBlock else Inr (length buf))"
  by (auto simp: fake_stream_write_def res_iff Let_def)

lemma fake_listener_accept_Inr_iff [res_iff]:
  "fake_listener_accept inc l st = Inr (r, l', st') \<longleftrightarrow>
     inc Accept st = Inr st' \<and> l' = l\<lparr>fl_calls := fl_calls l + 1\<rparr> \<and>
     r = (if even (fl_calls l) then Inl WouldBlock else Inr fake_stream_new)"
  by (auto simp: fake_listener_accept_def res_iff Let_def)

lemma stream_evented_simps [simp]:
  "set_poll_index stream_evented i s = s\<lparr>fs_poll_index := i\<rparr>"
  "get_poll_index stream_evented s = fs_poll_index s"
  by (simp_all add: stream_evented_def)

lemma listener_evented_simps [simp]:
  "set_poll_index listener_evented i l = l\<lparr>fl_poll_index := i\<rparr>"
  "get_poll_index listener_evented l = fl_poll_index l"
  by (simp_all add: listener_evented_def)

lemma poll_events_fold:
  assumes "slab_ok V"
  shows "slab_values V
      (foldl (\<lambda>events (_, (interest, key)). snd (slab_add V events (key, interest))) events its) =
    slab_values V events + mset (map (\<lambda>(_, (interest, key)). (key, interest)) its)"
proof (induction its arbitrary: events)
  case (Cons it its)
  then show ?case
    by (cases it) (simp add: slab_add_def slab_values_insert [OF assms])
qed simp

text \<open>
  After a poll the events are exactly the registered interests, each handle once; events of
  an earlier poll are gone.
\<close>

lemma poll_poll_events:
  assumes "slab_ok P" and "slab_ok V" and "poll_poll P V inc p events st = Inr (events', st')"
  shows "slab_values V events' =
    image_mset (\<lambda>(interest, key). (key, interest)) (slab_values P (poll_items p))"
proof -
  have "(\<lambda>(_ :: nat, (interest :: u8, key :: nat)). (key, interest)) =
      (\<lambda>(interest, key). (key, interest)) \<circ> snd"
    by auto
  then show ?thesis
    using assms(3)
    by (auto simp: poll_poll_def res_iff Let_def poll_events_fold [OF assms(2)]
        slab_values_clear [OF assms(2)] slab_values_def [of P] multiset.map_comp)
qed

subsection \<open>The contract of the trait \<open>Stats\<close>\<close>

text \<open>
  \<open>inc\<close> adds one to the counter of its argument, modulo \<open>2 ^ 32\<close>, and to no other, in every
  state the predicate \<open>ready\<close> admits; it does not panic there and keeps \<open>ready\<close>. Inside the
  locale every I/O operation is shown to make exactly one report and never to panic on a
  well-formed argument.
\<close>

text \<open>How many calls of each kind an operation makes, in the order of \<open>stats_type\<close>.\<close>

fun tally :: "nat \<Rightarrow> nat \<Rightarrow> nat \<Rightarrow> nat \<Rightarrow> nat \<Rightarrow> nat \<Rightarrow> stats_type \<Rightarrow> nat" where
  "tally g u p a r w Register = g"
| "tally g u p a r w Unregister = u"
| "tally g u p a r w Poll = p"
| "tally g u p a r w Accept = a"
| "tally g u p a r w Read = r"
| "tally g u p a r w Write = w"

lemma tally_add: "tally g u p a r w t + tally g' u' p' a' r' w' t =
    tally (g + g') (u + u') (p + p') (a + a') (r + r') (w + w') t"
  by (cases t) simp_all

lemma tally_zero: "tally 0 0 0 0 0 0 = (\<lambda>_. 0)"
proof
  fix t show "tally 0 0 0 0 0 0 t = 0" by (cases t) simp_all
qed

text \<open>A sequence of reports.\<close>

fun inc_all :: "(stats_type \<Rightarrow> 't \<Rightarrow> 't res) \<Rightarrow> stats_type list \<Rightarrow> 't \<Rightarrow> 't res" where
  "inc_all inc [] st = Inr st"
| "inc_all inc (t # ts) st = and_then (inc t st) (inc_all inc ts)"

lemma inc_all_append: "inc_all inc (ts @ ts') st = and_then (inc_all inc ts st) (inc_all inc ts')"
  by (induction ts arbitrary: st) (simp_all add: and_then_assoc cong: and_then_cong)

lemma length_by_type: "length ts = count_list ts Register + count_list ts Unregister + count_list ts Poll +
    count_list ts Accept + count_list ts Read + count_list ts Write"
proof (induction ts)
  case (Cons t ts)
  then show ?case by (cases t) simp_all
qed simp

locale stats_trait =
  fixes inc :: "stats_type \<Rightarrow> 't \<Rightarrow> 't res"
    and ready :: "'t \<Rightarrow> bool"
    and count :: "'t \<Rightarrow> stats_type \<Rightarrow> u32"
  assumes inc_counts:
    "ready st \<Longrightarrow>
       \<exists>st'. inc t st = Inr st' \<and> ready st' \<and> count st' = (count st)(t := count st t + 1)"
begin

definition reported :: "'t \<Rightarrow> stats_type \<Rightarrow> 't \<Rightarrow> bool" where
  "reported st t st' \<longleftrightarrow> inc t st = Inr st' \<and> ready st' \<and>
     count st' = (count st)(t := count st t + 1)"

lemma reported_inc: "reported st t st' \<Longrightarrow> inc t st = Inr st'"
  and reported_ready: "reported st t st' \<Longrightarrow> ready st'"
  and reported_count: "reported st t st' \<Longrightarrow> count st' = (count st)(t := count st t + 1)"
  by (simp_all add: reported_def)

text \<open>
  \<open>advanced st k st'\<close>: the second state is what so many reports as \<open>k\<close> says, in some order, make
  of the first, and each counter grew by their number.
\<close>

definition advanced :: "'t \<Rightarrow> (stats_type \<Rightarrow> nat) \<Rightarrow> 't \<Rightarrow> bool" where
  "advanced st k st' \<longleftrightarrow> ready st' \<and> (\<forall>t. count st' t = count st t + of_nat (k t)) \<and>
     (\<exists>ts. inc_all inc ts st = Inr st' \<and> count_list ts = k)"

lemma advanced_ready: "advanced st k st' \<Longrightarrow> ready st'"
  and advanced_count: "advanced st k st' \<Longrightarrow> count st' t = count st t + of_nat (k t)"
  and advanced_calls: "advanced st k st' \<Longrightarrow> \<exists>ts. inc_all inc ts st = Inr st' \<and> count_list ts = k"
  by (simp_all add: advanced_def)

lemma advanced_none: "ready st \<Longrightarrow> advanced st (\<lambda>_. 0) st"
  by (auto simp: advanced_def intro!: exI [of _ "[]"])

lemma advanced_plus:
  assumes "advanced st k st1" and "advanced st1 k' st2"
  shows "advanced st (\<lambda>t. k t + k' t) st2"
proof -
  from assms obtain ts ts' where "inc_all inc ts st = Inr st1" "count_list ts = k"
    "inc_all inc ts' st1 = Inr st2" "count_list ts' = k'" by (auto dest!: advanced_calls)
  then have "inc_all inc (ts @ ts') st = Inr st2 \<and> count_list (ts @ ts') = (\<lambda>t. k t + k' t)"
    by (simp add: inc_all_append fun_eq_iff)
  then show ?thesis
    using advanced_ready [OF assms(2)] advanced_count [OF assms(1)] advanced_count [OF assms(2)]
    by (auto simp: advanced_def add.assoc)
qed

lemma advanced_refl: "ready st \<Longrightarrow> advanced st (tally 0 0 0 0 0 0) st"
  using advanced_none by (simp add: tally_zero)

lemma advanced_trans:
  "advanced st (tally g u p a r w) st1 \<Longrightarrow> advanced st1 (tally g' u' p' a' r' w') st2 \<Longrightarrow>
     advanced st (tally (g + g') (u + u') (p + p') (a + a') (r + r') (w + w')) st2"
  by (drule (1) advanced_plus) (simp add: tally_add)

lemma advanced_eq:
  "advanced st (tally g u p a r w) st' \<Longrightarrow> g = g' \<Longrightarrow> u = u' \<Longrightarrow> p = p' \<Longrightarrow> a = a' \<Longrightarrow> r = r' \<Longrightarrow>
     w = w' \<Longrightarrow> advanced st (tally g' u' p' a' r' w') st'"
  by simp

lemma reported_advanced:
  "reported st Register st' \<Longrightarrow> advanced st (tally 1 0 0 0 0 0) st'"
  "reported st Unregister st' \<Longrightarrow> advanced st (tally 0 1 0 0 0 0) st'"
  "reported st Poll st' \<Longrightarrow> advanced st (tally 0 0 1 0 0 0) st'"
  "reported st Accept st' \<Longrightarrow> advanced st (tally 0 0 0 1 0 0) st'"
  "reported st Read st' \<Longrightarrow> advanced st (tally 0 0 0 0 1 0) st'"
  "reported st Write st' \<Longrightarrow> advanced st (tally 0 0 0 0 0 1) st'"
proof -
  have one: "advanced st k st'" if "reported st t st'" "k = (\<lambda>_. 0)(t := 1)" for t k
    using that by (auto simp: advanced_def reported_def intro!: exI [of _ "[t]"])
  have tick: "tally 1 0 0 0 0 0 = (\<lambda>_. 0)(Register := 1)"
    "tally 0 1 0 0 0 0 = (\<lambda>_. 0)(Unregister := 1)" "tally 0 0 1 0 0 0 = (\<lambda>_. 0)(Poll := 1)"
    "tally 0 0 0 1 0 0 = (\<lambda>_. 0)(Accept := 1)" "tally 0 0 0 0 1 0 = (\<lambda>_. 0)(Read := 1)"
    "tally 0 0 0 0 0 1 = (\<lambda>_. 0)(Write := 1)"
    by (rule ext, rename_tac t, case_tac t; simp)+
  show "reported st Register st' \<Longrightarrow> advanced st (tally 1 0 0 0 0 0) st'"
    "reported st Unregister st' \<Longrightarrow> advanced st (tally 0 1 0 0 0 0) st'"
    "reported st Poll st' \<Longrightarrow> advanced st (tally 0 0 1 0 0 0) st'"
    "reported st Accept st' \<Longrightarrow> advanced st (tally 0 0 0 1 0 0) st'"
    "reported st Read st' \<Longrightarrow> advanced st (tally 0 0 0 0 1 0) st'"
    "reported st Write st' \<Longrightarrow> advanced st (tally 0 0 0 0 0 1) st'"
    using tick by (blast intro: one)+
qed

lemma read_blocks:
  assumes "ready st" and "even (fs_calls s)"
  shows "\<exists>st'. fake_stream_read inc s buf st =
    Inr (Inl WouldBlock, s\<lparr>fs_calls := fs_calls s + 1\<rparr>, buf, st') \<and> reported st Read st'"
  using inc_counts [OF assms(1), of Read] assms(2) by (auto simp: reported_def res_iff)

lemma read_answers:
  assumes "ready st" and "odd (fs_calls s)" and "12 \<le> length buf"
  shows "\<exists>st'. fake_stream_read inc s buf st =
    Inr (Inr 12, s\<lparr>fs_calls := fs_calls s + 1\<rparr>, hello_world @ drop 12 buf, st') \<and>
    reported st Read st'"
  using inc_counts [OF assms(1), of Read] assms(2,3) by (auto simp: reported_def res_iff)

lemma write_blocks:
  assumes "ready st" and "even (fs_calls s)"
  shows "\<exists>st'. fake_stream_write inc s buf st =
    Inr (Inl WouldBlock, s\<lparr>fs_calls := fs_calls s + 1\<rparr>, st') \<and> reported st Write st'"
  using inc_counts [OF assms(1), of Write] assms(2) by (auto simp: reported_def res_iff)

lemma write_answers:
  assumes "ready st" and "odd (fs_calls s)"
  shows "\<exists>st'. fake_stream_write inc s buf st =
    Inr (Inr (length buf), s\<lparr>fs_calls := fs_calls s + 1\<rparr>, st') \<and> reported st Write st'"
  using inc_counts [OF assms(1), of Write] assms(2) by (auto simp: reported_def res_iff)

lemma accept_blocks:
  assumes "ready st" and "even (fl_calls l)"
  shows "\<exists>st'. fake_listener_accept inc l st =
    Inr (Inl WouldBlock, l\<lparr>fl_calls := fl_calls l + 1\<rparr>, st') \<and> reported st Accept st'"
  using inc_counts [OF assms(1), of Accept] assms(2) by (auto simp: reported_def res_iff)

lemma accept_answers:
  assumes "ready st" and "odd (fl_calls l)"
  shows "\<exists>st'. fake_listener_accept inc l st =
    Inr (Inr fake_stream_new, l\<lparr>fl_calls := fl_calls l + 1\<rparr>, st') \<and> reported st Accept st'"
  using inc_counts [OF assms(1), of Accept] assms(2) by (auto simp: reported_def res_iff)

lemma register_adds:
  assumes "ready st"
  shows "\<exists>st'. poll_register P inc E p h key interest st =
      Inr (p\<lparr>poll_items := slab_insert P (poll_items p) (interest, key)\<rparr>,
           set_poll_index E (Some (vacant_key P (poll_items p))) h, st') \<and>
    reported st Register st'"
  using inc_counts [OF assms, of Register]
  by (auto simp: reported_def poll_register_def slab_add_def)

lemma unregister_removes:
  assumes "ready st" and "get_poll_index E h = Some index"
    and "im_get P (poll_items p) index = Some v"
  shows "\<exists>st'. poll_unregister P inc E p h st =
      Inr (p\<lparr>poll_items := slab_remove P (poll_items p) index\<rparr>, set_poll_index E None h, st') \<and>
    reported st Unregister st'"
  using inc_counts [OF assms(1), of Unregister] assms(2,3)
  by (auto simp: reported_def poll_unregister_def)

lemma unregister_twice:
  assumes "ready st" and "get_poll_index E h = None"
  shows "\<exists>st'. poll_unregister P inc E p h st = Inr (p, h, st') \<and> reported st Unregister st'"
  using inc_counts [OF assms(1), of Unregister] assms(2)
  by (auto simp: reported_def poll_unregister_def)

lemma poll_reports:
  assumes "ready st" and "slab_ok P" and "slab_ok V"
  shows "\<exists>events' st'. poll_poll P V inc p events st = Inr (events', st') \<and>
    reported st Poll st' \<and>
    slab_values V events' =
      image_mset (\<lambda>(interest, key). (key, interest)) (slab_values P (poll_items p))"
proof -
  obtain st' where "inc Poll st = Inr st'" "reported st Poll st'"
    using inc_counts [OF assms(1), of Poll] by (auto simp: reported_def)
  then obtain events' where e: "poll_poll P V inc p events st = Inr (events', st')"
    by (simp add: poll_poll_def Let_def)
  from poll_poll_events [OF assms(2,3) e] e \<open>reported st Poll st'\<close> show ?thesis by auto
qed

end

end
