(* ===== verification/Reactor.thy ===== *)
theory Reactor
  imports Executor_Contract Fake_IO
begin

section \<open>The reactor and the I/O futures (src/src/future.rs)\<close>

text \<open>
  The reactor keeps a slab of registrations, each with a readiness flag and at most one waker,
  next to the poller of \<open>fakeio\<close>. A future for a read, a write or an accept leaves its waker in
  the registration, tries the call while the flag is set, and clears the flag when the call would
  block; a poll of the reactor sets the flag of every key reported and consumes its waker.

  A waker is the data pointer it was made with; its table is the parameter \<open>vt\<close>, over the state
  \<open>'t\<close> of the executor it belongs to. \<open>reactor_lib\<close> bundles what is not part of the repository:
  the three slabs and \<open>Waker::will_wake\<close>, which may answer \<open>false\<close> for equal wakers.
  A reference to the reactor is not a value of the model: there is one reactor, in \<open>io_world\<close>
  with the counters of the program and \<open>io_links\<close>, the memory of the spawner where there is one.
\<close>

record event_registration =
  er_ready :: bool
  er_waker :: "nat option"

record ('r, 'v) reactor_data =
  registrations :: 'r
  reactor_events :: 'v

record ('r, 'v, 'p) fake_reactor =
  fr_data :: "('r, 'v) reactor_data ref_cell"
  fr_poll :: "'p fake_poll"

record ('r, 'v, 'p) reactor_lib =
  lib_regs :: "('r, event_registration) slab_ops"
  lib_events :: "('v, nat \<times> u8) slab_ops"
  lib_items :: "('p, u8 \<times> nat) slab_ops"
  lib_will_wake :: "nat \<Rightarrow> nat \<Rightarrow> bool"

record ('r, 'v, 'p, 's, 'l) io_world =
  io_reactor :: "('r, 'v, 'p) fake_reactor"
  io_stats :: 's
  io_links :: 'l

definition reactor_new ::
  "('r, 'v, 'p) reactor_lib \<Rightarrow> nat \<Rightarrow> ('r, 'v, 'p) fake_reactor" where
  "reactor_new E registrations_max =
     \<lparr>fr_data = ref_cell_new
        \<lparr>registrations = with_capacity (lib_regs E) registrations_max,
         reactor_events = with_capacity (lib_events E) 128\<rparr>,
      fr_poll = poll_new (lib_items E) 128\<rparr>"

text \<open>The borrows of the reactor's data; none of them is open while another one is made.\<close>

definition reactor_borrow ::
  "('r, 'v, 'p, 's, 'l) io_world \<Rightarrow> (('r, 'v) reactor_data \<Rightarrow> ('a \<times> ('r, 'v) reactor_data) res) \<Rightarrow>
     ('a \<times> ('r, 'v, 'p, 's, 'l) io_world) res" where
  "reactor_borrow w f =
     and_then (with_borrow (fr_data (io_reactor w)) f) (\<lambda>(a, data).
     Inr (a, w\<lparr>io_reactor := (io_reactor w)\<lparr>fr_data := data\<rparr>\<rparr>))"

subsection \<open>Registrations\<close>

definition reactor_register ::
  "('r, 'v, 'p) reactor_lib \<Rightarrow> (stats_type \<Rightarrow> 's \<Rightarrow> 's res) \<Rightarrow> 'e evented \<Rightarrow> 'e \<Rightarrow> u8 \<Rightarrow>
     ('r, 'v, 'p, 's, 'l) io_world \<Rightarrow>
     ((io_error + nat) \<times> 'e \<times> ('r, 'v, 'p, 's, 'l) io_world) res" where
  "reactor_register E inc T handle interest w =
     and_then (borrow (fr_data (io_reactor w))) (\<lambda>data.
     if slab_len (lib_regs E) (registrations data) = slab_capacity (lib_regs E) (registrations data)
     then Inr (Inl WriteZero, handle, w)
     else
       let (key, regs) =
         slab_add (lib_regs E) (registrations data) \<lparr>er_ready = False, er_waker = None\<rparr>
       in
       and_then (poll_register (lib_items E) inc T (fr_poll (io_reactor w)) handle key interest
           (io_stats w)) (\<lambda>(poll, handle, st).
       Inr (Inr key, handle,
         w\<lparr>io_reactor := \<lparr>fr_data = (fr_data (io_reactor w))
              \<lparr>cell_data := data\<lparr>registrations := regs\<rparr>\<rparr>, fr_poll = poll\<rparr>,
           io_stats := st\<rparr>)))"

definition reg_is_ready ::
  "('r, 'v, 'p) reactor_lib \<Rightarrow> nat \<Rightarrow> ('r, 'v, 'p, 's, 'l) io_world \<Rightarrow> bool res" where
  "reg_is_ready E key w =
     and_then (borrow (fr_data (io_reactor w))) (\<lambda>data.
     and_then (index_at (lib_regs E) (registrations data) key) (\<lambda>event_reg.
     Inr (er_ready event_reg)))"

definition reg_set_ready ::
  "('r, 'v, 'p) reactor_lib \<Rightarrow> nat \<Rightarrow> bool \<Rightarrow> ('r, 'v, 'p, 's, 'l) io_world \<Rightarrow>
     ('r, 'v, 'p, 's, 'l) io_world res" where
  "reg_set_ready E key ready w =
     and_then
       (reactor_borrow w (\<lambda>data.
          and_then (modify_at (lib_regs E) (registrations data) key (\<lambda>r. r\<lparr>er_ready := ready\<rparr>)) (\<lambda>regs.
          Inr ((), data\<lparr>registrations := regs\<rparr>)))) (\<lambda>(_, w).
     Inr w)"

text \<open>An \<open>Option<Waker>\<close> that goes out of scope.\<close>

definition waker_drop :: "(nat, 't) raw_vtable \<Rightarrow> nat option \<Rightarrow> 't \<Rightarrow> 't res" where
  "waker_drop vt waker t =
     (case waker of Some p \<Rightarrow> vt_drop vt p t | None \<Rightarrow> Inr t)"

definition reg_bind_waker ::
  "('r, 'v, 'p) reactor_lib \<Rightarrow> (nat, 't) raw_vtable \<Rightarrow> nat \<Rightarrow> nat \<Rightarrow> 't \<Rightarrow>
     ('r, 'v, 'p, 's, 'l) io_world \<Rightarrow> ('t \<times> ('r, 'v, 'p, 's, 'l) io_world) res" where
  "reg_bind_waker E vt key waker t w =
     reactor_borrow w (\<lambda>data.
       and_then (index_at (lib_regs E) (registrations data) key) (\<lambda>event_reg.
       let keep = (case er_waker event_reg of
           Some current_waker \<Rightarrow> lib_will_wake E current_waker waker
         | None \<Rightarrow> False)
       in
       if keep then Inr (t, data)
       else
         and_then (vt_clone vt waker t) (\<lambda>(cloned, t).
         and_then (waker_drop vt (er_waker event_reg) t) (\<lambda>t.
         Inr (t, data\<lparr>registrations := im_set (lib_regs E) (registrations data) key
           (event_reg\<lparr>er_waker := Some cloned\<rparr>)\<rparr>)))))"

definition reg_unbind_waker ::
  "('r, 'v, 'p) reactor_lib \<Rightarrow> (nat, 't) raw_vtable \<Rightarrow> nat \<Rightarrow> 't \<Rightarrow>
     ('r, 'v, 'p, 's, 'l) io_world \<Rightarrow> ('t \<times> ('r, 'v, 'p, 's, 'l) io_world) res" where
  "reg_unbind_waker E vt key t w =
     reactor_borrow w (\<lambda>data.
       and_then (index_at (lib_regs E) (registrations data) key) (\<lambda>event_reg.
       and_then (waker_drop vt (er_waker event_reg) t) (\<lambda>t.
       Inr (t, data\<lparr>registrations := im_set (lib_regs E) (registrations data) key
         (event_reg\<lparr>er_waker := None\<rparr>)\<rparr>))))"

definition reg_handle_drop ::
  "('r, 'v, 'p) reactor_lib \<Rightarrow> (nat, 't) raw_vtable \<Rightarrow> nat \<Rightarrow> 't \<Rightarrow>
     ('r, 'v, 'p, 's, 'l) io_world \<Rightarrow> ('t \<times> ('r, 'v, 'p, 's, 'l) io_world) res" where
  "reg_handle_drop E vt key t w =
     reactor_borrow w (\<lambda>data.
       and_then (slab_take (lib_regs E) (registrations data) key) (\<lambda>(event_reg, regs).
       and_then (waker_drop vt (er_waker event_reg) t) (\<lambda>t.
       Inr (t, data\<lparr>registrations := regs\<rparr>))))"

subsection \<open>Polling the reactor\<close>

fun deliver ::
  "('r, event_registration) slab_ops \<Rightarrow> (nat, 't) raw_vtable \<Rightarrow> (nat \<times> nat \<times> u8) list \<Rightarrow> 'r \<Rightarrow> 't \<Rightarrow>
     ('r \<times> 't) res" where
  "deliver R vt [] regs t = Inr (regs, t)"
| "deliver R vt ((_, key, _) # events) regs t =
     (case im_get R regs key of
        Some event_reg \<Rightarrow>
          let event_reg = event_reg\<lparr>er_ready := True\<rparr> in
          (case er_waker event_reg of
             Some waker \<Rightarrow>
               and_then (vt_wake vt waker t) (\<lambda>t.
               deliver R vt events (im_set R regs key (event_reg\<lparr>er_waker := None\<rparr>)) t)
           | None \<Rightarrow> deliver R vt events (im_set R regs key event_reg) t)
      | None \<Rightarrow> deliver R vt events regs t)"

definition reactor_poll ::
  "('r, 'v, 'p) reactor_lib \<Rightarrow> (stats_type \<Rightarrow> 's \<Rightarrow> 's res) \<Rightarrow> (nat, 't) raw_vtable \<Rightarrow>
     ('t, ('r, 'v, 'p, 's, 'l) io_world, io_error) parking" where
  "reactor_poll E inc vt t w =
     and_then (borrow (fr_data (io_reactor w))) (\<lambda>data.
     and_then (poll_poll (lib_items E) (lib_events E) inc (fr_poll (io_reactor w))
         (reactor_events data) (io_stats w)) (\<lambda>(events, st).
     and_then (deliver (lib_regs E) vt (slab_iter (lib_events E) events) (registrations data) t)
         (\<lambda>(regs, t).
     Inr (Inr (), t,
       w\<lparr>io_reactor := (io_reactor w)\<lparr>fr_data := (fr_data (io_reactor w))
            \<lparr>cell_data := \<lparr>registrations = regs, reactor_events = events\<rparr>\<rparr>\<rparr>,
         io_stats := st\<rparr>))))"

definition reactor_unregister ::
  "('r, 'v, 'p) reactor_lib \<Rightarrow> (stats_type \<Rightarrow> 's \<Rightarrow> 's res) \<Rightarrow> 'e evented \<Rightarrow> 'e \<Rightarrow>
     ('r, 'v, 'p, 's, 'l) io_world \<Rightarrow> ('e \<times> ('r, 'v, 'p, 's, 'l) io_world) res" where
  "reactor_unregister E inc T handle w =
     and_then (poll_unregister (lib_items E) inc T (fr_poll (io_reactor w)) handle (io_stats w))
       (\<lambda>(poll, handle, st).
     Inr (handle, w\<lparr>io_reactor := (io_reactor w)\<lparr>fr_poll := poll\<rparr>, io_stats := st\<rparr>))"

text \<open>Dropping the reactor drops the wakers that are left, then the poller.\<close>

fun drop_registrations ::
  "(nat, 't) raw_vtable \<Rightarrow> (nat \<times> event_registration) list \<Rightarrow> 't \<Rightarrow> 't res" where
  "drop_registrations vt [] t = Inr t"
| "drop_registrations vt ((_, reg) # regs) t =
     and_then (waker_drop vt (er_waker reg) t) (drop_registrations vt regs)"

definition reactor_drop ::
  "('r, 'v, 'p) reactor_lib \<Rightarrow> (nat, 't) raw_vtable \<Rightarrow> 't \<Rightarrow> ('r, 'v, 'p) fake_reactor \<Rightarrow> 't res" where
  "reactor_drop E vt t r =
     and_then (drop_registrations vt (slab_iter (lib_regs E) (registrations (cell_data (fr_data r)))) t)
       (\<lambda>t.
     and_then (poll_drop (lib_items E) (fr_poll r)) (\<lambda>_. Inr t))"

subsection \<open>Asynchronous objects\<close>

record async_stream =
  as_inner :: fake_stream
  as_key :: nat

record async_listener =
  al_inner :: fake_listener
  al_key :: nat

definition async_stream_new ::
  "('r, 'v, 'p) reactor_lib \<Rightarrow> (stats_type \<Rightarrow> 's \<Rightarrow> 's res) \<Rightarrow> fake_stream \<Rightarrow>
     ('r, 'v, 'p, 's, 'l) io_world \<Rightarrow> (async_stream \<times> ('r, 'v, 'p, 's, 'l) io_world) res" where
  "async_stream_new E inc s w =
     and_then (reactor_register E inc stream_evented s (or READABLE WRITABLE) w) (\<lambda>(handle, s, w).
     case handle of
       Inl e \<Rightarrow> Inl Unwrap_panic
     | Inr key \<Rightarrow>
         and_then (reg_set_ready E key True w) (\<lambda>w.
         Inr (\<lparr>as_inner = s, as_key = key\<rparr>, w)))"

definition async_stream_drop ::
  "('r, 'v, 'p) reactor_lib \<Rightarrow> (stats_type \<Rightarrow> 's \<Rightarrow> 's res) \<Rightarrow> (nat, 't) raw_vtable \<Rightarrow>
     async_stream \<Rightarrow> 't \<Rightarrow> ('r, 'v, 'p, 's, 'l) io_world \<Rightarrow>
     ('t \<times> ('r, 'v, 'p, 's, 'l) io_world) res" where
  "async_stream_drop E inc vt s t w =
     and_then (reactor_unregister E inc stream_evented (as_inner s) w) (\<lambda>(_, w).
     reg_handle_drop E vt (as_key s) t w)"

definition async_listener_new ::
  "('r, 'v, 'p) reactor_lib \<Rightarrow> (stats_type \<Rightarrow> 's \<Rightarrow> 's res) \<Rightarrow>
     ('r, 'v, 'p, 's, 'l) io_world \<Rightarrow> (async_listener \<times> ('r, 'v, 'p, 's, 'l) io_world) res" where
  "async_listener_new E inc w =
     (let l = fake_listener_new in
      and_then (reactor_register E inc listener_evented l READABLE w) (\<lambda>(handle, l, w).
      case handle of
        Inl e \<Rightarrow> Inl Unwrap_panic
      | Inr key \<Rightarrow>
          and_then (reg_set_ready E key True w) (\<lambda>w.
          Inr (\<lparr>al_inner = l, al_key = key\<rparr>, w))))"

definition async_listener_drop ::
  "('r, 'v, 'p) reactor_lib \<Rightarrow> (stats_type \<Rightarrow> 's \<Rightarrow> 's res) \<Rightarrow> (nat, 't) raw_vtable \<Rightarrow>
     async_listener \<Rightarrow> 't \<Rightarrow> ('r, 'v, 'p, 's, 'l) io_world \<Rightarrow>
     ('t \<times> ('r, 'v, 'p, 's, 'l) io_world) res" where
  "async_listener_drop E inc vt l t w =
     and_then (reactor_unregister E inc listener_evented (al_inner l) w) (\<lambda>(_, w).
     reg_handle_drop E vt (al_key l) t w)"

subsection \<open>The three futures\<close>

text \<open>
  The futures for reads, writes and accepts are polled by the same steps around the call on the
  inner object \<open>obj\<close>. The result is \<open>None\<close> for \<open>Pending\<close>. Dropping any of them unbinds the
  waker of the registration.
\<close>

definition poll_io ::
  "('r, 'v, 'p) reactor_lib \<Rightarrow> (nat, 't) raw_vtable \<Rightarrow> nat \<Rightarrow> nat \<Rightarrow>
     ('o \<Rightarrow> 's \<Rightarrow> ((io_error + 'a) \<times> 'o \<times> 's) res) \<Rightarrow> 'o \<Rightarrow> 't \<Rightarrow>
     ('r, 'v, 'p, 's, 'l) io_world \<Rightarrow>
     ((io_error + 'a) option \<times> 'o \<times> 't \<times> ('r, 'v, 'p, 's, 'l) io_world) res" where
  "poll_io E vt key waker call obj t w =
     and_then (reg_bind_waker E vt key waker t w) (\<lambda>(t, w).
     and_then (reg_is_ready E key w) (\<lambda>ready.
     if \<not> ready then Inr (None, obj, t, w)
     else
       and_then (call obj (io_stats w)) (\<lambda>(r, obj, st).
       let w = w\<lparr>io_stats := st\<rparr> in
       case r of
         Inr a \<Rightarrow> Inr (Some (Inr a), obj, t, w)
       | Inl WouldBlock \<Rightarrow>
           and_then (reg_set_ready E key False w) (\<lambda>w. Inr (None, obj, t, w))
       | Inl e \<Rightarrow> Inr (Some (Inl e), obj, t, w))))"

definition read_future_poll ::
  "('r, 'v, 'p) reactor_lib \<Rightarrow> (stats_type \<Rightarrow> 's \<Rightarrow> 's res) \<Rightarrow> (nat, 't) raw_vtable \<Rightarrow>
     async_stream \<Rightarrow> u8 list \<Rightarrow> nat \<Rightarrow> 't \<Rightarrow> ('r, 'v, 'p, 's, 'l) io_world \<Rightarrow>
     ((io_error + nat) option \<times> async_stream \<times> u8 list \<times> 't \<times> ('r, 'v, 'p, 's, 'l) io_world) res" where
  "read_future_poll E inc vt s buf waker t w =
     and_then
       (poll_io E vt (as_key s) waker
          (\<lambda>(inner, buf) st.
             and_then (fake_stream_read inc inner buf st) (\<lambda>(r, inner, buf, st).
             Inr (r, (inner, buf), st)))
          (as_inner s, buf) t w) (\<lambda>(r, (inner, buf), t, w).
     Inr (r, s\<lparr>as_inner := inner\<rparr>, buf, t, w))"

definition write_future_poll ::
  "('r, 'v, 'p) reactor_lib \<Rightarrow> (stats_type \<Rightarrow> 's \<Rightarrow> 's res) \<Rightarrow> (nat, 't) raw_vtable \<Rightarrow>
     async_stream \<Rightarrow> u8 list \<Rightarrow> nat \<Rightarrow> 't \<Rightarrow> ('r, 'v, 'p, 's, 'l) io_world \<Rightarrow>
     ((io_error + nat) option \<times> async_stream \<times> 't \<times> ('r, 'v, 'p, 's, 'l) io_world) res" where
  "write_future_poll E inc vt s buf waker t w =
     and_then
       (poll_io E vt (as_key s) waker (\<lambda>inner st. fake_stream_write inc inner buf st)
          (as_inner s) t w) (\<lambda>(r, inner, t, w).
     Inr (r, s\<lparr>as_inner := inner\<rparr>, t, w))"

definition accept_future_poll ::
  "('r, 'v, 'p) reactor_lib \<Rightarrow> (stats_type \<Rightarrow> 's \<Rightarrow> 's res) \<Rightarrow> (nat, 't) raw_vtable \<Rightarrow>
     async_listener \<Rightarrow> nat \<Rightarrow> 't \<Rightarrow> ('r, 'v, 'p, 's, 'l) io_world \<Rightarrow>
     ((io_error + async_stream) option \<times> async_listener \<times> 't \<times> ('r, 'v, 'p, 's, 'l) io_world) res" where
  "accept_future_poll E inc vt l waker t w =
     and_then
       (poll_io E vt (al_key l) waker (fake_listener_accept inc) (al_inner l) t w) (\<lambda>(r, inner, t, w).
     let l = l\<lparr>al_inner := inner\<rparr> in
     case r of
       Some (Inr stream) \<Rightarrow>
         and_then (async_stream_new E inc stream w) (\<lambda>(s, w). Inr (Some (Inr s), l, t, w))
     | Some (Inl e) \<Rightarrow> Inr (Some (Inl e), l, t, w)
     | None \<Rightarrow> Inr (None, l, t, w))"

definition io_future_drop ::
  "('r, 'v, 'p) reactor_lib \<Rightarrow> (nat, 't) raw_vtable \<Rightarrow> nat \<Rightarrow> 't \<Rightarrow>
     ('r, 'v, 'p, 's, 'l) io_world \<Rightarrow> ('t \<times> ('r, 'v, 'p, 's, 'l) io_world) res" where
  "io_future_drop E vt key t w = reg_unbind_waker E vt key t w"

end
