(* ===== verification/Stats.thy ===== *)
theory Stats
  imports Fake_IO
begin

section \<open>The call counters (src/src/run.rs)\<close>

text \<open>
  \<open>Stats\<close> counts the calls of the fake I/O objects in 32-bit counters. With syscalls enabled
  every report first reads from an empty non-blocking pipe, to cost what a real call would.
  The libc functions are a parameter, the record \<open>libc\<close> over a state \<open>'w\<close> of the operating
  system; \<open>libc_ok\<close> is their documented behaviour on a pipe nobody writes to. The counters
  wrap around in the release build, which is what is modelled; the runs of the program stay
  far below the width.
\<close>

record 'w libc =
  libc_pipe :: "'w \<Rightarrow> int \<times> (int \<times> int) \<times> 'w"
  libc_set_nonblock :: "int \<Rightarrow> 'w \<Rightarrow> int \<times> 'w"
  libc_read1 :: "int \<Rightarrow> 'w \<Rightarrow> int \<times> 'w"
  libc_close :: "int \<Rightarrow> 'w \<Rightarrow> int \<times> 'w"

record stats_metrics =
  m_register :: u32
  m_unregister :: u32
  m_poll :: u32
  m_accept :: u32
  m_read :: u32
  m_write :: u32

text \<open>\<open>Display\<close>: the counters in decimal, most significant digit first.\<close>

fun decimal :: "nat \<Rightarrow> string" where
  "decimal n =
     (if n < 10 then [char_of (48 + n)] else decimal (n div 10) @ [char_of (48 + n mod 10)])"

declare decimal.simps [simp del]

definition stats_metrics_fmt :: "stats_metrics \<Rightarrow> string" where
  "stats_metrics_fmt m =
     ''register='' @ decimal (unat (m_register m)) @
     '' unregister='' @ decimal (unat (m_unregister m)) @
     '' poll='' @ decimal (unat (m_poll m)) @
     '' accept='' @ decimal (unat (m_accept m)) @
     '' read='' @ decimal (unat (m_read m)) @
     '' write='' @ decimal (unat (m_write m))"

record stats_data =
  metrics :: stats_metrics
  pipe_fds :: "(int \<times> int) option"

definition stats_data_new :: "'w libc \<Rightarrow> bool \<Rightarrow> 'w \<Rightarrow> (stats_data \<times> 'w) res" where
  "stats_data_new L syscalls w =
     and_then
       (if syscalls then
          let (ret, fds, w) = libc_pipe L w in
          and_then (ensure Assert_panic (ret = 0)) (\<lambda>_.
          let (ret, w) = libc_set_nonblock L (fst fds) w in
          and_then (ensure Assert_panic (ret = 0)) (\<lambda>_.
          Inr (Some fds, w)))
        else Inr (None, w)) (\<lambda>(fds, w).
     Inr (\<lparr>metrics = \<lparr>m_register = 0, m_unregister = 0, m_poll = 0, m_accept = 0,
             m_read = 0, m_write = 0\<rparr>,
           pipe_fds = fds\<rparr>, w))"

definition stats_do_call :: "'w libc \<Rightarrow> stats_data \<Rightarrow> 'w \<Rightarrow> 'w res" where
  "stats_do_call L d w =
     (case pipe_fds d of
        Some fds \<Rightarrow>
          let (ret, w) = libc_read1 L (fst fds) w in
          and_then (ensure Assert_panic (ret = -1)) (\<lambda>_. Inr w)
      | None \<Rightarrow> Inr w)"

definition stats_data_drop :: "'w libc \<Rightarrow> stats_data \<Rightarrow> 'w \<Rightarrow> 'w res" where
  "stats_data_drop L d w =
     (case pipe_fds d of
        Some fds \<Rightarrow>
          let (ret, w) = libc_close L (fst fds) w in
          and_then (ensure Assert_panic (ret = 0)) (\<lambda>_.
          let (ret, w) = libc_close L (snd fds) w in
          and_then (ensure Assert_panic (ret = 0)) (\<lambda>_. Inr w))
      | None \<Rightarrow> Inr w)"

definition stats_get :: "stats_data \<Rightarrow> stats_metrics" where
  "stats_get d = metrics d"

fun metrics_inc :: "stats_type \<Rightarrow> stats_metrics \<Rightarrow> stats_metrics" where
  "metrics_inc Register m = m\<lparr>m_register := m_register m + 1\<rparr>"
| "metrics_inc Unregister m = m\<lparr>m_unregister := m_unregister m + 1\<rparr>"
| "metrics_inc Poll m = m\<lparr>m_poll := m_poll m + 1\<rparr>"
| "metrics_inc Accept m = m\<lparr>m_accept := m_accept m + 1\<rparr>"
| "metrics_inc Read m = m\<lparr>m_read := m_read m + 1\<rparr>"
| "metrics_inc Write m = m\<lparr>m_write := m_write m + 1\<rparr>"

definition stats_inc :: "'w libc \<Rightarrow> stats_type \<Rightarrow> stats_data \<times> 'w \<Rightarrow> (stats_data \<times> 'w) res" where
  "stats_inc L t =
     (\<lambda>(d, w).
        and_then (stats_do_call L d w) (\<lambda>w.
        Inr (d\<lparr>metrics := metrics_inc t (metrics d)\<rparr>, w)))"

subsection \<open>The contract\<close>

text \<open>
  \<open>libc_ok L good\<close>: while \<open>good fds\<close> holds of the system, \<open>fds\<close> is an open pipe that is empty
  and non-blocking at its read end. Reading from it fails with -1 and leaves it so; a freshly
  created pipe set to \<open>O_NONBLOCK\<close> is good; closing both ends succeeds.
\<close>

definition libc_ok :: "'w libc \<Rightarrow> (int \<times> int \<Rightarrow> 'w \<Rightarrow> bool) \<Rightarrow> bool" where
  "libc_ok L good \<longleftrightarrow>
     (\<forall>w ret fds w'. libc_pipe L w = (ret, fds, w') \<longrightarrow> ret = 0 \<longrightarrow>
        (\<exists>w''. libc_set_nonblock L (fst fds) w' = (0, w'') \<and> good fds w'')) \<and>
     (\<forall>fds w. good fds w \<longrightarrow> (\<exists>w'. libc_read1 L (fst fds) w = (-1, w') \<and> good fds w')) \<and>
     (\<forall>fds w. good fds w \<longrightarrow>
        (\<exists>w' w''. libc_close L (fst fds) w = (0, w') \<and> libc_close L (snd fds) w' = (0, w'')))"

fun metrics_count :: "stats_metrics \<Rightarrow> stats_type \<Rightarrow> u32" where
  "metrics_count m Register = m_register m"
| "metrics_count m Unregister = m_unregister m"
| "metrics_count m Poll = m_poll m"
| "metrics_count m Accept = m_accept m"
| "metrics_count m Read = m_read m"
| "metrics_count m Write = m_write m"

definition stats_count :: "stats_data \<times> 'w \<Rightarrow> stats_type \<Rightarrow> u32" where
  "stats_count = (\<lambda>(d, w). metrics_count (metrics d))"

definition stats_ready ::
  "'w libc \<Rightarrow> (int \<times> int \<Rightarrow> 'w \<Rightarrow> bool) \<Rightarrow> stats_data \<times> 'w \<Rightarrow> bool" where
  "stats_ready L good =
     (\<lambda>(d, w). case pipe_fds d of None \<Rightarrow> True | Some fds \<Rightarrow> libc_ok L good \<and> good fds w)"

lemma metrics_count_inc: "metrics_count (metrics_inc t m) =
    (metrics_count m)(t := metrics_count m t + 1)"
proof
  fix u show "metrics_count (metrics_inc t m) u = ((metrics_count m)(t := metrics_count m t + 1)) u"
    by (cases t; cases u) simp_all
qed

lemma stats_do_call_ready:
  assumes "stats_ready L good (d, w)"
  shows "\<exists>w'. stats_do_call L d w = Inr w' \<and> stats_ready L good (d\<lparr>metrics := m\<rparr>, w')"
proof (cases "pipe_fds d")
  case (Some fds)
  with assms have "libc_ok L good" "good fds w" by (simp_all add: stats_ready_def)
  moreover then obtain w' where "libc_read1 L (fst fds) w = (-1, w')" "good fds w'"
    unfolding libc_ok_def by blast
  ultimately show ?thesis using Some by (simp add: stats_do_call_def stats_ready_def)
qed (simp add: stats_do_call_def stats_ready_def)

interpretation run_stats: stats_trait "stats_inc L" "stats_ready L good" stats_count for L good
proof
  fix st t assume r: "stats_ready L good st"
  obtain d w where st: "st = (d, w)" by (cases st)
  with stats_do_call_ready [of L good d w "metrics_inc t (metrics d)"] r
  show "\<exists>st'. stats_inc L t st = Inr st' \<and> stats_ready L good st' \<and>
      stats_count st' = (stats_count st)(t := stats_count st t + 1)"
    by (auto simp: stats_inc_def stats_count_def metrics_count_inc)
qed

lemma stats_new_ready:
  assumes "stats_data_new L syscalls w = Inr st" and "syscalls \<Longrightarrow> libc_ok L good"
  shows "stats_ready L good st \<and> stats_count st = (\<lambda>_. 0)"
proof -
  have "metrics_count \<lparr>m_register = 0, m_unregister = 0, m_poll = 0, m_accept = 0,
      m_read = 0, m_write = 0\<rparr> = (\<lambda>_. 0)"
  proof
    fix t show "metrics_count \<lparr>m_register = 0, m_unregister = 0, m_poll = 0, m_accept = 0,
      m_read = 0, m_write = 0\<rparr> t = 0" by (cases t) simp_all
  qed
  with assms show ?thesis
    by (fastforce simp: stats_data_new_def stats_ready_def stats_count_def res_iff libc_ok_def
        split: if_splits prod.splits)
qed

subsection \<open>An empty pipe\<close>

text \<open>An operating system whose only pipe is never written to: one that is \<open>libc_ok\<close>.\<close>

definition empty_pipe :: "nat libc" where
  "empty_pipe =
     \<lparr>libc_pipe = (\<lambda>w. (0, (3, 4), w)), libc_set_nonblock = (\<lambda>fd w. (0, w)),
      libc_read1 = (\<lambda>fd w. (-1, Suc w)), libc_close = (\<lambda>fd w. (0, w))\<rparr>"

lemma empty_pipe_ok [simp]: "libc_ok empty_pipe (\<lambda>_ _. True)"
  by (simp add: libc_ok_def empty_pipe_def)

lemma empty_pipe_pipe [simp]: "fst (libc_pipe empty_pipe w) = 0"
  by (simp add: empty_pipe_def)

lemma stats_new_created:
  assumes "syscalls \<Longrightarrow> libc_ok L good" and "syscalls \<Longrightarrow> fst (libc_pipe L w) = 0"
  shows "\<exists>d w'. stats_data_new L syscalls w = Inr (d, w')"
proof (cases syscalls)
  case True
  obtain fds w1 where p: "libc_pipe L w = (0, fds, w1)"
    using assms(2) [OF True] by (cases "libc_pipe L w") auto
  then obtain w2 where "libc_set_nonblock L (fst fds) w1 = (0, w2)"
    using assms(1) [OF True] unfolding libc_ok_def by blast
  with p True show ?thesis by (simp add: stats_data_new_def)
qed (simp add: stats_data_new_def)

lemma stats_drop_cong: "pipe_fds d = pipe_fds d' \<Longrightarrow> stats_data_drop L d w = stats_data_drop L d' w"
  by (simp add: stats_data_drop_def)

text \<open>What the system sees of the calls: so many reads from the pipe, of whatever kind they are.\<close>

definition pipe_reads :: "'w libc \<Rightarrow> stats_data \<Rightarrow> nat \<Rightarrow> 'w \<Rightarrow> 'w" where
  "pipe_reads L d n w =
     (case pipe_fds d of None \<Rightarrow> w | Some fds \<Rightarrow> ((\<lambda>w. snd (libc_read1 L (fst fds) w)) ^^ n) w)"

lemma inc_all_reads:
  assumes "inc_all (stats_inc L) ts (d, w) = Inr (d', w')"
  shows "pipe_fds d' = pipe_fds d \<and> w' = pipe_reads L d (length ts) w"
  using assms
proof (induction ts arbitrary: d w)
  case Nil
  then show ?case by (simp add: pipe_reads_def split: option.splits)
next
  case (Cons t ts)
  then obtain d1 w1 where one: "stats_inc L t (d, w) = Inr (d1, w1)"
    "inc_all (stats_inc L) ts (d1, w1) = Inr (d', w')" by (auto simp: res_iff)
  then have "pipe_fds d1 = pipe_fds d" "w1 = pipe_reads L d 1 w"
    by (auto simp: stats_inc_def stats_do_call_def pipe_reads_def res_iff split: option.splits prod.splits)
  with Cons.IH [OF one(2)] show ?case
    by (auto simp: pipe_reads_def funpow_Suc_right simp del: funpow.simps split: option.splits)
qed

lemma stats_drop_ready:
  assumes "stats_ready L good (d, w)" shows "\<exists>w'. stats_data_drop L d w = Inr w'"
proof (cases "pipe_fds d")
  case (Some fds)
  with assms have "libc_ok L good" "good fds w" by (simp_all add: stats_ready_def)
  then obtain w' w'' where "libc_close L (fst fds) w = (0, w')" "libc_close L (snd fds) w' = (0, w'')"
    unfolding libc_ok_def by blast
  with Some show ?thesis by (simp add: stats_data_drop_def)
qed (simp add: stats_data_drop_def)

lemma metrics_of_count:
  assumes "\<And>t. metrics_count m t = k t"
  shows "m = \<lparr>m_register = k Register, m_unregister = k Unregister, m_poll = k Poll,
    m_accept = k Accept, m_read = k Read, m_write = k Write\<rparr>"
  by (cases m) (simp add: assms [symmetric])

subsection \<open>The I/O objects over these counters\<close>

text \<open>Any sequence of reads and writes of one stream, with the answers they get.\<close>

datatype stream_call = Read_into "u8 list" | Write_from "u8 list"

fun stream_run ::
  "(stats_type \<Rightarrow> 't \<Rightarrow> 't res) \<Rightarrow> stream_call list \<Rightarrow> fake_stream \<Rightarrow> 't \<Rightarrow>
     ((io_error + nat) list \<times> fake_stream \<times> 't) res" where
  "stream_run inc [] s st = Inr ([], s, st)"
| "stream_run inc (Read_into buf # cs) s st =
     and_then (fake_stream_read inc s buf st) (\<lambda>(r, s, _, st).
     and_then (stream_run inc cs s st) (\<lambda>(rs, s, st). Inr (r # rs, s, st)))"
| "stream_run inc (Write_from buf # cs) s st =
     and_then (fake_stream_write inc s buf st) (\<lambda>(r, s, st).
     and_then (stream_run inc cs s st) (\<lambda>(rs, s, st). Inr (r # rs, s, st)))"

fun call_answer :: "stream_call \<Rightarrow> nat" where
  "call_answer (Read_into _) = 12"
| "call_answer (Write_from buf) = length buf"

fun call_type :: "stream_call \<Rightarrow> stats_type" where
  "call_type (Read_into _) = Read"
| "call_type (Write_from _) = Write"

fun has_room :: "stream_call \<Rightarrow> bool" where
  "has_room (Read_into buf) \<longleftrightarrow> 12 \<le> length buf"
| "has_room (Write_from _) \<longleftrightarrow> True"

fun alternate :: "bool \<Rightarrow> stream_call list \<Rightarrow> (io_error + nat) list" where
  "alternate blocked [] = []"
| "alternate blocked (c # cs) =
     (if blocked then Inl WouldBlock else Inr (call_answer c)) # alternate (\<not> blocked) cs"

lemma stream_call_once:
  assumes "stats_ready L good st" and "has_room c"
  shows "\<exists>st1. stream_run (stats_inc L) (c # cs) s st =
      and_then (stream_run (stats_inc L) cs (s\<lparr>fs_calls := fs_calls s + 1\<rparr>) st1) (\<lambda>(rs, s', st).
      Inr ((if even (fs_calls s) then Inl WouldBlock else Inr (call_answer c)) # rs, s', st)) \<and>
    run_stats.reported L good st (call_type c) st1"
proof (cases c)
  case (Read_into buf)
  obtain st1 where "\<exists>buf'. fake_stream_read (stats_inc L) s buf st =
      Inr (if even (fs_calls s) then Inl WouldBlock else Inr 12, s\<lparr>fs_calls := fs_calls s + 1\<rparr>, buf', st1)"
    and r: "run_stats.reported L good st Read st1"
    using run_stats.read_blocks [OF assms(1), of s buf] run_stats.read_answers [OF assms(1), of s buf]
      assms(2) Read_into by (cases "even (fs_calls s)") auto
  with Read_into show ?thesis by (intro exI [of _ st1]) auto
next
  case (Write_from buf)
  obtain st1 where "fake_stream_write (stats_inc L) s buf st =
      Inr (if even (fs_calls s) then Inl WouldBlock else Inr (length buf),
        s\<lparr>fs_calls := fs_calls s + 1\<rparr>, st1)"
    and r: "run_stats.reported L good st Write st1"
    using run_stats.write_blocks [OF assms(1), of s buf] run_stats.write_answers [OF assms(1), of s buf]
    by (cases "even (fs_calls s)") auto
  with Write_from show ?thesis by (intro exI [of _ st1]) auto
qed

text \<open>
  C32. A stream refuses every other call, whatever mixture of reads and writes it gets, starting
  with a refusal when it is new and also after its counter wrapped around; the calls it
  answers it answers in full; each call is counted once under its own kind.
\<close>

theorem stream_alternates:
  assumes "stats_ready L good st" and "\<forall>c\<in>set cs. has_room c"
  shows "\<exists>st'. stream_run (stats_inc L) cs s st =
      Inr (alternate (even (fs_calls s)) cs, s\<lparr>fs_calls := fs_calls s + of_nat (length cs)\<rparr>, st') \<and>
    stats_ready L good st' \<and>
    (\<forall>t. stats_count st' t = stats_count st t + of_nat (length (filter (\<lambda>c. call_type c = t) cs)))"
  using assms
proof (induction cs arbitrary: s st)
  case (Cons c cs)
  let ?s = "s\<lparr>fs_calls := fs_calls s + 1\<rparr>"
  let ?r = "if even (fs_calls s) then Inl WouldBlock else Inr (call_answer c)"
  obtain st1 where one: "stream_run (stats_inc L) (c # cs) s st =
      and_then (stream_run (stats_inc L) cs ?s st1) (\<lambda>(rs, s', st). Inr (?r # rs, s', st))"
    and rep: "run_stats.reported L good st (call_type c) st1"
    using stream_call_once [OF Cons.prems(1), of c cs s] Cons.prems(2) by auto
  from Cons.IH [OF run_stats.reported_ready [OF rep], of ?s] Cons.prems(2) obtain st'
    where "stream_run (stats_inc L) cs ?s st1 =
      Inr (alternate (even (fs_calls ?s)) cs, ?s\<lparr>fs_calls := fs_calls ?s + of_nat (length cs)\<rparr>, st')"
      "stats_ready L good st'"
      "\<forall>t. stats_count st' t = stats_count st1 t + of_nat (length (filter (\<lambda>c. call_type c = t) cs))"
    by auto
  with one run_stats.reported_count [OF rep] show ?case by (simp add: add_ac)
qed simp

lemma fresh_counters: "stats_ready L good (\<lparr>metrics = m, pipe_fds = None\<rparr>, w)"
  by (simp add: stats_ready_def)

definition zero_metrics :: stats_metrics where
  "zero_metrics = \<lparr>m_register = 0, m_unregister = 0, m_poll = 0, m_accept = 0, m_read = 0, m_write = 0\<rparr>"

abbreviation fresh_stats :: "stats_data \<times> nat" where
  "fresh_stats \<equiv> (\<lparr>metrics = zero_metrics, pipe_fds = None\<rparr>, 0)"

theorem stream_alternates_witness:
  "\<exists>s' st'. stream_run (stats_inc empty_pipe) [Read_into (replicate 16 0),
      Read_into (replicate 16 0), Write_from [1, 2], Write_from [1, 2]] fake_stream_new fresh_stats =
    Inr ([Inl WouldBlock, Inr 12, Inl WouldBlock, Inr 2], s', st')"
proof -
  let ?cs = "[Read_into (replicate 16 0), Read_into (replicate 16 0), Write_from [1, 2], Write_from [1, 2]]"
  have "\<forall>c\<in>set ?cs. has_room c" by simp
  from stream_alternates [OF fresh_counters [of empty_pipe "\<lambda>_ _. True" zero_metrics 0] this,
      of fake_stream_new]
  have "\<exists>s' st'. stream_run (stats_inc empty_pipe) ?cs fake_stream_new fresh_stats =
      Inr (alternate (even (fs_calls fake_stream_new)) ?cs, s', st')"
    by blast
  then show ?thesis by (simp only: fake_stream_new_def) (simp del: stream_run.simps add: numeral_2_eq_2)
qed

text \<open>
  A history of the poller: handles are registered and unregistered in any order. The
  specification is \<open>registered\<close>, the map from the handles registered now to their interest and
  key, and \<open>stale\<close>, what was left behind by handles that were registered again while they were
  registered: \<open>register\<close> overwrites the index in the handle, and nothing leads to the first item
  any more.
\<close>

datatype poll_call = Reg nat nat u8 | Unreg nat

fun poll_run ::
  "('i, u8 \<times> nat) slab_ops \<Rightarrow> (stats_type \<Rightarrow> 't \<Rightarrow> 't res) \<Rightarrow> poll_call list \<Rightarrow>
     'i fake_poll \<Rightarrow> (nat \<Rightarrow> fake_stream) \<Rightarrow> 't \<Rightarrow> ('i fake_poll \<times> (nat \<Rightarrow> fake_stream) \<times> 't) res" where
  "poll_run P inc [] p hs st = Inr (p, hs, st)"
| "poll_run P inc (Reg h key interest # cs) p hs st =
     and_then (poll_register P inc stream_evented p (hs h) key interest st) (\<lambda>(p, s, st).
     poll_run P inc cs p (hs(h := s)) st)"
| "poll_run P inc (Unreg h # cs) p hs st =
     and_then (poll_unregister P inc stream_evented p (hs h) st) (\<lambda>(p, s, st).
     poll_run P inc cs p (hs(h := s)) st)"

fun registered :: "poll_call list \<Rightarrow> (nat \<Rightarrow> (u8 \<times> nat) option) \<Rightarrow> nat \<Rightarrow> (u8 \<times> nat) option" where
  "registered [] m = m"
| "registered (Reg h key interest # cs) m = registered cs (m(h \<mapsto> (interest, key)))"
| "registered (Unreg h # cs) m = registered cs (m(h := None))"

fun stale :: "poll_call list \<Rightarrow> (nat \<Rightarrow> (u8 \<times> nat) option) \<Rightarrow> (u8 \<times> nat) multiset" where
  "stale [] m = {#}"
| "stale (Reg h key interest # cs) m =
     (case m h of None \<Rightarrow> {#} | Some v \<Rightarrow> {#v#}) + stale cs (m(h \<mapsto> (interest, key)))"
| "stale (Unreg h # cs) m = stale cs (m(h := None))"

definition map_values :: "(nat \<Rightarrow> 'v option) \<Rightarrow> 'v multiset" where
  "map_values m = image_mset (\<lambda>h. the (m h)) (mset_set (dom m))"

definition poll_tracks ::
  "('i, u8 \<times> nat) slab_ops \<Rightarrow> 'i fake_poll \<Rightarrow> (nat \<Rightarrow> fake_stream) \<Rightarrow>
     (nat \<Rightarrow> (u8 \<times> nat) option) \<Rightarrow> (u8 \<times> nat) multiset \<Rightarrow> bool" where
  "poll_tracks P p hs m z \<longleftrightarrow>
     finite (dom m) \<and> slab_values P (poll_items p) = map_values m + z \<and>
     (\<forall>h. fs_poll_index (hs h) = None \<longleftrightarrow> m h = None) \<and>
     (\<forall>h i. fs_poll_index (hs h) = Some i \<longrightarrow> im_get P (poll_items p) i = m h) \<and>
     (\<forall>h h' i. fs_poll_index (hs h) = Some i \<longrightarrow> fs_poll_index (hs h') = Some i \<longrightarrow> h = h')"

lemma map_values_new:
  assumes "finite (dom m)" and "h \<notin> dom m"
  shows "map_values (m(h \<mapsto> v)) = add_mset v (map_values m)"
proof -
  have "image_mset (\<lambda>j. the ((m(h \<mapsto> v)) j)) (mset_set (dom m)) =
      image_mset (\<lambda>j. the (m j)) (mset_set (dom m))"
    by (rule image_mset_cong) (use assms in \<open>auto split: if_splits\<close>)
  with assms show ?thesis by (simp add: map_values_def del: fun_upd_apply add: fun_upd_same)
qed

lemma map_values_split:
  assumes "finite (dom m)" and "m h = Some v"
  shows "map_values m = add_mset v (map_values (m(h := None)))"
proof -
  have "(m(h := None))(h \<mapsto> v) = m" using assms(2) by auto
  with map_values_new [of "m(h := None)" h v] assms(1) show ?thesis by simp
qed

lemma map_values_upd:
  assumes "finite (dom m)"
  shows "map_values (m(h \<mapsto> v)) + (case m h of None \<Rightarrow> {#} | Some u \<Rightarrow> {#u#}) = add_mset v (map_values m)"
proof (cases "m h")
  case None
  then have "h \<notin> dom m" by auto
  from map_values_new [OF assms this] None show ?thesis by simp
next
  case (Some u)
  have "(m(h \<mapsto> v))(h := None) = m(h := None)" by simp
  with map_values_split [of "m(h \<mapsto> v)" h v] map_values_split [OF assms Some] assms Some
  show ?thesis by simp
qed

lemma poll_tracks_register:
  assumes P: "slab_ok P" and t: "poll_tracks P p hs m z"
  shows "poll_tracks P (p\<lparr>poll_items := slab_insert P (poll_items p) (interest, key)\<rparr>)
    (hs(h := (hs h)\<lparr>fs_poll_index := Some (vacant_key P (poll_items p))\<rparr>)) (m(h \<mapsto> (interest, key)))
    ((case m h of None \<Rightarrow> {#} | Some v \<Rightarrow> {#v#}) + z)"
proof -
  let ?k = "vacant_key P (poll_items p)"
  have fresh: "fs_poll_index (hs j) \<noteq> Some ?k" for j
    using t slab_vacant [OF P, of "poll_items p"] unfolding poll_tracks_def by (metis option.distinct(1))
  have "finite (dom m)" using t by (simp add: poll_tracks_def)
  note upd = map_values_upd [OF this, of h "(interest, key)"]
  show ?thesis
    unfolding poll_tracks_def
  proof (intro conjI)
    show "slab_values P (poll_items (p\<lparr>poll_items := slab_insert P (poll_items p) (interest, key)\<rparr>)) =
        map_values (m(h \<mapsto> (interest, key))) + ((case m h of None \<Rightarrow> {#} | Some v \<Rightarrow> {#v#}) + z)"
      unfolding add.assoc [symmetric] upd
      using t by (simp add: poll_tracks_def slab_values_insert [OF P])
  qed (use t fresh in \<open>auto simp: poll_tracks_def slab_get_insert [OF P]\<close>)
qed

lemma poll_tracks_unregister:
  assumes P: "slab_ok P" and t: "poll_tracks P p hs m z" and i: "fs_poll_index (hs h) = Some i"
  shows "\<exists>v. im_get P (poll_items p) i = Some v \<and>
    poll_tracks P (p\<lparr>poll_items := slab_remove P (poll_items p) i\<rparr>)
      (hs(h := (hs h)\<lparr>fs_poll_index := None\<rparr>)) (m(h := None)) z"
proof -
  obtain v where v: "m h = Some v" "im_get P (poll_items p) i = Some v"
    using t i unfolding poll_tracks_def by (metis not_None_eq)
  have "finite (dom m)" using t by (simp add: poll_tracks_def)
  from map_values_split [OF this v(1)] t slab_values_remove [OF P v(2)]
  have sv: "slab_values P (slab_remove P (poll_items p) i) = map_values (m(h := None)) + z"
    unfolding poll_tracks_def by (metis add_mset_add_mset_same_iff union_mset_add_mset_left)
  have get: "im_get P (slab_remove P (poll_items p) i) = (im_get P (poll_items p))(i := None)"
    using slab_get_remove [OF P, of "poll_items p" i] v(2) by simp
  have "poll_tracks P (p\<lparr>poll_items := slab_remove P (poll_items p) i\<rparr>)
      (hs(h := (hs h)\<lparr>fs_poll_index := None\<rparr>)) (m(h := None)) z"
    unfolding poll_tracks_def
  proof (intro conjI)
    show "slab_values P (poll_items (p\<lparr>poll_items := slab_remove P (poll_items p) i\<rparr>)) =
        map_values (m(h := None)) + z"
      using sv by simp
  qed (use t i get in \<open>auto simp: poll_tracks_def\<close>)
  with v(2) show ?thesis by blast
qed

lemma poll_run_tracks:
  assumes P: "slab_ok P" and "stats_ready L good st" and "poll_tracks P p hs m z"
  shows "\<exists>p' hs' st'. poll_run P (stats_inc L) cs p hs st = Inr (p', hs', st') \<and>
    stats_ready L good st' \<and> poll_tracks P p' hs' (registered cs m) (stale cs m + z)"
  using assms(2,3)
proof (induction cs arbitrary: p hs st m z)
  case (Cons c cs)
  show ?case
  proof (cases c)
    case (Reg h key interest)
    obtain st1 where r: "poll_register P (stats_inc L) stream_evented p (hs h) key interest st =
        Inr (p\<lparr>poll_items := slab_insert P (poll_items p) (interest, key)\<rparr>,
          (hs h)\<lparr>fs_poll_index := Some (vacant_key P (poll_items p))\<rparr>, st1)"
      and rep: "run_stats.reported L good st Register st1"
      using run_stats.register_adds [OF Cons.prems(1), of P stream_evented p "hs h" key interest]
      by auto
    from Cons.IH [OF run_stats.reported_ready [OF rep]
        poll_tracks_register [OF P Cons.prems(2), of interest key h]] Reg r
    show ?thesis by (simp add: ac_simps del: fun_upd_apply)
  next
    case (Unreg h)
    show ?thesis
    proof (cases "fs_poll_index (hs h)")
      case None
      then have "hs(h := hs h) = hs" "m(h := None) = m"
        using Cons.prems(2) by (auto simp: poll_tracks_def)
      moreover obtain st1 where "poll_unregister P (stats_inc L) stream_evented p (hs h) st =
          Inr (p, hs h, st1)" and rep: "run_stats.reported L good st Unregister st1"
        using run_stats.unregister_twice [OF Cons.prems(1), of stream_evented "hs h" P p] None by auto
      ultimately show ?thesis
        using Cons.IH [OF run_stats.reported_ready [OF rep] Cons.prems(2)] Unreg
        by (simp add: fun_upd_idem)
    next
      case (Some i)
      from poll_tracks_unregister [OF P Cons.prems(2) Some] obtain v
        where v: "im_get P (poll_items p) i = Some v"
          and t: "poll_tracks P (p\<lparr>poll_items := slab_remove P (poll_items p) i\<rparr>)
            (hs(h := (hs h)\<lparr>fs_poll_index := None\<rparr>)) (m(h := None)) z" by blast
      obtain st1 where "poll_unregister P (stats_inc L) stream_evented p (hs h) st =
          Inr (p\<lparr>poll_items := slab_remove P (poll_items p) i\<rparr>, (hs h)\<lparr>fs_poll_index := None\<rparr>, st1)"
        and rep: "run_stats.reported L good st Unregister st1"
        using run_stats.unregister_removes [OF Cons.prems(1), of stream_evented "hs h" i P p v] Some v
        by auto
      with Cons.IH [OF run_stats.reported_ready [OF rep] t] Unreg show ?thesis
        by (simp del: fun_upd_apply)
    qed
  qed
qed auto

lemma poll_tracks_new:
  "slab_ok P \<Longrightarrow> poll_tracks P (poll_new P n) (\<lambda>_. fake_stream_new) Map.empty {#}"
  by (simp add: poll_tracks_def poll_new_def slab_values_new fake_stream_new_def map_values_def)

lemma poll_drop_tracks:
  assumes "slab_ok P" and "poll_tracks P p hs m z"
  shows "poll_drop P p = (if m = Map.empty \<and> z = {#} then Inr () else Inl Assert_panic)"
proof -
  have "slab_empty P (poll_items p) \<longleftrightarrow> slab_values P (poll_items p) = {#}"
    by (simp add: slab_values_empty_iff [OF assms(1)])
  also have "\<dots> \<longleftrightarrow> m = Map.empty \<and> z = {#}"
    using assms(2) by (auto simp: poll_tracks_def map_values_def mset_set_empty_iff)
  finally show ?thesis by (simp add: poll_drop_def ensure_def)
qed

text \<open>
  C10. From a new poller on, whatever handles are registered and unregistered, no operation
  panics. A poll then reports each registered handle exactly once with its latest key and
  interest, nothing of earlier polls and no unregistered one; a handle that was registered again
  while it was registered is reported with its earlier key and interest as well, for good: no
  later call takes that item out. Dropping the poller passes its check exactly when every handle
  was unregistered and none was ever registered twice.
\<close>

theorem poll_reports_registered:
  assumes "slab_ok P" and "slab_ok V" and "stats_ready L good st"
  shows "\<exists>p hs st1 events' st2.
    poll_run P (stats_inc L) cs (poll_new P n) (\<lambda>_. fake_stream_new) st = Inr (p, hs, st1) \<and>
    poll_poll P V (stats_inc L) p events st1 = Inr (events', st2) \<and>
    slab_values V events' =
      image_mset prod.swap (map_values (registered cs Map.empty) + stale cs Map.empty) \<and>
    poll_drop P p =
      (if registered cs Map.empty = Map.empty \<and> stale cs Map.empty = {#} then Inr () else Inl Assert_panic)"
proof -
  obtain p hs st1 where r: "poll_run P (stats_inc L) cs (poll_new P n) (\<lambda>_. fake_stream_new) st =
      Inr (p, hs, st1)" "stats_ready L good st1"
    and t: "poll_tracks P p hs (registered cs Map.empty) (stale cs Map.empty)"
    using poll_run_tracks [OF assms(1,3) poll_tracks_new [OF assms(1)]] by (metis add_0_right)
  obtain events' st2 where "poll_poll P V (stats_inc L) p events st1 = Inr (events', st2)"
      "slab_values V events' =
        image_mset (\<lambda>(interest, key). (key, interest)) (slab_values P (poll_items p))"
    using run_stats.poll_reports [OF r(2) assms(1,2)] by blast
  moreover have "(\<lambda>(interest :: u8, key :: nat). (key, interest)) = prod.swap" by auto
  ultimately show ?thesis
    using r(1) t poll_drop_tracks [OF assms(1) t] by (auto simp: poll_tracks_def)
qed

theorem poll_reports_registered_witness:
  "\<exists>p hs st1 events' st2.
    poll_run vec_slab (stats_inc empty_pipe)
      [Reg 0 7 1, Reg 1 8 3, Unreg 0, Unreg 0, Reg 0 9 2, Reg 1 6 3]
      (poll_new vec_slab 4) (\<lambda>_. fake_stream_new) fresh_stats = Inr (p, hs, st1) \<and>
    poll_poll vec_slab vec_slab (stats_inc empty_pipe) p (with_capacity vec_slab 4) st1 =
      Inr (events', st2) \<and>
    slab_values vec_slab events' = {#(9, 2), (6, 3), (8, 3)#} \<and> poll_drop vec_slab p = Inl Assert_panic"
proof -
  let ?cs = "[Reg 0 7 1, Reg 1 8 3, Unreg 0, Unreg 0, Reg 0 9 2, Reg 1 6 3]"
  have m: "registered ?cs Map.empty = [1 \<mapsto> (3, 6), 0 \<mapsto> (2, 9)]" by (auto simp: fun_eq_iff)
  have z: "stale ?cs Map.empty = {#(3, 8)#}" by simp
  have "map_values [1 \<mapsto> (3 :: u8, 6 :: nat), 0 \<mapsto> (2, 9)] = {#(2, 9), (3, 6)#}" by (simp add: map_values_def)
  with poll_reports_registered [OF vec_slab_ok vec_slab_ok
      fresh_counters [of empty_pipe "\<lambda>_ _. True" zero_metrics 0], of ?cs 4 "with_capacity vec_slab 4"]
  show ?thesis unfolding m z by (auto simp: insert_commute)
qed

end
