(* ===== verification/Run_Manual.thy ===== *)
theory Run_Manual
  imports Intrusive_List Stats
begin

section \<open>The manual event loop (src/src/run.rs)\<close>

text \<open>
  \<open>RunManual\<close> serves its connections from one poll loop: accept what can be accepted, run
  every connection that has events until it would block, stop when all connections were
  served, poll. The fields of the struct are the record \<open>manual_self\<close>, the local variables of
  \<open>run\<close> extend it. The slabs of poll items, events and connections are the parameters \<open>P\<close>,
  \<open>V\<close> and \<open>C\<close>. Loops that stop by an argument of the code are recursive functions with a
  termination proof; the two whose end depends on the state of the system are partial.
\<close>

definition CONNS_MAX :: nat where "CONNS_MAX = 256"
definition SMALL_BUFSIZE :: nat where "SMALL_BUFSIZE = 128"
definition LARGE_BUFSIZE :: nat where "LARGE_BUFSIZE = 16384"

datatype connection_state = ReceivingRequest | SendingResponse

record connection =
  c_stream :: fake_stream
  c_can_read :: bool
  c_can_write :: bool
  c_state :: connection_state
  c_buf :: "u8 list"
  c_buf_len :: nat
  c_sent :: nat

subsection \<open>Processing one connection\<close>

text \<open>
  One turn of the loop in \<open>process\<close>: \<open>Some b\<close> is \<open>return b\<close>, \<open>None\<close> goes round again. The two
  calls of the stream are parameters, so that the bytes handed to it can be watched;
  \<open>process_step\<close> is the code, on the fake stream.
\<close>

type_synonym 't stream_read =
  "fake_stream \<Rightarrow> u8 list \<Rightarrow> 't \<Rightarrow> ((io_error + nat) \<times> fake_stream \<times> u8 list \<times> 't) res"
type_synonym 't stream_write =
  "fake_stream \<Rightarrow> u8 list \<Rightarrow> 't \<Rightarrow> ((io_error + nat) \<times> fake_stream \<times> 't) res"

definition process_step_on ::
  "'t stream_read \<Rightarrow> 't stream_write \<Rightarrow> connection \<Rightarrow> 't \<Rightarrow> (bool option \<times> connection \<times> 't) res" where
  "process_step_on rd wr c st =
     (case c_state c of
        ReceivingRequest \<Rightarrow>
          and_then (slice_from (c_buf c) (c_buf_len c)) (\<lambda>dest.
          and_then (rd (c_stream c) dest st) (\<lambda>(r, stream, dest, st).
          let c = c\<lparr>c_stream := stream, c_buf := write_from (c_buf c) (c_buf_len c) dest\<rparr> in
          case r of
            Inr sz \<Rightarrow>
              let c = c\<lparr>c_buf_len := c_buf_len c + sz\<rparr> in
              and_then (slice_to (c_buf c) (c_buf_len c)) (\<lambda>received.
              if 10 \<in> set received then Inr (None, c\<lparr>c_state := SendingResponse\<rparr>, st)
              else Inr (None, c, st))
          | Inl WouldBlock \<Rightarrow> Inr (Some False, c\<lparr>c_can_read := False\<rparr>, st)
          | Inl _ \<Rightarrow> Inl Unreachable_panic))
      | SendingResponse \<Rightarrow>
          and_then (slice_range (c_buf c) (c_sent c) (c_buf_len c)) (\<lambda>src.
          and_then (wr (c_stream c) src st) (\<lambda>(r, stream, st).
          let c = c\<lparr>c_stream := stream\<rparr> in
          case r of
            Inr sz \<Rightarrow>
              let c = c\<lparr>c_sent := c_sent c + sz\<rparr> in
              if c_sent c \<ge> c_buf_len c then Inr (Some True, c, st) else Inr (None, c, st)
          | Inl WouldBlock \<Rightarrow> Inr (Some False, c\<lparr>c_can_write := False\<rparr>, st)
          | Inl _ \<Rightarrow> Inl Unreachable_panic)))"

definition process_step ::
  "(stats_type \<Rightarrow> 't \<Rightarrow> 't res) \<Rightarrow> connection \<Rightarrow> 't \<Rightarrow> (bool option \<times> connection \<times> 't) res" where
  "process_step inc = process_step_on (fake_stream_read inc) (fake_stream_write inc)"

text \<open>
  The loop goes round only after a call that was answered, and the next call of the same
  stream is then refused.
\<close>

lemma process_step_again:
  "process_step inc c st = Inr (None, c', st') \<Longrightarrow>
     odd (fs_calls (c_stream c)) \<and> even (fs_calls (c_stream c'))"
  by (cases "c_state c"; cases "even (fs_calls (c_stream c))")
    (auto simp: process_step_def process_step_on_def res_iff Let_def split: if_split_asm)

function process ::
  "(stats_type \<Rightarrow> 't \<Rightarrow> 't res) \<Rightarrow> connection \<Rightarrow> 't \<Rightarrow> (bool \<times> connection \<times> 't) res" where
  "process inc c st =
     and_then (process_step inc c st) (\<lambda>(ret, c, st).
     case ret of
       Some b \<Rightarrow> Inr (b, c, st)
     | None \<Rightarrow> process inc c st)"
  by pat_completeness auto
termination
  by (relation "measure (\<lambda>(inc, c, st). if even (fs_calls (c_stream c)) then 0 else 1)")
    (auto dest!: process_step_again)

declare process.simps [simp del]

text \<open>
  The same loop on any stream. On one that records what is written, and the answers, it shows
  what \<open>process\<close> sends; the fake stream itself throws it away.
\<close>

partial_function (option) process_on ::
  "'t stream_read \<Rightarrow> 't stream_write \<Rightarrow> connection \<Rightarrow> 't \<Rightarrow> (bool \<times> connection \<times> 't) run" where
  "process_on rd wr c st =
     run_then (Some (process_step_on rd wr c st)) (\<lambda>(ret, c, st).
     case ret of
       Some b \<Rightarrow> Some (Inr (b, c, st))
     | None \<Rightarrow> process_on rd wr c st)"

declare process_on.simps [code]

lemma process_on_fake: "process_on (fake_stream_read inc) (fake_stream_write inc) c st = Some (process inc c st)"
proof (induction inc c st rule: process.induct)
  case (1 inc c st)
  show ?case
  proof (cases "process_step inc c st")
    case (Inl e)
    then show ?thesis by (simp add: process.simps [of inc c] process_on.simps [of _ _ c] process_step_def)
  next
    case (Inr x)
    then show ?thesis using 1
      by (cases x) (simp add: process.simps [of inc c] process_on.simps [of _ _ c] process_step_def
        split: option.split)
  qed
qed

type_synonym sent = "(u8 list \<times> (io_error + nat)) list"

definition logged_read :: "(stats_type \<Rightarrow> 't \<Rightarrow> 't res) \<Rightarrow> ('t \<times> sent) stream_read" where
  "logged_read inc s dest = (\<lambda>(st, log).
     and_then (fake_stream_read inc s dest st) (\<lambda>(r, s, dest, st). Inr (r, s, dest, st, log)))"

definition logged_write :: "(stats_type \<Rightarrow> 't \<Rightarrow> 't res) \<Rightarrow> ('t \<times> sent) stream_write" where
  "logged_write inc s src = (\<lambda>(st, log).
     and_then (fake_stream_write inc s src st) (\<lambda>(r, s, st). Inr (r, s, st, log @ [(src, r)])))"

abbreviation process_logged ::
  "(stats_type \<Rightarrow> 't \<Rightarrow> 't res) \<Rightarrow> connection \<Rightarrow> 't \<times> sent \<Rightarrow> (bool \<times> connection \<times> 't \<times> sent) run" where
  "process_logged inc \<equiv> process_on (logged_read inc) (logged_write inc)"

subsection \<open>The state of the loop\<close>

record ('p, 'e, 'c) manual_self =
  rm_poll :: "'p fake_poll"
  rm_events :: 'e
  rm_conns :: 'c

record ('p, 'e, 'c) manual_locals = "('p, 'e, 'c) manual_self" +
  needs_process :: dlist
  listener :: fake_listener
  can_accept :: bool
  accept_left :: nat

definition run_manual_new ::
  "('p, u8 \<times> nat) slab_ops \<Rightarrow> ('e, nat \<times> u8) slab_ops \<Rightarrow> ('c, connection node) slab_ops \<Rightarrow>
     ('p, 'e, 'c) manual_self" where
  "run_manual_new P V C =
     \<lparr>rm_poll = poll_new P (CONNS_MAX + 1),
      rm_events = with_capacity V (CONNS_MAX + 1),
      rm_conns = with_capacity C CONNS_MAX\<rparr>"

subsection \<open>Accepting connections\<close>

definition connection_new :: "fake_stream \<Rightarrow> connection" where
  "connection_new stream =
     \<lparr>c_stream = stream, c_can_read = True, c_can_write = True, c_state = ReceivingRequest,
      c_buf = replicate 128 0, c_buf_len = 0, c_sent = 0\<rparr>"

definition accept_one ::
  "('p, u8 \<times> nat) slab_ops \<Rightarrow> ('c, connection node) slab_ops \<Rightarrow>
     (stats_type \<Rightarrow> 't \<Rightarrow> 't res) \<Rightarrow> ('p, 'e, 'c) manual_locals \<Rightarrow> 't \<Rightarrow>
     (('p, 'e, 'c) manual_locals \<times> 't) res" where
  "accept_one P C inc x st =
     and_then (fake_listener_accept inc (listener x) st) (\<lambda>(r, l, st).
     let x = x\<lparr>listener := l\<rparr> in
     case r of
       Inr stream \<Rightarrow>
         let x = x\<lparr>accept_left := accept_left x - 1\<rparr>;
             (key, conns) = slab_add C (rm_conns x) (node_new (connection_new stream))
         in
         and_then (index_at C conns key) (\<lambda>n.
         let c = nd_value n in
         and_then (poll_register P inc stream_evented (rm_poll x) (c_stream c) (key + 1)
             (or READABLE WRITABLE) st) (\<lambda>(poll, stream, st).
         let conns = im_set C conns key (n\<lparr>nd_value := c\<lparr>c_stream := stream\<rparr>\<rparr>) in
         and_then (list_push_back C (needs_process x) conns key) (\<lambda>(np, conns).
         Inr (x\<lparr>rm_poll := poll, rm_conns := conns, needs_process := np\<rparr>, st))))
     | Inl WouldBlock \<Rightarrow> Inr (x\<lparr>can_accept := False\<rparr>, st)
     | Inl _ \<Rightarrow> Inl Unreachable_panic)"

lemma accept_one_less:
  "accept_one P C inc x st = Inr (x', st') \<Longrightarrow> can_accept x \<Longrightarrow> 0 < accept_left x \<Longrightarrow>
     (if can_accept x' then Suc (accept_left x') else accept_left x') < Suc (accept_left x)"
  by (cases "even (fl_calls (listener x))")
    (auto simp: accept_one_def res_iff Let_def slab_add_def)

function accept_loop ::
  "('p, u8 \<times> nat) slab_ops \<Rightarrow> ('c, connection node) slab_ops \<Rightarrow>
     (stats_type \<Rightarrow> 't \<Rightarrow> 't res) \<Rightarrow> ('p, 'e, 'c) manual_locals \<Rightarrow> 't \<Rightarrow>
     (('p, 'e, 'c) manual_locals \<times> 't) res" where
  "accept_loop P C inc x st =
     (if accept_left x > 0 \<and> can_accept x then
        and_then (accept_one P C inc x st) (\<lambda>(x, st). accept_loop P C inc x st)
      else Inr (x, st))"
  by pat_completeness auto
termination
  by (relation "measure (\<lambda>(P, C, inc, x, st).
        if can_accept x then Suc (accept_left x) else accept_left x)")
    (auto dest!: accept_one_less)

declare accept_loop.simps [simp del]

subsection \<open>Processing the queued connections\<close>

definition drain_one ::
  "('p, u8 \<times> nat) slab_ops \<Rightarrow> ('c, connection node) slab_ops \<Rightarrow>
     (stats_type \<Rightarrow> 't \<Rightarrow> 't res) \<Rightarrow> nat \<Rightarrow> ('p, 'e, 'c) manual_locals \<Rightarrow> 't \<Rightarrow>
     (('p, 'e, 'c) manual_locals \<times> 't) res" where
  "drain_one P C inc key x st =
     and_then (list_remove C (needs_process x) (rm_conns x) key) (\<lambda>(np, conns).
     let x = x\<lparr>needs_process := np\<rparr> in
     and_then (index_at C conns key) (\<lambda>n.
     and_then (process inc (nd_value n) st) (\<lambda>(done, c, st).
     let conns = im_set C conns key (n\<lparr>nd_value := c\<rparr>) in
     if done then
       and_then (poll_unregister P inc stream_evented (rm_poll x) (c_stream c) st)
         (\<lambda>(poll, stream, st).
       let conns = im_set C conns key (n\<lparr>nd_value := c\<lparr>c_stream := stream\<rparr>\<rparr>) in
       and_then (slab_take C conns key) (\<lambda>(_, conns).
       Inr (x\<lparr>rm_poll := poll, rm_conns := conns\<rparr>, st)))
     else Inr (x\<lparr>rm_conns := conns\<rparr>, st))))"

partial_function (option) drain_loop ::
  "('p, u8 \<times> nat) slab_ops \<Rightarrow> ('c, connection node) slab_ops \<Rightarrow>
     (stats_type \<Rightarrow> 't \<Rightarrow> 't res) \<Rightarrow> nat option \<Rightarrow> ('p, 'e, 'c) manual_locals \<Rightarrow> 't \<Rightarrow>
     (('p, 'e, 'c) manual_locals \<times> 't) run" where
  "drain_loop P C inc next_key x st =
     (case next_key of
        Some key \<Rightarrow>
          run_then (Some (drain_one P C inc key x st)) (\<lambda>(x, st).
          drain_loop P C inc (l_head (needs_process x)) x st)
      | None \<Rightarrow> Some (Inr (x, st)))"

declare drain_loop.simps [code]

subsection \<open>Marking the connections that have events\<close>

definition handle_event ::
  "('c, connection node) slab_ops \<Rightarrow> nat \<times> u8 \<Rightarrow> ('p, 'e, 'c) manual_locals \<Rightarrow>
     ('p, 'e, 'c) manual_locals res" where
  "handle_event C = (\<lambda>(key, state) x.
     if key = 0 then Inr (x\<lparr>can_accept := True\<rparr>)
     else
       let key = key - 1 in
       and_then (index_at C (rm_conns x) key) (\<lambda>n.
       let c = nd_value n;
           do_process = False;
           (c, do_process) =
             (if and state READABLE \<noteq> 0 then (c\<lparr>c_can_read := True\<rparr>, True) else (c, do_process));
           (c, do_process) =
             (if and state WRITABLE \<noteq> 0 then (c\<lparr>c_can_write := True\<rparr>, True) else (c, do_process));
           conns = im_set C (rm_conns x) key (n\<lparr>nd_value := c\<rparr>)
       in
       if do_process then
         and_then (list_remove C (needs_process x) conns key) (\<lambda>(np, conns).
         and_then (list_push_back C np conns key) (\<lambda>(np, conns).
         Inr (x\<lparr>rm_conns := conns, needs_process := np\<rparr>)))
       else Inr (x\<lparr>rm_conns := conns\<rparr>)))"

fun handle_events ::
  "('c, connection node) slab_ops \<Rightarrow> (nat \<times> nat \<times> u8) list \<Rightarrow> ('p, 'e, 'c) manual_locals \<Rightarrow>
     ('p, 'e, 'c) manual_locals res" where
  "handle_events C [] x = Inr x"
| "handle_events C ((_, ev) # evs) x = and_then (handle_event C ev x) (handle_events C evs)"

definition poll_and_mark ::
  "('p, u8 \<times> nat) slab_ops \<Rightarrow> ('e, nat \<times> u8) slab_ops \<Rightarrow> ('c, connection node) slab_ops \<Rightarrow>
     (stats_type \<Rightarrow> 't \<Rightarrow> 't res) \<Rightarrow> ('p, 'e, 'c) manual_locals \<Rightarrow> 't \<Rightarrow>
     (('p, 'e, 'c) manual_locals \<times> 't) res" where
  "poll_and_mark P V C inc x st =
     and_then (poll_poll P V inc (rm_poll x) (rm_events x) st) (\<lambda>(events, st).
     and_then (handle_events C (slab_iter V events) (x\<lparr>rm_events := events\<rparr>)) (\<lambda>x.
     Inr (x, st)))"

subsection \<open>The loop and its entry points\<close>

partial_function (option) manual_loop ::
  "('p, u8 \<times> nat) slab_ops \<Rightarrow> ('e, nat \<times> u8) slab_ops \<Rightarrow> ('c, connection node) slab_ops \<Rightarrow>
     (stats_type \<Rightarrow> 't \<Rightarrow> 't res) \<Rightarrow> ('p, 'e, 'c) manual_locals \<Rightarrow> 't \<Rightarrow>
     (('p, 'e, 'c) manual_locals \<times> 't) run" where
  "manual_loop P V C inc x st =
     run_then (Some (accept_loop P C inc x st)) (\<lambda>(x, st).
     run_then (drain_loop P C inc (l_head (needs_process x)) x st) (\<lambda>(x, st).
     if accept_left x = 0 \<and> slab_len C (rm_conns x) = 0 then Some (Inr (x, st))
     else
       run_then (Some (poll_and_mark P V C inc x st)) (\<lambda>(x, st).
       manual_loop P V C inc x st)))"

declare manual_loop.simps [code]

definition run_manual_run ::
  "('p, u8 \<times> nat) slab_ops \<Rightarrow> ('e, nat \<times> u8) slab_ops \<Rightarrow> ('c, connection node) slab_ops \<Rightarrow>
     (stats_type \<Rightarrow> 't \<Rightarrow> 't res) \<Rightarrow> ('p, 'e, 'c) manual_self \<Rightarrow> 't \<Rightarrow>
     (('p, 'e, 'c) manual_self \<times> 't) run" where
  "run_manual_run P V C inc r st =
     run_then
       (Some (poll_register P inc listener_evented (rm_poll r) fake_listener_new 0 READABLE st))
       (\<lambda>(poll, l, st).
     run_then
       (manual_loop P V C inc
          \<lparr>rm_poll = poll, rm_events = rm_events r, rm_conns = rm_conns r,
           needs_process = list_default, listener = l, can_accept = True,
           accept_left = CONNS_MAX\<rparr> st)
       (\<lambda>(x, st).
     run_then (Some (poll_unregister P inc listener_evented (rm_poll x) (listener x) st))
       (\<lambda>(poll, l, st).
     Some (Inr (\<lparr>rm_poll = poll, rm_events = rm_events x, rm_conns = rm_conns x\<rparr>, st)))))"

text \<open>
  \<open>run_manual\<close> hands its caller a closure that runs the loop; the caller calls it any number
  of times (once in \<open>main\<close>, \<open>calls\<close> times in a benchmark). At the end the metrics are read,
  then the poller and the counters are dropped.
\<close>

fun call_times :: "nat \<Rightarrow> ('a \<Rightarrow> 'a run) \<Rightarrow> 'a \<Rightarrow> 'a run" where
  "call_times 0 f x = Some (Inr x)"
| "call_times (Suc n) f x = run_then (f x) (call_times n f)"

definition run_manual ::
  "('p, u8 \<times> nat) slab_ops \<Rightarrow> ('e, nat \<times> u8) slab_ops \<Rightarrow> ('c, connection node) slab_ops \<Rightarrow>
     'w libc \<Rightarrow> bool \<Rightarrow> nat \<Rightarrow> 'w \<Rightarrow> (stats_metrics \<times> 'w) run" where
  "run_manual P V C L syscalls calls w =
     run_then (Some (stats_data_new L syscalls w)) (\<lambda>st.
     let r = run_manual_new P V C in
     run_then (call_times calls (\<lambda>(r, st). run_manual_run P V C (stats_inc L) r st) (r, st))
       (\<lambda>(r, (d, w)).
     let result = stats_get d in
     run_then (Some (poll_drop P (rm_poll r))) (\<lambda>_.
     run_then (Some (stats_data_drop L d w)) (\<lambda>w.
     Some (Inr (result, w))))))"

end
