(* ===== verification/Async_Tasks.thy ===== *)
theory Async_Tasks
  imports Reactor Run_Manual
begin

section \<open>The tasks of the asynchronous server (src/src/run.rs)\<close>

text \<open>
  An \<open>async fn\<close> is the state machine of its await points: a value of a datatype says where it
  waits and holds the locals that live there, and a poll runs from there to the next await that
  is pending, or to the end. At the end the locals are dropped; a future that is dropped earlier
  drops what it holds at that point. \<open>?\<close> returns the error, \<open>unwrap\<close> of it panics.

  The servers differ in how a connection is spawned. \<open>spawn\<close> is a parameter here: it gets the
  stream and makes the task for it.
\<close>

subsection \<open>Serving a connection\<close>

record conn_frame =
  cf_stream :: async_stream
  cf_buf :: "u8 list"
  cf_buf_len :: nat
  cf_sent :: nat

datatype conn_future =
    Conn_start async_stream
  | Conn_reading conn_frame
  | Conn_writing conn_frame
  | Conn_done

definition conn_return ::
  "('r, 'v, 'p) reactor_lib \<Rightarrow> (stats_type \<Rightarrow> 's \<Rightarrow> 's res) \<Rightarrow> (nat, 't) raw_vtable \<Rightarrow>
     (io_error + unit) \<Rightarrow> conn_frame \<Rightarrow> 't \<Rightarrow> ('r, 'v, 'p, 's, 'l) io_world \<Rightarrow>
     ((io_error + unit) option \<times> conn_future \<times> 't \<times> ('r, 'v, 'p, 's, 'l) io_world) res" where
  "conn_return E inc vt result c t w =
     and_then (async_stream_drop E inc vt (cf_stream c) t w) (\<lambda>(t, w).
     Inr (Some result, Conn_done, t, w))"

text \<open>
  The two loops, from their await on. The body runs again only after a call that was answered,
  and the next call of the same stream is refused.
\<close>

lemma poll_io_write_again:
  "write_future_poll E inc vt s buf waker t w = Inr (Some (Inr sz), s', t', w') \<Longrightarrow>
     odd (fs_calls (as_inner s)) \<and> even (fs_calls (as_inner s'))"
  by (auto simp: write_future_poll_def poll_io_def res_iff Let_def
      split: if_splits sum.splits io_error.splits)

lemma poll_io_read_again:
  "read_future_poll E inc vt s buf waker t w = Inr (Some (Inr sz), s', buf', t', w') \<Longrightarrow>
     odd (fs_calls (as_inner s)) \<and> even (fs_calls (as_inner s'))"
  by (auto simp: read_future_poll_def poll_io_def res_iff Let_def
      split: if_splits sum.splits io_error.splits)

function conn_write ::
  "('r, 'v, 'p) reactor_lib \<Rightarrow> (stats_type \<Rightarrow> 's \<Rightarrow> 's res) \<Rightarrow> (nat, 't) raw_vtable \<Rightarrow>
     conn_frame \<Rightarrow> nat \<Rightarrow> 't \<Rightarrow> ('r, 'v, 'p, 's, 'l) io_world \<Rightarrow>
     ((io_error + unit) option \<times> conn_future \<times> 't \<times> ('r, 'v, 'p, 's, 'l) io_world) res" where
  "conn_write E inc vt c waker t w =
     and_then (slice_range (cf_buf c) (cf_sent c) (cf_buf_len c)) (\<lambda>src.
     and_then (write_future_poll E inc vt (cf_stream c) src waker t w) (\<lambda>(r, stream, t, w).
     let c = c\<lparr>cf_stream := stream\<rparr> in
     case r of
       None \<Rightarrow> Inr (None, Conn_writing c, t, w)
     | Some (Inl e) \<Rightarrow>
         and_then (io_future_drop E vt (as_key stream) t w) (\<lambda>(t, w).
         conn_return E inc vt (Inl e) c t w)
     | Some (Inr sz) \<Rightarrow>
         and_then (io_future_drop E vt (as_key stream) t w) (\<lambda>(t, w).
         let c = c\<lparr>cf_sent := cf_sent c + sz\<rparr> in
         if cf_sent c < cf_buf_len c then conn_write E inc vt c waker t w
         else conn_return E inc vt (Inr ()) c t w)))"
  by pat_completeness auto
termination
  by (relation "measure (\<lambda>(E, inc, vt, c, _). if even (fs_calls (as_inner (cf_stream c))) then 0 else 1)")
    (auto dest!: poll_io_write_again)

declare conn_write.simps [simp del]

function conn_read ::
  "('r, 'v, 'p) reactor_lib \<Rightarrow> (stats_type \<Rightarrow> 's \<Rightarrow> 's res) \<Rightarrow> (nat, 't) raw_vtable \<Rightarrow>
     conn_frame \<Rightarrow> nat \<Rightarrow> 't \<Rightarrow> ('r, 'v, 'p, 's, 'l) io_world \<Rightarrow>
     ((io_error + unit) option \<times> conn_future \<times> 't \<times> ('r, 'v, 'p, 's, 'l) io_world) res" where
  "conn_read E inc vt c waker t w =
     and_then (slice_from (cf_buf c) (cf_buf_len c)) (\<lambda>dest.
     and_then (read_future_poll E inc vt (cf_stream c) dest waker t w) (\<lambda>(r, stream, dest, t, w).
     let c = c\<lparr>cf_stream := stream, cf_buf := write_from (cf_buf c) (cf_buf_len c) dest\<rparr> in
     case r of
       None \<Rightarrow> Inr (None, Conn_reading c, t, w)
     | Some (Inl e) \<Rightarrow>
         and_then (io_future_drop E vt (as_key stream) t w) (\<lambda>(t, w).
         conn_return E inc vt (Inl e) c t w)
     | Some (Inr sz) \<Rightarrow>
         and_then (io_future_drop E vt (as_key stream) t w) (\<lambda>(t, w).
         let c = c\<lparr>cf_buf_len := cf_buf_len c + sz\<rparr> in
         and_then (slice_to (cf_buf c) (cf_buf_len c)) (\<lambda>received.
         if 10 \<in> set received then
           let c = c\<lparr>cf_sent := 0\<rparr> in
           if cf_sent c < cf_buf_len c then conn_write E inc vt c waker t w
           else conn_return E inc vt (Inr ()) c t w
         else conn_read E inc vt c waker t w))))"
  by pat_completeness auto
termination
  by (relation "measure (\<lambda>(E, inc, vt, c, _). if even (fs_calls (as_inner (cf_stream c))) then 0 else 1)")
    (auto dest!: poll_io_read_again)

declare conn_read.simps [simp del]

definition connection_poll ::
  "nat \<Rightarrow> ('r, 'v, 'p) reactor_lib \<Rightarrow> (stats_type \<Rightarrow> 's \<Rightarrow> 's res) \<Rightarrow> (nat, 't) raw_vtable \<Rightarrow>
     conn_future \<Rightarrow> nat \<Rightarrow> 't \<Rightarrow> ('r, 'v, 'p, 's, 'l) io_world \<Rightarrow>
     ((io_error + unit) option \<times> conn_future \<times> 't \<times> ('r, 'v, 'p, 's, 'l) io_world) res" where
  "connection_poll N E inc vt fut waker t w =
     (case fut of
        Conn_start stream \<Rightarrow>
          conn_read E inc vt
            \<lparr>cf_stream = stream, cf_buf = replicate N 0, cf_buf_len = 0, cf_sent = 0\<rparr> waker t w
      | Conn_reading c \<Rightarrow> conn_read E inc vt c waker t w
      | Conn_writing c \<Rightarrow> conn_write E inc vt c waker t w
      | Conn_done \<Rightarrow> Inl Resumed_panic)"

text \<open>\<open>connection_box\<close> has the body of \<open>connection\<close>; its stream counts its references.\<close>

definition connection_box_poll ::
  "nat \<Rightarrow> ('r, 'v, 'p) reactor_lib \<Rightarrow> (stats_type \<Rightarrow> 's \<Rightarrow> 's res) \<Rightarrow> (nat, 't) raw_vtable \<Rightarrow>
     conn_future \<Rightarrow> nat \<Rightarrow> 't \<Rightarrow> ('r, 'v, 'p, 's, 'l) io_world \<Rightarrow>
     ((io_error + unit) option \<times> conn_future \<times> 't \<times> ('r, 'v, 'p, 's, 'l) io_world) res" where
  "connection_box_poll = connection_poll"

definition connection_drop ::
  "('r, 'v, 'p) reactor_lib \<Rightarrow> (stats_type \<Rightarrow> 's \<Rightarrow> 's res) \<Rightarrow> (nat, 't) raw_vtable \<Rightarrow>
     conn_future \<Rightarrow> 't \<Rightarrow> ('r, 'v, 'p, 's, 'l) io_world \<Rightarrow>
     ('t \<times> ('r, 'v, 'p, 's, 'l) io_world) res" where
  "connection_drop E inc vt fut t w =
     (let drop_frame = (\<lambda>c.
        and_then (io_future_drop E vt (as_key (cf_stream c)) t w) (\<lambda>(t, w).
        async_stream_drop E inc vt (cf_stream c) t w))
      in
      case fut of
        Conn_start stream \<Rightarrow> async_stream_drop E inc vt stream t w
      | Conn_reading c \<Rightarrow> drop_frame c
      | Conn_writing c \<Rightarrow> drop_frame c
      | Conn_done \<Rightarrow> Inr (t, w))"

subsection \<open>Listening\<close>

text \<open>\<open>Listen_accepting l n\<close>: \<open>n\<close> turns of the \<open>for\<close> loop are over, the next one awaits.\<close>

datatype listen_future =
    Listen_start
  | Listen_accepting async_listener nat
  | Listen_done

type_synonym ('t, 'w) conn_spawn = "async_stream \<Rightarrow> 't \<Rightarrow> 'w \<Rightarrow> ((unit + unit) \<times> 't \<times> 'w) res"

definition listen_return ::
  "('r, 'v, 'p) reactor_lib \<Rightarrow> (stats_type \<Rightarrow> 's \<Rightarrow> 's res) \<Rightarrow> (nat, 't) raw_vtable \<Rightarrow>
     (io_error + unit) \<Rightarrow> async_listener \<Rightarrow> 't \<Rightarrow> ('r, 'v, 'p, 's, 'l) io_world \<Rightarrow>
     ((io_error + unit) option \<times> listen_future \<times> 't \<times> ('r, 'v, 'p, 's, 'l) io_world) res" where
  "listen_return E inc vt result l t w =
     and_then (async_listener_drop E inc vt l t w) (\<lambda>(t, w).
     Inr (Some result, Listen_done, t, w))"

function listen_accept ::
  "('r, 'v, 'p) reactor_lib \<Rightarrow> (stats_type \<Rightarrow> 's \<Rightarrow> 's res) \<Rightarrow> (nat, 't) raw_vtable \<Rightarrow>
     ('t, ('r, 'v, 'p, 's, 'l) io_world) conn_spawn \<Rightarrow> async_listener \<Rightarrow> nat \<Rightarrow> nat \<Rightarrow> 't \<Rightarrow>
     ('r, 'v, 'p, 's, 'l) io_world \<Rightarrow>
     ((io_error + unit) option \<times> listen_future \<times> 't \<times> ('r, 'v, 'p, 's, 'l) io_world) res" where
  "listen_accept E inc vt spawn l n waker t w =
     (if n < CONNS_MAX then
        and_then (accept_future_poll E inc vt l waker t w) (\<lambda>(r, l, t, w).
        case r of
          None \<Rightarrow> Inr (None, Listen_accepting l n, t, w)
        | Some (Inl e) \<Rightarrow>
            and_then (io_future_drop E vt (al_key l) t w) (\<lambda>(t, w).
            listen_return E inc vt (Inl e) l t w)
        | Some (Inr stream) \<Rightarrow>
            and_then (io_future_drop E vt (al_key l) t w) (\<lambda>(t, w).
            and_then (spawn stream t w) (\<lambda>(spawned, t, w).
            case spawned of
              Inl _ \<Rightarrow> Inl Unwrap_panic
            | Inr _ \<Rightarrow> listen_accept E inc vt spawn l (n + 1) waker t w)))
      else listen_return E inc vt (Inr ()) l t w)"
  by pat_completeness auto
termination
  by (relation "measure (\<lambda>(E, inc, vt, spawn, l, n, _). CONNS_MAX - n)") auto

declare listen_accept.simps [simp del]

definition listen_poll ::
  "('r, 'v, 'p) reactor_lib \<Rightarrow> (stats_type \<Rightarrow> 's \<Rightarrow> 's res) \<Rightarrow> (nat, 't) raw_vtable \<Rightarrow>
     ('t, ('r, 'v, 'p, 's, 'l) io_world) conn_spawn \<Rightarrow> listen_future \<Rightarrow> nat \<Rightarrow> 't \<Rightarrow>
     ('r, 'v, 'p, 's, 'l) io_world \<Rightarrow>
     ((io_error + unit) option \<times> listen_future \<times> 't \<times> ('r, 'v, 'p, 's, 'l) io_world) res" where
  "listen_poll E inc vt spawn fut waker t w =
     (case fut of
        Listen_start \<Rightarrow>
          and_then (async_listener_new E inc w) (\<lambda>(l, w).
          listen_accept E inc vt spawn l 0 waker t w)
      | Listen_accepting l n \<Rightarrow> listen_accept E inc vt spawn l n waker t w
      | Listen_done \<Rightarrow> Inl Resumed_panic)"

definition listen_drop ::
  "('r, 'v, 'p) reactor_lib \<Rightarrow> (stats_type \<Rightarrow> 's \<Rightarrow> 's res) \<Rightarrow> (nat, 't) raw_vtable \<Rightarrow>
     listen_future \<Rightarrow> 't \<Rightarrow> ('r, 'v, 'p, 's, 'l) io_world \<Rightarrow>
     ('t \<times> ('r, 'v, 'p, 's, 'l) io_world) res" where
  "listen_drop E inc vt fut t w =
     (case fut of
        Listen_accepting l n \<Rightarrow>
          and_then (io_future_drop E vt (al_key l) t w) (\<lambda>(t, w).
          async_listener_drop E inc vt l t w)
      | _ \<Rightarrow> Inr (t, w))"

subsection \<open>The task of the server\<close>

text \<open>\<open>server_task\<close> listens or serves, as it is told.\<close>

datatype async_invoke = Invoke_listen | Invoke_connection async_stream

datatype server_future =
    Srv_start async_invoke
  | Srv_listen listen_future
  | Srv_connection conn_future
  | Srv_done

text \<open>\<open>.await.unwrap()\<close> in the last expression: a poll of the awaited future, whose state \<open>wrap\<close> keeps.\<close>

definition await_unwrap ::
  "('f \<Rightarrow> server_future) \<Rightarrow> ((io_error + unit) option \<times> 'f \<times> 't \<times> 'w) res \<Rightarrow>
     (bool \<times> server_future \<times> 't \<times> 'w) run" where
  "await_unwrap wrap polled =
     run_then (Some polled) (\<lambda>(r, fut, t, w).
     case r of
       None \<Rightarrow> Some (Inr (False, wrap fut, t, w))
     | Some (Inl e) \<Rightarrow> Some (Inl Unwrap_panic)
     | Some (Inr _) \<Rightarrow> Some (Inr (True, Srv_done, t, w)))"

definition server_poll ::
  "nat \<Rightarrow> ('r, 'v, 'p) reactor_lib \<Rightarrow> (stats_type \<Rightarrow> 's \<Rightarrow> 's res) \<Rightarrow> (nat, 't) raw_vtable \<Rightarrow>
     ('t, ('r, 'v, 'p, 's, 'l) io_world) conn_spawn \<Rightarrow>
     ('t, server_future, ('r, 'v, 'p, 's, 'l) io_world) future_poll" where
  "server_poll N E inc vt spawn fut waker t w =
     (let listen = (\<lambda>f. await_unwrap Srv_listen (listen_poll E inc vt spawn f waker t w));
          connection = (\<lambda>f. await_unwrap Srv_connection (connection_poll N E inc vt f waker t w))
      in
      case fut of
        Srv_start Invoke_listen \<Rightarrow> listen Listen_start
      | Srv_start (Invoke_connection stream) \<Rightarrow> connection (Conn_start stream)
      | Srv_listen f \<Rightarrow> listen f
      | Srv_connection f \<Rightarrow> connection f
      | Srv_done \<Rightarrow> Some (Inl Resumed_panic))"

text \<open>
  The tasks of the executors that box are the blocks \<open>async { listen(..).await.unwrap() }\<close> and
  \<open>async { connection(..).await.unwrap() }\<close>, of the variants of both. A block that was not polled
  yet holds what it captured, as the two arguments of \<open>server_task\<close> do.
\<close>

definition block_poll ::
  "(listen_future \<Rightarrow> nat \<Rightarrow> 't \<Rightarrow> 'w \<Rightarrow> ((io_error + unit) option \<times> listen_future \<times> 't \<times> 'w) res) \<Rightarrow>
     (conn_future \<Rightarrow> nat \<Rightarrow> 't \<Rightarrow> 'w \<Rightarrow> ((io_error + unit) option \<times> conn_future \<times> 't \<times> 'w) res) \<Rightarrow>
     ('t, server_future, 'w) future_poll" where
  "block_poll listen connection fut waker t w =
     (case fut of
        Srv_start Invoke_listen \<Rightarrow> await_unwrap Srv_listen (listen Listen_start waker t w)
      | Srv_start (Invoke_connection stream) \<Rightarrow>
          await_unwrap Srv_connection (connection (Conn_start stream) waker t w)
      | Srv_listen f \<Rightarrow> await_unwrap Srv_listen (listen f waker t w)
      | Srv_connection f \<Rightarrow> await_unwrap Srv_connection (connection f waker t w)
      | Srv_done \<Rightarrow> Some (Inl Resumed_panic))"

lemma block_poll_server:
  "block_poll (listen_poll E inc vt spawn) (connection_poll N E inc vt) = server_poll N E inc vt spawn"
  by (intro ext)
    (simp add: block_poll_def server_poll_def split: server_future.split async_invoke.split)

definition server_drop ::
  "('r, 'v, 'p) reactor_lib \<Rightarrow> (stats_type \<Rightarrow> 's \<Rightarrow> 's res) \<Rightarrow> (nat, 't) raw_vtable \<Rightarrow>
     ('t, server_future, ('r, 'v, 'p, 's, 'l) io_world) future_drop" where
  "server_drop E inc vt fut t w =
     (case fut of
        Srv_start Invoke_listen \<Rightarrow> Inr (t, w)
      | Srv_start (Invoke_connection stream) \<Rightarrow> async_stream_drop E inc vt stream t w
      | Srv_listen f \<Rightarrow> listen_drop E inc vt f t w
      | Srv_connection f \<Rightarrow> connection_drop E inc vt f t w
      | Srv_done \<Rightarrow> Inr (t, w))"

end
