(* ===== verification/Async_Plan.thy ===== *)
theory Async_Plan
  imports Async_Tasks Executor_Contract
begin

section \<open>What is left to do in a run of the server\<close>

text \<open>
  Each task between two turns is a server that owes some calls and needs some more polls of the
  reactor: a connection owes its reads, writes and its unregistration, the listener owes those
  of every connection still to come as well. The sum over the tasks and the calls made so far
  make up the numbers the program prints; the largest number of polls needed is how often
  \<open>run\<close> goes on waiting. Nothing here is about the executor or the reactor.
\<close>

subsection \<open>Sums over the tasks\<close>

definition task_sum :: "('f \<Rightarrow> nat) \<Rightarrow> 'f tasks \<Rightarrow> nat" where
  "task_sum g m = (\<Sum>k\<in>dom m. case m k of None \<Rightarrow> 0 | Some (f, _) \<Rightarrow> g f)"

lemma task_sum_empty [simp]: "task_sum g Map.empty = 0"
  by (simp add: task_sum_def)

lemma task_sum_add:
  assumes "finite (dom m)" and "m k = None"
  shows "task_sum g (m(k \<mapsto> (f, r))) = task_sum g m + g f"
proof -
  have "(\<Sum>j\<in>dom m. case (m(k \<mapsto> (f, r))) j of None \<Rightarrow> 0 | Some (f, _) \<Rightarrow> g f) = task_sum g m"
    unfolding task_sum_def using assms(2) by (intro sum.cong) auto
  moreover have "k \<notin> dom m" using assms(2) by auto
  ultimately show ?thesis using assms(1) by (simp add: task_sum_def [of g "m(k \<mapsto> (f, r))"])
qed

lemma task_sum_remove:
  assumes "finite (dom m)" and "m k = Some (f, r)"
  shows "task_sum g (m(k := None)) + g f = task_sum g m"
proof -
  have "(m(k := None))(k \<mapsto> (f, r)) = m" using assms(2) by auto
  with task_sum_add [of "m(k := None)" k g f r] assms(1) show ?thesis by simp
qed

lemma task_sum_upd:
  assumes "finite (dom m)" and "m k = Some (f, r)"
  shows "task_sum g (m(k \<mapsto> (f', r'))) + g f = task_sum g m + g f'"
  using task_sum_remove [OF assms, of g] task_sum_add [of "m(k := None)" k g f' r'] assms(1) by simp

lemma task_sum_cong:
  assumes "\<And>k. map_option fst (m' k) = map_option fst (m k)" shows "task_sum g m' = task_sum g m"
proof -
  have "m' k = None \<longleftrightarrow> m k = None" for k using assms [of k] by (metis map_option_is_None)
  then have "dom m' = dom m" unfolding dom_def by simp
  moreover have "(case m' k of None \<Rightarrow> 0 | Some (f, _) \<Rightarrow> g f) = (case m k of None \<Rightarrow> 0 | Some (f, _) \<Rightarrow> g f)" for k
    using assms [of k] by (cases "m' k"; cases "m k") auto
  ultimately show ?thesis unfolding task_sum_def by simp
qed

lemma task_sum_card:
  assumes "finite (dom m)" and "\<And>k f r. m k = Some (f, r) \<Longrightarrow> 1 \<le> g f" shows "card (dom m) \<le> task_sum g m"
proof -
  have "(\<Sum>k\<in>dom m. 1) \<le> task_sum g m"
    unfolding task_sum_def using assms(2) by (intro sum_mono) (auto split: option.split)
  then show ?thesis by simp
qed

lemma task_sum_card_but:
  assumes "finite (dom m)" and "\<And>k f r. m k = Some (f, r) \<Longrightarrow> 1 \<le> g f" and "m k = Some (f, r)"
  shows "card (dom m) + g f \<le> task_sum g m + 1"
proof -
  have "card (dom (m(k := None))) \<le> task_sum g (m(k := None))"
    using assms(1,2) by (intro task_sum_card) (auto split: if_splits)
  moreover have "card (dom m) = card (dom (m(k := None))) + 1"
    using card_Suc_Diff1 [OF assms(1), of k] assms(3) by (simp add: domIff)
  ultimately show ?thesis using task_sum_remove [OF assms(1,3), of g] by simp
qed

subsection \<open>The states between turns\<close>

text \<open>The registration a future waits for, and its place in the poller.\<close>

definition stream_handle :: "async_stream \<Rightarrow> (nat \<times> nat) option" where
  "stream_handle s = map_option (\<lambda>i. (as_key s, i)) (fs_poll_index (as_inner s))"

definition listener_handle :: "async_listener \<Rightarrow> (nat \<times> nat) option" where
  "listener_handle l = map_option (\<lambda>i. (al_key l, i)) (fl_poll_index (al_inner l))"

fun srv_handle :: "server_future \<Rightarrow> (nat \<times> nat) option" where
  "srv_handle (Srv_start Invoke_listen) = None"
| "srv_handle (Srv_start (Invoke_connection s)) = stream_handle s"
| "srv_handle (Srv_listen (Listen_accepting l n)) = listener_handle l"
| "srv_handle (Srv_connection (Conn_start s)) = stream_handle s"
| "srv_handle (Srv_connection (Conn_reading c)) = stream_handle (cf_stream c)"
| "srv_handle (Srv_connection (Conn_writing c)) = stream_handle (cf_stream c)"
| "srv_handle _ = None"

fun srv_rests :: "nat \<Rightarrow> bool \<Rightarrow> server_future \<Rightarrow> bool" where
  "srv_rests N awake (Srv_start Invoke_listen) \<longleftrightarrow> awake"
| "srv_rests N awake (Srv_start (Invoke_connection s)) \<longleftrightarrow>
     awake \<and> even (fs_calls (as_inner s)) \<and> fs_poll_index (as_inner s) \<noteq> None"
| "srv_rests N awake (Srv_listen (Listen_accepting l n)) \<longleftrightarrow>
     n < 256 \<and> odd (fl_calls (al_inner l)) \<and> fl_poll_index (al_inner l) \<noteq> None"
| "srv_rests N awake (Srv_connection (Conn_reading c)) \<longleftrightarrow>
     odd (fs_calls (as_inner (cf_stream c))) \<and> fs_poll_index (as_inner (cf_stream c)) \<noteq> None \<and>
     cf_buf_len c = 0 \<and> length (cf_buf c) = N"
| "srv_rests N awake (Srv_connection (Conn_writing c)) \<longleftrightarrow>
     odd (fs_calls (as_inner (cf_stream c))) \<and> fs_poll_index (as_inner (cf_stream c)) \<noteq> None \<and>
     cf_buf_len c = 12 \<and> cf_sent c = 0 \<and> length (cf_buf c) = N"
| "srv_rests N awake _ \<longleftrightarrow> False"

fun owed :: "server_future \<Rightarrow> stats_type \<Rightarrow> nat" where
  "owed (Srv_start Invoke_listen) = tally 257 257 0 512 512 512"
| "owed (Srv_start (Invoke_connection s)) = tally 0 1 0 0 2 2"
| "owed (Srv_listen (Listen_accepting l n)) =
     tally (256 - n) (257 - n) 0 (2 * (256 - n) - 1) (2 * (256 - n)) (2 * (256 - n))"
| "owed (Srv_connection (Conn_reading c)) = tally 0 1 0 0 1 2"
| "owed (Srv_connection (Conn_writing c)) = tally 0 1 0 0 0 1"
| "owed _ = tally 0 0 0 0 0 0"

fun waits :: "bool \<Rightarrow> server_future \<Rightarrow> nat" where
  "waits awake (Srv_start Invoke_listen) = 258"
| "waits awake (Srv_start (Invoke_connection s)) = 2"
| "waits awake (Srv_listen (Listen_accepting l n)) = (if awake then 257 - n else 258 - n)"
| "waits awake (Srv_connection (Conn_reading c)) = (if awake then 1 else 2)"
| "waits awake (Srv_connection (Conn_writing c)) = (if awake then 0 else 1)"
| "waits awake _ = 0"

text \<open>The turns the queued tasks take before the queue is empty: the listener queues one more.\<close>

fun turns :: "server_future \<Rightarrow> nat" where
  "turns (Srv_start Invoke_listen) = 2"
| "turns (Srv_listen _) = 2"
| "turns _ = 1"

definition effort :: "server_future tasks \<Rightarrow> nat list \<Rightarrow> nat" where
  "effort m xs = sum_list (map (\<lambda>j. case m j of None \<Rightarrow> 0 | Some (f, _) \<Rightarrow> turns f) xs)"

lemma effort_upd: "k \<notin> set xs \<Longrightarrow> effort (m(k := v)) xs = effort m xs"
  by (auto simp: effort_def intro!: arg_cong [of _ _ sum_list] map_cong)

lemma effort_add:
  assumes "k \<notin> set xs" shows "effort (m(k \<mapsto> (f, r))) (xs @ [k]) = effort m xs + turns f"
  using effort_upd [OF assms, of m "Some (f, r)"] by (simp add: effort_def)

lemma effort_Cons: "m k = Some (f, r) \<Longrightarrow> effort m (k # xs) = turns f + effort m xs"
  by (simp add: effort_def)

lemma turns_pos: "0 < turns f"
  by (cases f rule: turns.cases) simp_all

subsection \<open>The plan\<close>

text \<open>
  \<open>plan N D m xs\<close>: every task is in one of the states above, needs at most \<open>D\<close> more polls, and
  if \<open>D\<close> is not zero, one task needs as many.
\<close>

definition plan :: "nat \<Rightarrow> nat \<Rightarrow> server_future tasks \<Rightarrow> nat list \<Rightarrow> bool" where
  "plan N D m xs \<longleftrightarrow>
     (\<forall>k f r. m k = Some (f, r) \<longrightarrow> srv_rests N (k \<in> set xs) f \<and> waits (k \<in> set xs) f \<le> D) \<and>
     (D = 0 \<or> (\<exists>k f r. m k = Some (f, r) \<and> waits (k \<in> set xs) f = D))"

lemma planD:
  assumes "plan N D m xs" and "m k = Some (f, r)"
  shows "srv_rests N (k \<in> set xs) f" and "waits (k \<in> set xs) f \<le> D"
  using assms by (auto simp: plan_def)

lemma plan_sleep:
  assumes p: "plan N D m (k # xs)" and "k \<notin> set xs" and m: "m k = Some (f, r)"
    and "srv_rests N False f'" and w: "waits False f' = waits True f"
  shows "plan N D (m(k \<mapsto> (f', r'))) xs"
proof -
  have "srv_rests N (j \<in> set xs) g \<and> waits (j \<in> set xs) g \<le> D" if "(m(k \<mapsto> (f', r'))) j = Some (g, a)" for j g a
    using planD [OF p, of j g a] planD [OF p m] that assms(2,4) w by (auto split: if_splits)
  moreover have "\<exists>j g a. (m(k \<mapsto> (f', r'))) j = Some (g, a) \<and> waits (j \<in> set xs) g = D" if nz: "D \<noteq> 0"
  proof -
    obtain j g a where j: "m j = Some (g, a)" "waits (j \<in> set (k # xs)) g = D"
      using p nz unfolding plan_def by blast
    show ?thesis
    proof (cases "j = k")
      case True
      with j m w assms(2) show ?thesis by (intro exI [of _ k]) auto
    next
      case False
      with j show ?thesis by (intro exI [of _ j]) auto
    qed
  qed
  ultimately show ?thesis unfolding plan_def by blast
qed

lemma plan_finish:
  assumes p: "plan N D m (k # xs)" and m: "m k = Some (f, r)"
    and w: "waits True f = 0 \<or> (\<exists>j g a. j \<noteq> k \<and> m j = Some (g, a) \<and> waits (j \<in> set xs) g = waits True f)"
  shows "plan N D (m(k := None)) xs"
proof -
  have "srv_rests N (j \<in> set xs) g \<and> waits (j \<in> set xs) g \<le> D" if "(m(k := None)) j = Some (g, a)" for j g a
    using planD [OF p, of j g a] that by (auto split: if_splits)
  moreover have "\<exists>j g a. (m(k := None)) j = Some (g, a) \<and> waits (j \<in> set xs) g = D" if nz: "D \<noteq> 0"
  proof -
    obtain j g a where j: "m j = Some (g, a)" "waits (j \<in> set (k # xs)) g = D"
      using p nz unfolding plan_def by blast
    show ?thesis
    proof (cases "j = k")
      case True
      with j m have "waits True f = D" by simp
      with w nz obtain i h b where "i \<noteq> k" "m i = Some (h, b)" "waits (i \<in> set xs) h = D" by auto
      then show ?thesis by (intro exI [of _ i]) auto
    next
      case False
      with j show ?thesis by (intro exI [of _ j]) auto
    qed
  qed
  ultimately show ?thesis unfolding plan_def by blast
qed

lemma plan_add:
  assumes p: "plan N D m xs" and "m k = None" and "set xs \<subseteq> dom m"
    and "srv_rests N True f" and "waits True f \<le> D"
  shows "plan N D (m(k \<mapsto> (f, r))) (xs @ [k])"
proof -
  have "srv_rests N (j \<in> set (xs @ [k])) g \<and> waits (j \<in> set (xs @ [k])) g \<le> D"
    if "(m(k \<mapsto> (f, r))) j = Some (g, a)" for j g a
    using planD [OF p, of j g a] that assms(4,5) by (auto split: if_splits)
  moreover have "\<exists>j g a. (m(k \<mapsto> (f, r))) j = Some (g, a) \<and> waits (j \<in> set (xs @ [k])) g = D" if nz: "D \<noteq> 0"
  proof -
    obtain j g a where j: "m j = Some (g, a)" "waits (j \<in> set xs) g = D"
      using p nz unfolding plan_def by blast
    moreover from j have "j \<noteq> k" using assms(2) by auto
    ultimately show ?thesis by (intro exI [of _ j]) auto
  qed
  ultimately show ?thesis unfolding plan_def by blast
qed

text \<open>Only the order of the queue does not matter.\<close>

lemma plan_set: "set xs = set ys \<Longrightarrow> plan N D m xs \<longleftrightarrow> plan N D m ys"
  by (simp only: plan_def)

text \<open>After a poll of the reactor that woke all tasks each needs one poll less.\<close>

lemma waits_wake: "srv_rests N False f \<Longrightarrow> waits True f = waits False f - 1 \<and> 0 < waits False f \<and> srv_rests N True f"
  by (cases "(False, f)" rule: waits.cases) auto

lemma plan_wake:
  assumes p: "plan N D m []" and "m \<noteq> Map.empty"
    and same: "\<And>k. map_option fst (m' k) = map_option fst (m k)" and "set ys = dom m"
  shows "0 < D" and "plan N (D - 1) m' ys"
proof -
  have m': "\<exists>r. m k = Some (f, r)" if "m' k = Some (f, r')" for k f r'
    using same [of k] that by (cases "m k") auto
  have m: "\<exists>r. m' k = Some (f, r)" if "m k = Some (f, r')" for k f r'
    using same [of k] that by (cases "m' k") auto
  have r: "waits True f = waits False f - 1 \<and> 0 < waits False f \<and> srv_rests N True f \<and> waits False f \<le> D"
    if "m k = Some (f, r)" for k f r
    using planD [OF p that] waits_wake by auto
  obtain k f a where "m k = Some (f, a)" using assms(2) by (metis ext surj_pair not_None_eq)
  with r show pos: "0 < D" by fastforce
  have "srv_rests N (k \<in> set ys) f \<and> waits (k \<in> set ys) f \<le> D - 1" if "m' k = Some (f, a)" for k f a
  proof -
    from m' [OF that] obtain b where b: "m k = Some (f, b)" by blast
    moreover from this have "k \<in> set ys" using assms(4) by auto
    ultimately show ?thesis using r [OF b] by (simp add: diff_le_mono)
  qed
  moreover have "\<exists>k f a. m' k = Some (f, a) \<and> waits (k \<in> set ys) f = D - 1"
  proof -
    from p pos obtain k f b where b: "m k = Some (f, b)" "waits (k \<in> set []) f = D"
      unfolding plan_def by auto
    moreover from b have "k \<in> set ys" using assms(4) by auto
    moreover obtain a where "m' k = Some (f, a)" using m [OF b(1)] by blast
    ultimately show ?thesis using r [OF b(1)] by (intro exI [of _ k] exI [of _ f] exI [of _ a]) simp
  qed
  ultimately show "plan N (D - 1) m' ys" unfolding plan_def by blast
qed

end
