(* ===== verification/Reactor_Correct.thy ===== *)
theory Reactor_Correct
  imports Reactor
begin

section \<open>The reactor is right\<close>

text \<open>
  \<open>io_rep E n w G H\<close>: the reactor of \<open>w\<close> has room for \<open>n\<close> registrations and holds \<open>G\<close>; \<open>H\<close> gives
  the place of each of them in the poller, which holds nothing else. The lemmas say what every
  operation does to the two maps. Inside \<open>stats_trait\<close> they count the calls; the operations on
  wakers are shown inside the contract of an executor.
\<close>

abbreviation reactor_regs :: "('r, 'v, 'p, 's, 'l) io_world \<Rightarrow> 'r" where
  "reactor_regs w \<equiv> registrations (cell_data (fr_data (io_reactor w)))"

abbreviation reactor_items :: "('r, 'v, 'p, 's, 'l) io_world \<Rightarrow> 'p" where
  "reactor_items w \<equiv> poll_items (fr_poll (io_reactor w))"

definition lib_ok :: "('r, 'v, 'p) reactor_lib \<Rightarrow> bool" where
  "lib_ok E \<longleftrightarrow> slab_ok (lib_regs E) \<and> slab_ok (lib_events E) \<and> slab_ok (lib_items E) \<and>
     (\<forall>p q. lib_will_wake E p q \<longrightarrow> p = q)"

lemma lib_okD:
  assumes "lib_ok E"
  shows "slab_ok (lib_regs E)" and "slab_ok (lib_events E)" and "slab_ok (lib_items E)"
    and "lib_will_wake E p q \<Longrightarrow> p = q"
  using assms by (auto simp: lib_ok_def)

definition io_rep ::
  "('r, 'v, 'p) reactor_lib \<Rightarrow> nat \<Rightarrow> ('r, 'v, 'p, 's, 'l) io_world \<Rightarrow>
     (nat \<Rightarrow> event_registration option) \<Rightarrow> (nat \<Rightarrow> nat option) \<Rightarrow> bool" where
  "io_rep E n w G H \<longleftrightarrow>
     lib_ok E \<and> \<not> cell_borrowed (fr_data (io_reactor w)) \<and>
     slab_capacity (lib_regs E) (reactor_regs w) = n \<and>
     im_get (lib_regs E) (reactor_regs w) = G \<and> dom H = dom G \<and>
     (\<forall>i k. (\<exists>v. im_get (lib_items E) (reactor_items w) i = Some (v, k)) \<longleftrightarrow> H k = Some i)"

lemma io_repD:
  assumes "io_rep E n w G H"
  shows "lib_ok E" and "\<not> cell_borrowed (fr_data (io_reactor w))"
    and "slab_capacity (lib_regs E) (reactor_regs w) = n"
    and "im_get (lib_regs E) (reactor_regs w) = G" and "dom H = dom G"
    and "H k = Some i \<Longrightarrow> \<exists>v. im_get (lib_items E) (reactor_items w) i = Some (v, k)"
    and "im_get (lib_items E) (reactor_items w) i = Some (v, k) \<Longrightarrow> H k = Some i"
  using assms unfolding io_rep_def by blast+

text \<open>The world with other registrations, or with other counters.\<close>

abbreviation put_regs :: "'r \<Rightarrow> ('r, 'v, 'p, 's, 'l) io_world \<Rightarrow> ('r, 'v, 'p, 's, 'l) io_world" where
  "put_regs regs w \<equiv> w\<lparr>io_reactor := (io_reactor w)\<lparr>fr_data := (fr_data (io_reactor w))
     \<lparr>cell_data := (cell_data (fr_data (io_reactor w)))\<lparr>registrations := regs\<rparr>\<rparr>\<rparr>\<rparr>"

lemma io_rep_put:
  assumes "io_rep E n w G H" and "G key = Some r"
  shows "io_rep E n (put_regs (im_set (lib_regs E) (reactor_regs w) key r') w) (G(key \<mapsto> r')) H"
  using assms slab_get_set [OF lib_okD(1) [OF io_repD(1) [OF assms(1)]]]
    slab_set_capacity [OF lib_okD(1) [OF io_repD(1) [OF assms(1)]]]
  by (auto simp: io_rep_def)

lemma io_rep_stats: "io_rep E n w G H \<Longrightarrow> io_rep E n (w\<lparr>io_stats := st\<rparr>) G H"
  by (simp add: io_rep_def)

lemma io_rep_links: "io_rep E n w G H \<Longrightarrow> io_rep E n (w\<lparr>io_links := l\<rparr>) G H"
  by (simp add: io_rep_def)

lemma reactor_borrow_eq:
  "\<not> cell_borrowed (fr_data (io_reactor w)) \<Longrightarrow>
     reactor_borrow w f = and_then (f (cell_data (fr_data (io_reactor w)))) (\<lambda>(a, data).
       Inr (a, w\<lparr>io_reactor := (io_reactor w)\<lparr>fr_data := (fr_data (io_reactor w))\<lparr>cell_data := data\<rparr>\<rparr>\<rparr>))"
  by (cases "f (cell_data (fr_data (io_reactor w)))")
    (auto simp: reactor_borrow_def with_borrow_def split: prod.splits)

lemma reg_is_ready_eq: "io_rep E n w G H \<Longrightarrow> G key = Some r \<Longrightarrow> reg_is_ready E key w = Inr (er_ready r)"
  using io_repD(2,4) [of E n w G H] by (simp add: reg_is_ready_def)

lemma reg_set_ready_ok:
  assumes "io_rep E n w G H" and "G key = Some r"
  shows "\<exists>w'. reg_set_ready E key b w = Inr w' \<and> io_rep E n w' (G(key \<mapsto> r\<lparr>er_ready := b\<rparr>)) H \<and>
    io_stats w' = io_stats w \<and> io_links w' = io_links w"
  using io_repD(2,4) [OF assms(1)] io_rep_put [OF assms, of "r\<lparr>er_ready := b\<rparr>"] assms(2)
  by (simp add: reg_set_ready_def reactor_borrow_eq)

text \<open>Without a waker the handle of a registration can be dropped without the executor.\<close>

lemma reg_handle_drop_eq:
  assumes "lib_ok E" and "\<not> cell_borrowed (fr_data (io_reactor w))"
    and "im_get (lib_regs E) (reactor_regs w) key = Some r" and "er_waker r = None"
  shows "reg_handle_drop E vt key t w =
    Inr (t, put_regs (slab_remove (lib_regs E) (reactor_regs w) key) w)"
  using assms by (simp add: reg_handle_drop_def reactor_borrow_eq waker_drop_def)

lemma io_rep_len:
  assumes "io_rep E n w G H"
  shows "slab_len (lib_regs E) (reactor_regs w) = card (dom G)" and "finite (dom G)"
  using slab_len_card [OF lib_okD(1) [OF io_repD(1) [OF assms]], of "reactor_regs w"]
    slab_finite [OF lib_okD(1) [OF io_repD(1) [OF assms]], of "reactor_regs w"] io_repD(4) [OF assms]
  by simp_all

lemma reactor_new_rep:
  assumes "lib_ok E"
  shows "io_rep E n \<lparr>io_reactor = reactor_new E n, io_stats = st, io_links = l\<rparr> Map.empty Map.empty"
  using assms slab_new [OF lib_okD(1) [OF assms]] slab_new [OF lib_okD(3) [OF assms]]
    slab_new_capacity [OF lib_okD(1) [OF assms]]
  by (simp add: io_rep_def reactor_new_def poll_new_def)

lemma reactor_drop_clean:
  assumes "io_rep E n w Map.empty H" shows "reactor_drop E vt t (io_reactor w) = Inr t"
proof -
  have "slab_iter (lib_regs E) (reactor_regs w) = []"
    using slab_iter_map [OF lib_okD(1) [OF io_repD(1) [OF assms]], of "reactor_regs w"]
      io_repD(4) [OF assms] by simp
  moreover have "im_get (lib_items E) (reactor_items w) i = None" for i
    using io_repD(5,7) [OF assms] by (cases "im_get (lib_items E) (reactor_items w) i") fastforce+
  then have "slab_empty (lib_items E) (reactor_items w)"
    using slab_empty_iff [OF lib_okD(3) [OF io_repD(1) [OF assms]]] by blast
  ultimately show ?thesis by (simp add: reactor_drop_def poll_drop_def)
qed

text \<open>A full reactor refuses registrations.\<close>

lemma reactor_register_full:
  assumes "io_rep E n w G H" and "card (dom G) = n"
  shows "reactor_register E inc T h interest w = Inr (Inl WriteZero, h, w)"
  using io_repD(2,3) [OF assms(1)] io_rep_len(1) [OF assms(1)] assms(2)
  by (simp add: reactor_register_def)

context stats_trait
begin

text \<open>The world after a call that reported \<open>ty\<close> once.\<close>

definition io_reported :: "('r, 'v, 'p, 't, 'l) io_world \<Rightarrow> stats_type \<Rightarrow>
    ('r, 'v, 'p, 't, 'l) io_world \<Rightarrow> bool" where
  "io_reported w ty w' \<longleftrightarrow> reported (io_stats w) ty (io_stats w') \<and> io_links w' = io_links w"

lemma io_reportedD:
  assumes "io_reported w ty w'"
  shows "reported (io_stats w) ty (io_stats w')" and "ready (io_stats w')" and "io_links w' = io_links w"
  using assms reported_ready by (auto simp: io_reported_def)

lemma reactor_register_ok:
  assumes rep: "io_rep E n w G H" and room: "card (dom G) < n" and "ready (io_stats w)"
  shows "\<exists>key i w'. reactor_register E inc T h interest w =
      Inr (Inr key, set_poll_index T (Some i) h, w') \<and> G key = None \<and>
    io_rep E n w' (G(key \<mapsto> \<lparr>er_ready = False, er_waker = None\<rparr>)) (H(key \<mapsto> i)) \<and>
    io_reported w Register w'"
proof -
  let ?R = "lib_regs E" and ?P = "lib_items E"
  let ?key = "vacant_key ?R (reactor_regs w)" and ?i = "vacant_key ?P (reactor_items w)"
  let ?reg = "\<lparr>er_ready = False, er_waker = None\<rparr>"
  note R = lib_okD(1) [OF io_repD(1) [OF rep]] and P = lib_okD(3) [OF io_repD(1) [OF rep]]
  obtain st' where st: "poll_register ?P inc T (fr_poll (io_reactor w)) h ?key interest (io_stats w) =
      Inr ((fr_poll (io_reactor w))\<lparr>poll_items := slab_insert ?P (reactor_items w) (interest, ?key)\<rparr>,
           set_poll_index T (Some ?i) h, st')" "reported (io_stats w) Register st'"
    using register_adds [OF assms(3), of ?P T "fr_poll (io_reactor w)" h ?key interest] by blast
  let ?w = "w\<lparr>io_reactor := \<lparr>fr_data = (fr_data (io_reactor w))\<lparr>cell_data :=
        (cell_data (fr_data (io_reactor w)))\<lparr>registrations := slab_insert ?R (reactor_regs w) ?reg\<rparr>\<rparr>,
      fr_poll = (fr_poll (io_reactor w))\<lparr>poll_items := slab_insert ?P (reactor_items w) (interest, ?key)\<rparr>\<rparr>,
    io_stats := st'\<rparr>"
  have len: "slab_len ?R (reactor_regs w) < slab_capacity ?R (reactor_regs w)"
    using io_rep_len(1) [OF rep] io_repD(3) [OF rep] room by simp
  then have "reactor_register E inc T h interest w = Inr (Inr ?key, set_poll_index T (Some ?i) h, ?w)"
    using st(1) io_repD(2) [OF rep] by (simp add: reactor_register_def slab_add_def)
  moreover have fresh: "G ?key = None" using slab_vacant [OF R] io_repD(4) [OF rep] by metis
  then have Hf: "H ?key = None" using io_repD(5) [OF rep] by blast
  have no: "im_get ?P (reactor_items w) ?i = None" by (rule slab_vacant [OF P])
  have "(\<exists>v. im_get ?P (slab_insert ?P (reactor_items w) (interest, ?key)) i = Some (v, k)) \<longleftrightarrow>
      (H(?key \<mapsto> ?i)) k = Some i" for i k
    using slab_get_insert [OF P] no Hf io_repD(6) [OF rep, of k i] io_repD(7) [OF rep, of i _ k]
    by (cases "k = ?key"; cases "i = ?i") auto
  then have "io_rep E n ?w (G(?key \<mapsto> ?reg)) (H(?key \<mapsto> ?i))"
    using io_repD(1-5) [OF rep] slab_get_insert [OF R] slab_insert_capacity [OF R len]
    by (auto simp: io_rep_def)
  moreover have "io_reported w Register ?w" using st(2) by (simp add: io_reported_def)
  ultimately show ?thesis using fresh by blast
qed

lemma async_stream_new_ok:
  assumes "io_rep E n w G H" and "card (dom G) < n" and "ready (io_stats w)"
  shows "\<exists>key i w'. async_stream_new E inc s w =
      Inr (\<lparr>as_inner = s\<lparr>fs_poll_index := Some i\<rparr>, as_key = key\<rparr>, w') \<and> G key = None \<and>
    io_rep E n w' (G(key \<mapsto> \<lparr>er_ready = True, er_waker = None\<rparr>)) (H(key \<mapsto> i)) \<and>
    io_reported w Register w'"
proof -
  obtain key i w1 where r: "reactor_register E inc stream_evented s (or READABLE WRITABLE) w =
      Inr (Inr key, s\<lparr>fs_poll_index := Some i\<rparr>, w1)" "G key = None"
      "io_rep E n w1 (G(key \<mapsto> \<lparr>er_ready = False, er_waker = None\<rparr>)) (H(key \<mapsto> i))"
      "io_reported w Register w1"
    using reactor_register_ok [OF assms, of stream_evented s "or READABLE WRITABLE"] by auto
  from reg_set_ready_ok [OF r(3), of key _ True] r(1,2,4) show ?thesis
    by (auto simp: async_stream_new_def io_reported_def)
qed

lemma async_listener_new_ok:
  assumes "io_rep E n w G H" and "card (dom G) < n" and "ready (io_stats w)"
  shows "\<exists>key i w'. async_listener_new E inc w =
      Inr (\<lparr>al_inner = fake_listener_new\<lparr>fl_poll_index := Some i\<rparr>, al_key = key\<rparr>, w') \<and> G key = None \<and>
    io_rep E n w' (G(key \<mapsto> \<lparr>er_ready = True, er_waker = None\<rparr>)) (H(key \<mapsto> i)) \<and>
    io_reported w Register w'"
proof -
  obtain key i w1 where r: "reactor_register E inc listener_evented fake_listener_new READABLE w =
      Inr (Inr key, fake_listener_new\<lparr>fl_poll_index := Some i\<rparr>, w1)" "G key = None"
      "io_rep E n w1 (G(key \<mapsto> \<lparr>er_ready = False, er_waker = None\<rparr>)) (H(key \<mapsto> i))"
      "io_reported w Register w1"
    using reactor_register_ok [OF assms, of listener_evented fake_listener_new READABLE] by auto
  from reg_set_ready_ok [OF r(3), of key _ True] r(1,2,4) show ?thesis
    by (auto simp: async_listener_new_def io_reported_def Let_def)
qed

lemma reactor_forget_ok:
  assumes rep: "io_rep E n w G H" and "ready (io_stats w)" and g: "G key = Some r" "er_waker r = None"
    and h: "H key = Some i" "get_poll_index T h = Some i"
  shows "\<exists>w'. and_then (reactor_unregister E inc T h w) (\<lambda>(_, w). reg_handle_drop E vt key t w) =
      Inr (t, w') \<and> io_rep E n w' (G(key := None)) (H(key := None)) \<and> io_reported w Unregister w'"
proof -
  let ?R = "lib_regs E" and ?P = "lib_items E"
  note R = lib_okD(1) [OF io_repD(1) [OF rep]] and P = lib_okD(3) [OF io_repD(1) [OF rep]]
  obtain v where v: "im_get ?P (reactor_items w) i = Some (v, key)"
    using io_repD(6) [OF rep h(1)] by blast
  obtain st' where u: "poll_unregister ?P inc T (fr_poll (io_reactor w)) h (io_stats w) =
      Inr ((fr_poll (io_reactor w))\<lparr>poll_items := slab_remove ?P (reactor_items w) i\<rparr>,
        set_poll_index T None h, st')" "reported (io_stats w) Unregister st'"
    using unregister_removes [OF assms(2) h(2) v] by blast
  let ?w1 = "w\<lparr>io_reactor := (io_reactor w)\<lparr>fr_poll := (fr_poll (io_reactor w))
    \<lparr>poll_items := slab_remove ?P (reactor_items w) i\<rparr>\<rparr>, io_stats := st'\<rparr>"
  let ?w2 = "put_regs (slab_remove ?R (reactor_regs w) key) ?w1"
  have "reg_handle_drop E vt key t ?w1 = Inr (t, ?w2)"
    using reg_handle_drop_eq [OF io_repD(1) [OF rep], of ?w1 key r vt t] io_repD(2,4) [OF rep] g by simp
  then have "and_then (reactor_unregister E inc T h w) (\<lambda>(_, w). reg_handle_drop E vt key t w) =
      Inr (t, ?w2)"
    using u(1) by (simp add: reactor_unregister_def)
  moreover have one: "(\<exists>v. im_get ?P (slab_remove ?P (reactor_items w) i) j = Some (v, k)) \<longleftrightarrow>
      (H(key := None)) k = Some j" for j k
    using slab_get_remove [OF P, of "reactor_items w" i] v io_repD(6) [OF rep, of k j]
      io_repD(7) [OF rep, of j _ k] h(1)
    by (cases "k = key"; cases "j = i") auto
  have "im_get ?R (slab_remove ?R (reactor_regs w) key) = G(key := None)"
    "slab_capacity ?R (slab_remove ?R (reactor_regs w) key) = n"
    using slab_get_remove [OF R, of "reactor_regs w" key] slab_remove_capacity [OF R, of "reactor_regs w" key]
      g(1) io_repD(3,4) [OF rep] by auto
  then have "io_rep E n ?w2 (G(key := None)) (H(key := None))"
    using one io_repD(1,2,5) [OF rep] by (auto simp: io_rep_def)
  ultimately show ?thesis using u(2) by (auto simp: io_reported_def)
qed

lemma async_stream_drop_ok:
  assumes "io_rep E n w G H" and "ready (io_stats w)"
    and "G (as_key s) = Some r" and "er_waker r = None"
    and "H (as_key s) = Some i" and "fs_poll_index (as_inner s) = Some i"
  shows "\<exists>w'. async_stream_drop E inc vt s t w = Inr (t, w') \<and>
    io_rep E n w' (G(as_key s := None)) (H(as_key s := None)) \<and> io_reported w Unregister w'"
  using reactor_forget_ok [OF assms(1-5), of stream_evented "as_inner s" vt t] assms(6)
  by (simp add: async_stream_drop_def)

lemma async_listener_drop_ok:
  assumes "io_rep E n w G H" and "ready (io_stats w)"
    and "G (al_key l) = Some r" and "er_waker r = None"
    and "H (al_key l) = Some i" and "fl_poll_index (al_inner l) = Some i"
  shows "\<exists>w'. async_listener_drop E inc vt l t w = Inr (t, w') \<and>
    io_rep E n w' (G(al_key l := None)) (H(al_key l := None)) \<and> io_reported w Unregister w'"
  using reactor_forget_ok [OF assms(1-5), of listener_evented "al_inner l" vt t] assms(6)
  by (simp add: async_listener_drop_def)

end


subsection \<open>Wakers and their tasks\<close>

text \<open>
  Between two turns a task that is queued has no waker in the reactor and its registration is
  ready; a task that sleeps has left its waker there, which is its second reference, and its
  registration is not ready. \<open>kf\<close> gives the registration and the place in the poller a future
  uses. \<open>watched\<close> says this of all tasks, and that every registration belongs to one of them.
\<close>

definition reg_of :: "bool \<Rightarrow> nat \<Rightarrow> event_registration" where
  "reg_of awake p = \<lparr>er_ready = awake, er_waker = (if awake then None else Some p)\<rparr>"

lemma reg_of_simps [simp]:
  "er_ready (reg_of b p) = b"
  "er_waker (reg_of True p) = None"
  "er_waker (reg_of False p) = Some p"
  "reg_of False p\<lparr>er_ready := True, er_waker := None\<rparr> = reg_of True q"
  "reg_of True p\<lparr>er_ready := True\<rparr> = reg_of True q"
  by (simp_all add: reg_of_def)

lemma reg_of_awake: "reg_of True p = reg_of True q"
  by (simp add: reg_of_def)

definition watched_by ::
  "(nat \<Rightarrow> nat) \<Rightarrow> ('f \<Rightarrow> (nat \<times> nat) option) \<Rightarrow> nat list \<Rightarrow> (nat \<Rightarrow> event_registration option) \<Rightarrow>
     (nat \<Rightarrow> nat option) \<Rightarrow> nat \<Rightarrow> 'f \<Rightarrow> usize \<Rightarrow> bool" where
  "watched_by wk kf xs G H k f r \<longleftrightarrow>
     r = (if k \<in> set xs then 1 else 2) \<and>
     (case kf f of
        None \<Rightarrow> k \<in> set xs
      | Some (key, i) \<Rightarrow> G key = Some (reg_of (k \<in> set xs) (wk k)) \<and> H key = Some i)"

definition handle_of :: "('f \<Rightarrow> (nat \<times> nat) option) \<Rightarrow> 'f tasks \<Rightarrow> nat \<Rightarrow> nat option" where
  "handle_of kf m k = Option.bind (m k) (\<lambda>(f, _). map_option fst (kf f))"

lemma handle_of_eq: "m k = Some (f, r) \<Longrightarrow> handle_of kf m k = map_option fst (kf f)"
  by (simp add: handle_of_def)

lemma handle_of_upd:
  "handle_of kf (m(k \<mapsto> (f, r))) = (handle_of kf m)(k := map_option fst (kf f))"
  "handle_of kf (m(k := None)) = (handle_of kf m)(k := None)"
  by (auto simp: handle_of_def)

lemma handle_of_same:
  "m k = Some (f, r) \<Longrightarrow> map_option fst (kf f') = map_option fst (kf f) \<Longrightarrow>
     handle_of kf (m(k \<mapsto> (f', r'))) = handle_of kf m"
  by (auto simp: handle_of_def)

lemma handle_of_SomeD:
  "handle_of kf m k = Some key \<Longrightarrow> \<exists>f r i. m k = Some (f, r) \<and> kf f = Some (key, i)"
  by (auto simp: handle_of_def bind_eq_Some_conv)

definition watched ::
  "(nat \<Rightarrow> nat) \<Rightarrow> ('f \<Rightarrow> (nat \<times> nat) option) \<Rightarrow> 'f tasks \<Rightarrow> nat list \<Rightarrow>
     (nat \<Rightarrow> event_registration option) \<Rightarrow> (nat \<Rightarrow> nat option) \<Rightarrow> bool" where
  "watched wk kf m xs G H \<longleftrightarrow>
     (\<forall>k f r. m k = Some (f, r) \<longrightarrow> watched_by wk kf xs G H k f r) \<and>
     inj_on (handle_of kf m) (dom (handle_of kf m)) \<and> dom G \<subseteq> ran (handle_of kf m)"

lemma watchedD:
  assumes "watched wk kf m xs G H"
  shows "m k = Some (f, r) \<Longrightarrow> watched_by wk kf xs G H k f r"
    and "handle_of kf m k = Some key \<Longrightarrow> handle_of kf m k' = Some key \<Longrightarrow> k = k'"
    and "G key = Some reg \<Longrightarrow> \<exists>k. handle_of kf m k = Some key"
proof -
  show "m k = Some (f, r) \<Longrightarrow> watched_by wk kf xs G H k f r" using assms by (simp add: watched_def)
  show "handle_of kf m k = Some key \<Longrightarrow> handle_of kf m k' = Some key \<Longrightarrow> k = k'"
    using assms unfolding watched_def by (metis domI inj_onD)
  show "G key = Some reg \<Longrightarrow> \<exists>k. handle_of kf m k = Some key"
    using assms unfolding watched_def by (auto simp: ran_def)
qed

lemma watchedI:
  assumes "\<And>k f r. m k = Some (f, r) \<Longrightarrow> watched_by wk kf xs G H k f r"
    and "\<And>k k' key. handle_of kf m k = Some key \<Longrightarrow> handle_of kf m k' = Some key \<Longrightarrow> k = k'"
    and "\<And>key reg. G key = Some reg \<Longrightarrow> \<exists>k. handle_of kf m k = Some key"
  shows "watched wk kf m xs G H"
proof -
  have "inj_on (handle_of kf m) (dom (handle_of kf m))"
    using assms(2) by (auto intro!: inj_onI) 
  moreover have "dom G \<subseteq> ran (handle_of kf m)" using assms(3) by (auto simp: ran_def)
  ultimately show ?thesis using assms(1) by (simp add: watched_def)
qed

lemma watched_set: "set xs = set ys \<Longrightarrow> watched wk kf m xs G H \<longleftrightarrow> watched wk kf m ys G H"
  by (simp only: watched_def watched_by_def)

text \<open>No other task uses the registration of a task.\<close>

lemma watched_alone:
  assumes "watched wk kf m xs G H" and "m k = Some (f, r)" and "kf f = Some (key, i)"
    and "m j = Some (g, a)" and "kf g = Some v" and "j \<noteq> k"
  shows "fst v \<noteq> key"
  using watchedD(2) [OF assms(1), of k key j] handle_of_eq [of m k f r kf, OF assms(2)]
    handle_of_eq [of m j g a kf, OF assms(4)] assms(3,5,6) by auto

lemma watched_refs: "watched wk kf m xs G H \<Longrightarrow> m k = Some (f, r) \<Longrightarrow> r = (if k \<in> set xs then 1 else 2)"
  using watchedD(1) by (fastforce simp: watched_by_def)

text \<open>The tasks whose registration one of the events reports.\<close>

definition woken :: "('f \<Rightarrow> (nat \<times> nat) option) \<Rightarrow> 'f tasks \<Rightarrow> (nat \<times> nat \<times> u8) list \<Rightarrow> nat set" where
  "woken kf m events =
     {k. \<exists>f r key i. m k = Some (f, r) \<and> kf f = Some (key, i) \<and> (\<exists>j b. (j, key, b) \<in> set events)}"

lemma woken_Cons:
  assumes m: "m k = Some (f, r)" and kf: "kf f = Some (key, i)"
    and one: "\<And>j g r' i'. m j = Some (g, r') \<Longrightarrow> kf g = Some (key, i') \<Longrightarrow> j = k"
  shows "woken kf m ((x, key, b) # events) = insert k (woken kf m events)"
proof (intro set_eqI iffI)
  fix j assume "j \<in> woken kf m ((x, key, b) # events)"
  then obtain g r' key' i' where g: "m j = Some (g, r')" "kf g = Some (key', i')"
    "key' = key \<or> (\<exists>x b. (x, key', b) \<in> set events)" by (auto simp: woken_def) blast
  show "j \<in> insert k (woken kf m events)"
  proof (cases "key' = key")
    case True
    with one [OF g(1)] g(2) show ?thesis by blast
  next
    case False
    with g show ?thesis by (auto simp: woken_def)
  qed
next
  fix j assume "j \<in> insert k (woken kf m events)"
  then show "j \<in> woken kf m ((x, key, b) # events)"
    using m kf by (auto simp: woken_def)
qed

text \<open>Waking the owner of one registration.\<close>

lemma watched_wake:
  assumes w: "watched wk kf m xs G H" and m: "m k = Some (f, r)" and kf: "kf f = Some (key, i)"
  shows "watched wk kf (m(k \<mapsto> (f, 1))) (sched_wake k xs) (G(key \<mapsto> reg_of True p)) H"
proof (rule watchedI)
  have s: "j \<in> set (sched_wake k xs) \<longleftrightarrow> j \<in> set xs \<or> j = k" for j by (auto simp: sched_wake_def)
  show "watched_by wk kf (sched_wake k xs) (G(key \<mapsto> reg_of True p)) H j g r'"
    if "(m(k \<mapsto> (f, 1))) j = Some (g, r')" for j g r'
  proof (cases "j = k")
    case True
    with that kf watchedD(1) [OF w m] show ?thesis
      by (auto simp: watched_by_def s reg_of_awake [of p])
  next
    case False
    with that have "m j = Some (g, r')" by simp
    with watchedD(1) [OF w this] watched_alone [OF w m kf this _ False] False show ?thesis
      by (auto simp: watched_by_def s split: option.splits)
  qed
next
  have h: "handle_of kf (m(k \<mapsto> (f, 1))) = handle_of kf m" by (rule handle_of_same [of m k f r]) (simp_all add: m)
  show "j = j'" if "handle_of kf (m(k \<mapsto> (f, 1))) j = Some key'"
    "handle_of kf (m(k \<mapsto> (f, 1))) j' = Some key'" for j j' key'
    using watchedD(2) [OF w] that unfolding h by blast
  show "\<exists>j. handle_of kf (m(k \<mapsto> (f, 1))) j = Some key'"
    if "(G(key \<mapsto> reg_of True p)) key' = Some reg" for key' reg
    using watchedD(3) [OF w, of key'] that handle_of_eq [of m k f r kf, OF m] kf unfolding h
    by (cases "key' = key") auto
qed

text \<open>A turn that ends asleep, one that ends the task, a new task, and one that gets its registration.\<close>

lemma watched_sleep:
  assumes w: "watched wk kf m (k # xs) G H" and "k \<notin> set xs" and m: "m k = Some (f, r)"
    and kf: "kf f = Some (key, i)" "kf f' = Some (key, i)"
  shows "watched wk kf (m(k \<mapsto> (f', 2))) xs (G(key \<mapsto> reg_of False (wk k))) H"
proof (rule watchedI)
  show "watched_by wk kf xs (G(key \<mapsto> reg_of False (wk k))) H j g a"
    if "(m(k \<mapsto> (f', 2))) j = Some (g, a)" for j g a
  proof (cases "j = k")
    case True
    with that kf watchedD(1) [OF w m] assms(2) show ?thesis by (auto simp: watched_by_def)
  next
    case False
    with that have "m j = Some (g, a)" by simp
    with watchedD(1) [OF w this] watched_alone [OF w m kf(1) this _ False] False show ?thesis
      by (auto simp: watched_by_def split: option.splits)
  qed
next
  have h: "handle_of kf (m(k \<mapsto> (f', 2))) = handle_of kf m"
    by (rule handle_of_same [of m k f r]) (simp_all add: m kf)
  show "j = j'" if "handle_of kf (m(k \<mapsto> (f', 2))) j = Some key'"
    "handle_of kf (m(k \<mapsto> (f', 2))) j' = Some key'" for j j' key'
    using watchedD(2) [OF w] that unfolding h by blast
  show "\<exists>j. handle_of kf (m(k \<mapsto> (f', 2))) j = Some key'"
    if "(G(key \<mapsto> reg_of False (wk k))) key' = Some reg" for key' reg
    using watchedD(3) [OF w, of key'] that handle_of_eq [of m k f r kf, OF m] kf unfolding h
    by (cases "key' = key") auto
qed

lemma watched_finish:
  assumes w: "watched wk kf m (k # xs) G H" and m: "m k = Some (f, r)" and kf: "kf f = Some (key, i)"
  shows "watched wk kf (m(k := None)) xs (G(key := None)) (H(key := None))"
proof (rule watchedI)
  show "watched_by wk kf xs (G(key := None)) (H(key := None)) j g a"
    if "(m(k := None)) j = Some (g, a)" for j g a
  proof -
    from that have "j \<noteq> k" "m j = Some (g, a)" by (auto split: if_splits)
    with watchedD(1) [OF w this(2)] watched_alone [OF w m kf this(2) _ this(1)] show ?thesis
      by (auto simp: watched_by_def split: option.splits)
  qed
  show "j = j'" if "handle_of kf (m(k := None)) j = Some key'"
    "handle_of kf (m(k := None)) j' = Some key'" for j j' key'
    using watchedD(2) [OF w, of j key' j'] that unfolding handle_of_upd by (simp split: if_splits)
  show "\<exists>j. handle_of kf (m(k := None)) j = Some key'" if "(G(key := None)) key' = Some reg" for key' reg
  proof -
    from that have "key' \<noteq> key" "G key' = Some reg" by (auto split: if_splits)
    then obtain j where j: "handle_of kf m j = Some key'" using watchedD(3) [OF w] by blast
    with \<open>key' \<noteq> key\<close> handle_of_eq [of m k f r kf, OF m] kf have "j \<noteq> k" by auto
    with j show ?thesis unfolding handle_of_upd by (intro exI [of _ j]) simp
  qed
qed

lemma watched_add:
  assumes w: "watched wk kf m xs G H" and "m k = None" and "set xs \<subseteq> dom m" and "G key = None"
    and kf: "kf f = Some (key, i)"
  shows "watched wk kf (m(k \<mapsto> (f, 1))) (xs @ [k]) (G(key \<mapsto> reg_of True p)) (H(key \<mapsto> i))"
proof (rule watchedI)
  have fresh: "fst v \<noteq> key" if "m j = Some (g, a)" "kf g = Some v" for j g a v
    using watchedD(1) [OF w that(1)] that(2) assms(4) by (auto simp: watched_by_def)
  show "watched_by wk kf (xs @ [k]) (G(key \<mapsto> reg_of True p)) (H(key \<mapsto> i)) j g a"
    if "(m(k \<mapsto> (f, 1))) j = Some (g, a)" for j g a
  proof (cases "j = k")
    case True
    with that kf show ?thesis by (auto simp: watched_by_def reg_of_awake [of p])
  next
    case False
    with that have "m j = Some (g, a)" by simp
    with watchedD(1) [OF w this] fresh [OF this] False show ?thesis
      by (auto simp: watched_by_def split: option.splits)
  qed
  have no: "handle_of kf m j \<noteq> Some key" for j
    using handle_of_SomeD [of kf m j key] fresh by force
  show "j = j'" if "handle_of kf (m(k \<mapsto> (f, 1))) j = Some key'"
    "handle_of kf (m(k \<mapsto> (f, 1))) j' = Some key'" for j j' key'
    using watchedD(2) [OF w, of j key' j'] that no kf unfolding handle_of_upd
    by (simp split: if_splits)
  show "\<exists>j. handle_of kf (m(k \<mapsto> (f, 1))) j = Some key'"
    if "(G(key \<mapsto> reg_of True p)) key' = Some reg" for key' reg
  proof (cases "key' = key")
    case True
    with kf show ?thesis unfolding handle_of_upd by (intro exI [of _ k]) simp
  next
    case False
    with that obtain j where "handle_of kf m j = Some key'" using watchedD(3) [OF w, of key'] by auto
    moreover have "handle_of kf m k = None" using assms(2) by (simp add: handle_of_def)
    ultimately show ?thesis unfolding handle_of_upd by (intro exI [of _ j]) auto
  qed
qed

text \<open>A task without a registration may be taken for one that is added after the others.\<close>

lemma watched_without:
  assumes w: "watched wk kf m (k # xs) G H" and m: "m k = Some (f, r)" and kf: "kf f = None"
  shows "watched wk kf (m(k := None)) xs G H"
proof (rule watchedI)
  show "watched_by wk kf xs G H j g a" if "(m(k := None)) j = Some (g, a)" for j g a
    using watchedD(1) [OF w, of j g a] that by (auto simp: watched_by_def split: if_splits option.splits)
  have "handle_of kf (m(k := None)) = handle_of kf m"
    unfolding handle_of_upd using handle_of_eq [of m k f r kf, OF m] kf by auto
  then show "\<And>j j' key. handle_of kf (m(k := None)) j = Some key \<Longrightarrow>
      handle_of kf (m(k := None)) j' = Some key \<Longrightarrow> j = j'"
    and "\<And>key reg. G key = Some reg \<Longrightarrow> \<exists>j. handle_of kf (m(k := None)) j = Some key"
    using watchedD(2,3) [OF w] by metis+
qed

lemma watched_register:
  assumes w: "watched wk kf m (k # xs) G H" and "k \<notin> set xs" and m: "m k = Some (f, r)"
    and kf: "kf f = None" "kf f' = Some (key, i)" and "G key = None" and "set xs \<subseteq> dom m"
  shows "watched wk kf (m(k \<mapsto> (f', 2))) xs (G(key \<mapsto> reg_of False (wk k))) (H(key \<mapsto> i))"
proof -
  let ?m = "(m(k := None))(k \<mapsto> (f', 1))"
  have "set xs \<subseteq> dom (m(k := None))" using assms(2,7) by auto
  from watched_add [OF watched_without [OF w m kf(1)] _ this assms(6) kf(2), of k 0]
  have "watched wk kf ?m (xs @ [k]) (G(key \<mapsto> reg_of True 0)) (H(key \<mapsto> i))" by simp
  then have "watched wk kf ?m (k # xs) (G(key \<mapsto> reg_of True 0)) (H(key \<mapsto> i))"
    by (rule iffD1 [OF watched_set, rotated]) auto
  from watched_sleep [OF this assms(2) _ kf(2,2)] show ?thesis by simp
qed

locale reactor_client =
  task_executor vt wk cap rep begin_turn poll_task complete is_empty spawn + stats_trait inc ready count
  for vt :: "(nat, 't) raw_vtable"
    and wk cap rep begin_turn
    and poll_task :: "('t, 'f, ('r, 'v, 'p, 's, 'l) io_world) future_poll \<Rightarrow>
      ('t, ('r, 'v, 'p, 's, 'l) io_world) polling"
    and complete is_empty spawn
    and inc :: "stats_type \<Rightarrow> 's \<Rightarrow> 's res" and ready count
begin

lemma bind_ok:
  assumes "rep t m xs" and "m k = Some (f, 1)"
    and io: "io_rep E n w G H" and g: "G key = Some r" and "er_waker r = None"
  shows "\<exists>t' w'. reg_bind_waker E vt key (wk k) t w = Inr (t', w') \<and> rep t' (m(k \<mapsto> (f, 2))) xs \<and>
    io_rep E n w' (G(key \<mapsto> r\<lparr>er_waker := Some (wk k)\<rparr>)) H \<and>
    io_stats w' = io_stats w \<and> io_links w' = io_links w"
proof -
  obtain t' where "vt_clone vt (wk k) t = Inr (wk k, t')" "rep t' (m(k \<mapsto> (f, 2))) xs"
    using clone_waker [OF assms(1,2)] by auto
  with io_repD(2,4) [OF io] g assms(5) io_rep_put [OF io g, of "r\<lparr>er_waker := Some (wk k)\<rparr>"] show ?thesis
    by (auto simp: reg_bind_waker_def reactor_borrow_eq waker_drop_def simp del: fun_upd_apply)
qed

text \<open>Binding the waker that is bound already changes nothing, whether it is kept or replaced.\<close>

lemma rebind_ok:
  assumes "rep t m xs" and m: "m k = Some (f, 2)"
    and io: "io_rep E n w G H" and g: "G key = Some r" "er_waker r = Some (wk k)"
  shows "\<exists>t' w'. reg_bind_waker E vt key (wk k) t w = Inr (t', w') \<and> rep t' m xs \<and>
    io_rep E n w' G H \<and> io_stats w' = io_stats w \<and> io_links w' = io_links w"
proof (cases "lib_will_wake E (wk k) (wk k)")
  case True
  with io_repD(2,4) [OF io] g assms(1) io show ?thesis
    by (simp add: reg_bind_waker_def reactor_borrow_eq)
next
  case False
  obtain t1 where t1: "vt_clone vt (wk k) t = Inr (wk k, t1)" "rep t1 (m(k \<mapsto> (f, 3))) xs"
    using clone_waker [OF assms(1) m] by auto
  have "(m(k \<mapsto> (f, 3 :: usize))) k = Some (f, 3)" by simp
  from drop_waker [OF t1(2) this] obtain t2 where t2: "vt_drop vt (wk k) t1 = Inr t2"
    "rep t2 (m(k \<mapsto> (f, 2))) xs" by (auto simp del: fun_upd_apply)
  have "m(k \<mapsto> (f, 2)) = m" "G(key \<mapsto> r\<lparr>er_waker := Some (wk k)\<rparr>) = G" using m g by auto
  with t1(1) t2 False io_repD(2,4) [OF io] g io_rep_put [OF io g(1), of "r\<lparr>er_waker := Some (wk k)\<rparr>"]
  show ?thesis
    by (auto simp: reg_bind_waker_def reactor_borrow_eq waker_drop_def simp del: fun_upd_apply)
qed

lemma unbind_ok:
  assumes "rep t m xs" and "m k = Some (f, 2)"
    and io: "io_rep E n w G H" and g: "G key = Some r" "er_waker r = Some (wk k)"
  shows "\<exists>t' w'. io_future_drop E vt key t w = Inr (t', w') \<and> rep t' (m(k \<mapsto> (f, 1))) xs \<and>
    io_rep E n w' (G(key \<mapsto> r\<lparr>er_waker := None\<rparr>)) H \<and>
    io_stats w' = io_stats w \<and> io_links w' = io_links w"
proof -
  obtain t' where "vt_drop vt (wk k) t = Inr t'" "rep t' (m(k \<mapsto> (f, 1))) xs"
    using drop_waker [OF assms(1,2)] by auto
  with io_repD(2,4) [OF io] g io_rep_put [OF io g(1), of "r\<lparr>er_waker := None\<rparr>"] show ?thesis
    by (auto simp: io_future_drop_def reg_unbind_waker_def reactor_borrow_eq waker_drop_def
        simp del: fun_upd_apply)
qed

text \<open>An await that blocks, and one that is answered, of a task that is awake.\<close>

lemma await_blocks:
  assumes "rep t m xs" and "m k = Some (f, 1)" and "io_rep E n w G H" and g: "G key = Some (reg_of True p)"
    and call: "call obj (io_stats w) = Inr (Inl WouldBlock, obj', st')" "reported (io_stats w) ty st'"
  shows "\<exists>t' w'. poll_io E vt key (wk k) call obj t w = Inr (None, obj', t', w') \<and>
    rep t' (m(k \<mapsto> (f, 2))) xs \<and> io_rep E n w' (G(key \<mapsto> reg_of False (wk k))) H \<and> io_reported w ty w'"
proof -
  let ?r = "(reg_of True p)\<lparr>er_waker := Some (wk k)\<rparr>"
  obtain t1 w1 where b: "reg_bind_waker E vt key (wk k) t w = Inr (t1, w1)" "rep t1 (m(k \<mapsto> (f, 2))) xs"
    "io_rep E n w1 (G(key \<mapsto> ?r)) H" "io_stats w1 = io_stats w" "io_links w1 = io_links w"
    using bind_ok [OF assms(1-4)] by auto
  have g1: "(G(key \<mapsto> ?r)) key = Some ?r" by simp
  from reg_set_ready_ok [OF io_rep_stats [OF b(3), of st'] g1, of False] obtain w2
    where w2: "reg_set_ready E key False (w1\<lparr>io_stats := st'\<rparr>) = Inr w2"
      "io_rep E n w2 (G(key \<mapsto> ?r\<lparr>er_ready := False\<rparr>)) H"
      "io_stats w2 = st'" "io_links w2 = io_links w1" by (auto simp del: fun_upd_apply)
  have "?r\<lparr>er_ready := False\<rparr> = reg_of False (wk k)" by (simp add: reg_of_def)
  with w2(2) have "io_rep E n w2 (G(key \<mapsto> reg_of False (wk k))) H" by (simp only:)
  moreover have "reg_is_ready E key w1 = Inr True" using reg_is_ready_eq [OF b(3) g1] by simp
  ultimately show ?thesis
    using b w2 call by (auto simp: poll_io_def io_reported_def simp del: fun_upd_apply)
qed

lemma await_answers:
  assumes "rep t m xs" and "m k = Some (f, 1)" and "io_rep E n w G H" and g: "G key = Some (reg_of True p)"
    and call: "call obj (io_stats w) = Inr (Inr a, obj', st')" "reported (io_stats w) ty st'"
  shows "\<exists>t' w'. poll_io E vt key (wk k) call obj t w = Inr (Some (Inr a), obj', t', w') \<and>
    rep t' (m(k \<mapsto> (f, 2))) xs \<and>
    io_rep E n w' (G(key \<mapsto> \<lparr>er_ready = True, er_waker = Some (wk k)\<rparr>)) H \<and> io_reported w ty w'"
proof -
  let ?r = "\<lparr>er_ready = True, er_waker = Some (wk k)\<rparr>"
  have r: "(reg_of True p)\<lparr>er_waker := Some (wk k)\<rparr> = ?r" by (simp add: reg_of_def)
  obtain t1 w1 where b: "reg_bind_waker E vt key (wk k) t w = Inr (t1, w1)" "rep t1 (m(k \<mapsto> (f, 2))) xs"
    "io_rep E n w1 (G(key \<mapsto> ?r)) H" "io_stats w1 = io_stats w" "io_links w1 = io_links w"
    using bind_ok [OF assms(1-4)] r by auto
  have g1: "(G(key \<mapsto> ?r)) key = Some ?r" by simp
  from reg_is_ready_eq [OF b(3) g1] b call io_rep_stats [OF b(3), of st'] show ?thesis
    by (auto simp: poll_io_def io_reported_def simp del: fun_upd_apply)
qed

text \<open>Delivering events wakes the owners of the reported registrations and nobody else.\<close>

lemma deliver_ok:
  assumes "slab_ok R" and "im_get R regs = G" and "rep t m xs" and "watched wk kf m xs G H"
  shows "\<exists>regs' t' m' ys. deliver R vt events regs t = Inr (regs', t') \<and>
    slab_capacity R regs' = slab_capacity R regs \<and> dom (im_get R regs') = dom G \<and>
    rep t' m' ys \<and> watched wk kf m' ys (im_get R regs') H \<and>
    (\<forall>k. map_option fst (m' k) = map_option fst (m k)) \<and>
    set ys = set xs \<union> woken kf m events"
  using assms(2-4)
proof (induction events arbitrary: regs t m xs G)
  case Nil
  then show ?case by (auto simp: woken_def intro!: exI [of _ m] exI [of _ xs])
next
  case (Cons ev events)
  obtain j key b where ev: "ev = (j, key, b)" by (cases ev)
  show ?case
  proof (cases "G key")
    case None
    have "key \<noteq> key'" if "m k = Some (f, r)" "kf f = Some (key', i)" for k f r key' i
      using watchedD(1) [OF Cons.prems(3) that(1)] that(2) None by (auto simp: watched_by_def)
    then have "woken kf m (ev # events) = woken kf m events"
      unfolding woken_def ev by auto blast
    with Cons.IH [OF Cons.prems] Cons.prems(1) None ev show ?thesis by simp
  next
    case (Some reg)
    then obtain k f r i where m: "m k = Some (f, r)" and kf: "kf f = Some (key, i)"
      using watchedD(3) [OF Cons.prems(3)] handle_of_SomeD by blast
    have reg: "reg = reg_of (k \<in> set xs) (wk k)" and r: "r = (if k \<in> set xs then 1 else 2)"
      using watchedD(1) [OF Cons.prems(3) m] kf Some by (auto simp: watched_by_def)
    let ?regs = "im_set R regs key (reg_of True 0)"
    have "im_get R ?regs = G(key \<mapsto> reg_of True 0)"
      using slab_get_set [OF assms(1), of regs key] Some Cons.prems(1) by simp
    note IH = Cons.IH [OF this _ watched_wake [OF Cons.prems(3) m kf, of 0]]
    have step: "\<exists>t1. deliver R vt (ev # events) regs t = deliver R vt events ?regs t1 \<and>
        rep t1 (m(k \<mapsto> (f, 1))) (sched_wake k xs)"
    proof (cases "k \<in> set xs")
      case True
      then have "m(k \<mapsto> (f, 1)) = m" "sched_wake k xs = xs" "reg = reg_of True 0"
        using m r reg reg_of_awake [of "wk k" 0] by (auto simp: sched_wake_def)
      with Cons.prems(2) Some Cons.prems(1) ev show ?thesis
        by (intro exI [of _ t]) (simp add: reg_of_def Let_def)
    next
      case False
      then have "1 < r" using r by simp
      from wake_consumes [OF Cons.prems(2) m this] obtain t1 where
        "vt_wake vt (wk k) t = Inr t1" "rep t1 (m(k \<mapsto> (f, r - 1))) (sched_wake k xs)" by blast
      with False r reg Some Cons.prems(1) ev show ?thesis
        by (intro exI [of _ t1]) (simp add: reg_of_def Let_def)
    qed
    then obtain t1 where t1: "deliver R vt (ev # events) regs t = deliver R vt events ?regs t1"
      "rep t1 (m(k \<mapsto> (f, 1))) (sched_wake k xs)" by blast
    from IH [OF t1(2)] obtain regs' t' m' ys where ih:
        "deliver R vt events ?regs t1 = Inr (regs', t')"
        "slab_capacity R regs' = slab_capacity R ?regs" "dom (im_get R regs') = dom (G(key \<mapsto> reg_of True 0))"
        "rep t' m' ys" "watched wk kf m' ys (im_get R regs') H"
        "\<forall>j. map_option fst (m' j) = map_option fst ((m(k \<mapsto> (f, 1))) j)"
        "set ys = set (sched_wake k xs) \<union> woken kf (m(k \<mapsto> (f, 1))) events" by blast
    have "map_option fst (m' j) = map_option fst (m j)" for j using ih(6) m by auto
    moreover have "slab_capacity R ?regs = slab_capacity R regs"
      using slab_set_capacity [OF assms(1), of regs key] Some Cons.prems(1) by simp
    moreover have "set ys = set xs \<union> woken kf m (ev # events)"
    proof -
      have one: "j = k" if "m j = Some (g, r')" "kf g = Some (key, i')" for j g r' i'
        using watched_alone [OF Cons.prems(3) m kf that] by auto
      have "woken kf m (ev # events) = insert k (woken kf m events)"
        unfolding ev by (rule woken_Cons [of m k f r kf key i, OF m kf one])
      moreover have "woken kf (m(k \<mapsto> (f, 1))) events = woken kf m events"
        unfolding woken_def using m by auto blast
      moreover have "set (sched_wake k xs) = insert k (set xs)" by (auto simp: sched_wake_def)
      ultimately show ?thesis unfolding ih(7) by auto
    qed
    moreover have "deliver R vt (ev # events) regs t = Inr (regs', t')" using t1(1) ih(1) by simp
    moreover have "dom (im_get R regs') = dom G" using ih(3) Some by auto
    moreover have "slab_capacity R regs' = slab_capacity R ?regs" by (fact ih(2))
    ultimately show ?thesis using ih(4,5) by metis
  qed
qed

text \<open>A poll of the reactor wakes every task.\<close>

lemma reactor_poll_wakes:
  assumes io: "io_rep E n w G H" and "ready (io_stats w)" and "rep t m xs" and "watched wk kf m xs G H"
  shows "\<exists>t' w' m' ys G'. reactor_poll E inc vt t w = Inr (Inr (), t', w') \<and> rep t' m' ys \<and>
    io_rep E n w' G' H \<and> watched wk kf m' ys G' H \<and>
    (\<forall>k. map_option fst (m' k) = map_option fst (m k)) \<and> set ys = dom m \<and> io_reported w Poll w'"
proof -
  let ?P = "lib_items E" and ?V = "lib_events E"
  note lib = lib_okD(1-3) [OF io_repD(1) [OF io]]
  obtain events' st' where ev: "poll_poll ?P ?V inc (fr_poll (io_reactor w))
      (reactor_events (cell_data (fr_data (io_reactor w)))) (io_stats w) = Inr (events', st')"
    "reported (io_stats w) Poll st'"
    "slab_values ?V events' = image_mset (\<lambda>(interest, key). (key, interest)) (slab_values ?P (reactor_items w))"
    using poll_reports [OF assms(2) lib(3,2)] by blast
  let ?it = "slab_iter ?V events'"
  have "set (map snd ?it) = (\<lambda>(interest, key). (key, interest)) ` set_mset (slab_values ?P (reactor_items w))"
    using arg_cong [OF ev(3), of set_mset] by (simp add: slab_values_def)
  moreover have "set_mset (slab_values ?P (reactor_items w)) = snd ` set (slab_iter ?P (reactor_items w))"
    by (simp add: slab_values_def)
  ultimately have snds: "snd ` set ?it = (\<lambda>(interest, key). (key, interest)) ` snd ` set (slab_iter ?P (reactor_items w))"
    by simp
  have keys: "\<exists>j b. (j, key, b) \<in> set ?it" if h: "H key = Some i" for key i
  proof -
    obtain v where "im_get ?P (reactor_items w) i = Some (v, key)" using io_repD(6) [OF io h] by blast
    then have "(i, v, key) \<in> set (slab_iter ?P (reactor_items w))" using slab_iter_mem [OF lib(3)] by blast
    then have "(key, v) \<in> snd ` set ?it" unfolding snds by force
    then show ?thesis by force
  qed
  obtain regs' t' m' ys where d: "deliver (lib_regs E) vt ?it (reactor_regs w) t = Inr (regs', t')"
      "slab_capacity (lib_regs E) regs' = slab_capacity (lib_regs E) (reactor_regs w)"
      "dom (im_get (lib_regs E) regs') = dom G" "rep t' m' ys"
      "watched wk kf m' ys (im_get (lib_regs E) regs') H"
      "\<forall>k. map_option fst (m' k) = map_option fst (m k)"
      "set ys = set xs \<union> woken kf m ?it"
    using deliver_ok [OF lib(1) io_repD(4) [OF io] assms(3,4), of ?it] by blast
  let ?w = "w\<lparr>io_reactor := (io_reactor w)\<lparr>fr_data := (fr_data (io_reactor w))
      \<lparr>cell_data := \<lparr>registrations = regs', reactor_events = events'\<rparr>\<rparr>\<rparr>, io_stats := st'\<rparr>"
  have "reactor_poll E inc vt t w = Inr (Inr (), t', ?w)"
    using io_repD(2) [OF io] ev(1) d(1) by (simp add: reactor_poll_def)
  moreover have "io_rep E n ?w (im_get (lib_regs E) regs') H"
    using io d(2,3) by (simp add: io_rep_def)
  moreover have "set ys = dom m"
  proof -
    have "k \<in> set ys" if "m k = Some (f, r)" for k f r
      using watchedD(1) [OF assms(4) that] keys that
      by (cases "kf f") (auto simp: d(7) watched_by_def woken_def)
    moreover have "set ys \<subseteq> dom m"
      using rep_queue [OF assms(3)] unfolding d(7) woken_def by auto
    ultimately show ?thesis by auto
  qed
  moreover have "io_reported w Poll ?w" using ev(2) by (simp add: io_reported_def)
  ultimately show ?thesis using d(4-6) by blast
qed

end

end
