(* ===== verification/Async_Correct.thy ===== *)
theory Async_Correct
  imports Async_Plan Reactor_Correct
begin

section \<open>The asynchronous server is right\<close>

text \<open>
  First what one poll of each future does, inside the contract of an executor: a connection is
  served in three polls, the listener accepts one connection in each. Then the invariant of a
  whole run, and from it that the run returns and how often it called what.
\<close>

subsection \<open>Single awaits\<close>

abbreviation stream_stepped :: "async_stream \<Rightarrow> async_stream" where
  "stream_stepped s \<equiv> s\<lparr>as_inner := (as_inner s)\<lparr>fs_calls := fs_calls (as_inner s) + 1\<rparr>\<rparr>"

abbreviation listener_stepped :: "async_listener \<Rightarrow> async_listener" where
  "listener_stepped l \<equiv> l\<lparr>al_inner := (al_inner l)\<lparr>fl_calls := fl_calls (al_inner l) + 1\<rparr>\<rparr>"

abbreviation read_call ::
  "(stats_type \<Rightarrow> 's \<Rightarrow> 's res) \<Rightarrow> fake_stream \<times> u8 list \<Rightarrow> 's \<Rightarrow>
     ((io_error + nat) \<times> (fake_stream \<times> u8 list) \<times> 's) res" where
  "read_call inc \<equiv> \<lambda>(inner, buf) st.
     and_then (fake_stream_read inc inner buf st) (\<lambda>(r, inner, buf, st). Inr (r, (inner, buf), st))"

context reactor_client
begin

lemma read_future_blocks:
  assumes "rep t m xs" and "m k = Some (f, 1)" and "io_rep E n w G H" and "G (as_key s) = Some (reg_of True p)"
    and "ready (io_stats w)" and "even (fs_calls (as_inner s))"
  shows "\<exists>t' w'. read_future_poll E inc vt s buf (wk k) t w = Inr (None, stream_stepped s, buf, t', w') \<and>
    rep t' (m(k \<mapsto> (f, 2))) xs \<and> io_rep E n w' (G(as_key s \<mapsto> reg_of False (wk k))) H \<and>
    io_reported w Read w'"
proof -
  obtain st' where "read_call inc (as_inner s, buf) (io_stats w) =
      Inr (Inl WouldBlock, ((as_inner s)\<lparr>fs_calls := fs_calls (as_inner s) + 1\<rparr>, buf), st')"
    "reported (io_stats w) Read st'"
    using read_blocks [OF assms(5,6), of buf] by auto
  from await_blocks [OF assms(1-4), of "read_call inc", OF this] show ?thesis
    by (auto simp: read_future_poll_def simp del: fun_upd_apply)
qed

lemma write_future_blocks:
  assumes "rep t m xs" and "m k = Some (f, 1)" and "io_rep E n w G H" and "G (as_key s) = Some (reg_of True p)"
    and "ready (io_stats w)" and "even (fs_calls (as_inner s))"
  shows "\<exists>t' w'. write_future_poll E inc vt s buf (wk k) t w = Inr (None, stream_stepped s, t', w') \<and>
    rep t' (m(k \<mapsto> (f, 2))) xs \<and> io_rep E n w' (G(as_key s \<mapsto> reg_of False (wk k))) H \<and>
    io_reported w Write w'"
proof -
  obtain st' where "fake_stream_write inc (as_inner s) buf (io_stats w) =
      Inr (Inl WouldBlock, (as_inner s)\<lparr>fs_calls := fs_calls (as_inner s) + 1\<rparr>, st')"
    "reported (io_stats w) Write st'"
    using write_blocks [OF assms(5,6)] by blast
  from await_blocks [OF assms(1-4), of "\<lambda>inner st. fake_stream_write inc inner buf st", OF this] show ?thesis
    by (auto simp: write_future_poll_def simp del: fun_upd_apply)
qed

lemma accept_future_blocks:
  assumes "rep t m xs" and "m k = Some (f, 1)" and "io_rep E n w G H" and "G (al_key l) = Some (reg_of True p)"
    and "ready (io_stats w)" and "even (fl_calls (al_inner l))"
  shows "\<exists>t' w'. accept_future_poll E inc vt l (wk k) t w = Inr (None, listener_stepped l, t', w') \<and>
    rep t' (m(k \<mapsto> (f, 2))) xs \<and> io_rep E n w' (G(al_key l \<mapsto> reg_of False (wk k))) H \<and>
    io_reported w Accept w'"
proof -
  obtain st' where "fake_listener_accept inc (al_inner l) (io_stats w) =
      Inr (Inl WouldBlock, (al_inner l)\<lparr>fl_calls := fl_calls (al_inner l) + 1\<rparr>, st')"
    "reported (io_stats w) Accept st'"
    using accept_blocks [OF assms(5,6)] by blast
  from await_blocks [OF assms(1-4), of "fake_listener_accept inc", OF this] show ?thesis
    by (auto simp: accept_future_poll_def simp del: fun_upd_apply)
qed

text \<open>An answered await, and the future dropped after it.\<close>

lemma unbind_answered:
  assumes "rep t' (m(k \<mapsto> (f, 2))) xs" and "m k = Some (f, 1)"
    and "io_rep E n w' (G(key \<mapsto> \<lparr>er_ready = True, er_waker = Some (wk k)\<rparr>)) H"
  shows "\<exists>t2 w2. io_future_drop E vt key t' w' = Inr (t2, w2) \<and> rep t2 m xs \<and>
    io_rep E n w2 (G(key \<mapsto> reg_of True 0)) H \<and> io_stats w2 = io_stats w' \<and> io_links w2 = io_links w'"
proof -
  let ?r = "\<lparr>er_ready = True, er_waker = Some (wk k)\<rparr>"
  have "(m(k \<mapsto> (f, 2))) k = Some (f, 2)" "(G(key \<mapsto> ?r)) key = Some ?r" "er_waker ?r = Some (wk k)"
    by simp_all
  from unbind_ok [OF assms(1) this(1) assms(3) this(2,3)]
  obtain t2 w2 where d: "io_future_drop E vt key t' w' = Inr (t2, w2)"
    "rep t2 (m(k \<mapsto> (f, 2), k \<mapsto> (f, 1))) xs" "io_rep E n w2 (G(key \<mapsto> ?r, key \<mapsto> ?r\<lparr>er_waker := None\<rparr>)) H"
    "io_stats w2 = io_stats w'" "io_links w2 = io_links w'" by blast
  have "m(k \<mapsto> (f, 2), k \<mapsto> (f, 1)) = m" using assms(2) by auto
  moreover have "G(key \<mapsto> ?r, key \<mapsto> ?r\<lparr>er_waker := None\<rparr>) = G(key \<mapsto> reg_of True 0)"
    by (simp add: reg_of_def)
  ultimately show ?thesis using d by metis
qed

lemma read_future_answers:
  assumes "rep t m xs" and m: "m k = Some (f, 1)" and "io_rep E n w G H"
    and "G (as_key s) = Some (reg_of True p)"
    and "ready (io_stats w)" and "odd (fs_calls (as_inner s))" and "12 \<le> length buf"
  shows "\<exists>t1 w1 t' w'. read_future_poll E inc vt s buf (wk k) t w =
      Inr (Some (Inr 12), stream_stepped s, hello_world @ drop 12 buf, t1, w1) \<and>
    io_future_drop E vt (as_key s) t1 w1 = Inr (t', w') \<and>
    rep t' m xs \<and> io_rep E n w' (G(as_key s \<mapsto> reg_of True 0)) H \<and> io_reported w Read w'"
proof -
  obtain st' where "read_call inc (as_inner s, buf) (io_stats w) =
      Inr (Inr 12, ((as_inner s)\<lparr>fs_calls := fs_calls (as_inner s) + 1\<rparr>, hello_world @ drop 12 buf), st')"
    "reported (io_stats w) Read st'"
    using read_answers [OF assms(5-7)] by auto
  from await_answers [OF assms(1-4), of "read_call inc", OF this] obtain t1 w1 where w1: "read_future_poll E inc vt s buf (wk k) t w =
      Inr (Some (Inr 12), stream_stepped s, hello_world @ drop 12 buf, t1, w1)"
    "rep t1 (m(k \<mapsto> (f, 2))) xs"
    "io_rep E n w1 (G(as_key s \<mapsto> \<lparr>er_ready = True, er_waker = Some (wk k)\<rparr>)) H" "io_reported w Read w1"
    by (auto simp: read_future_poll_def simp del: fun_upd_apply)
  from unbind_answered [OF w1(2) m w1(3)] w1(1,4) show ?thesis
    by (auto simp: io_reported_def simp del: fun_upd_apply)
qed

lemma write_future_answers:
  assumes "rep t m xs" and m: "m k = Some (f, 1)" and "io_rep E n w G H"
    and "G (as_key s) = Some (reg_of True p)"
    and "ready (io_stats w)" and "odd (fs_calls (as_inner s))"
  shows "\<exists>t1 w1 t' w'. write_future_poll E inc vt s buf (wk k) t w =
      Inr (Some (Inr (length buf)), stream_stepped s, t1, w1) \<and>
    io_future_drop E vt (as_key s) t1 w1 = Inr (t', w') \<and>
    rep t' m xs \<and> io_rep E n w' (G(as_key s \<mapsto> reg_of True 0)) H \<and> io_reported w Write w'"
proof -
  obtain st' where "fake_stream_write inc (as_inner s) buf (io_stats w) =
      Inr (Inr (length buf), (as_inner s)\<lparr>fs_calls := fs_calls (as_inner s) + 1\<rparr>, st')"
    "reported (io_stats w) Write st'"
    using write_answers [OF assms(5,6)] by blast
  from await_answers [OF assms(1-4), of "\<lambda>inner st. fake_stream_write inc inner buf st", OF this]
  obtain t1 w1 where w1: "write_future_poll E inc vt s buf (wk k) t w =
      Inr (Some (Inr (length buf)), stream_stepped s, t1, w1)" "rep t1 (m(k \<mapsto> (f, 2))) xs"
    "io_rep E n w1 (G(as_key s \<mapsto> \<lparr>er_ready = True, er_waker = Some (wk k)\<rparr>)) H" "io_reported w Write w1"
    by (auto simp: write_future_poll_def simp del: fun_upd_apply)
  from unbind_answered [OF w1(2) m w1(3)] w1(1,4) show ?thesis
    by (auto simp: io_reported_def simp del: fun_upd_apply)
qed

lemma accept_future_answers:
  assumes "rep t m xs" and m: "m k = Some (f, 1)" and "io_rep E n w G H"
    and g: "G (al_key l) = Some (reg_of True p)" and "card (dom G) < n"
    and "ready (io_stats w)" and "odd (fl_calls (al_inner l))"
  shows "\<exists>key i t1 w1 t' w'. accept_future_poll E inc vt l (wk k) t w =
      Inr (Some (Inr \<lparr>as_inner = fake_stream_new\<lparr>fs_poll_index := Some i\<rparr>, as_key = key\<rparr>),
        listener_stepped l, t1, w1) \<and>
    io_future_drop E vt (al_key l) t1 w1 = Inr (t', w') \<and> G key = None \<and> rep t' m xs \<and>
    io_rep E n w' (G(al_key l \<mapsto> reg_of True 0, key \<mapsto> reg_of True 0)) (H(key \<mapsto> i)) \<and>
    advanced (io_stats w) (tally 1 0 0 1 0 0) (io_stats w') \<and> io_links w' = io_links w"
proof -
  let ?r = "\<lparr>er_ready = True, er_waker = Some (wk k)\<rparr>"
  obtain st' where "fake_listener_accept inc (al_inner l) (io_stats w) =
      Inr (Inr fake_stream_new, (al_inner l)\<lparr>fl_calls := fl_calls (al_inner l) + 1\<rparr>, st')"
    "reported (io_stats w) Accept st'"
    using accept_answers [OF assms(6,7)] by blast
  from await_answers [OF assms(1-3) g, of "fake_listener_accept inc", OF this] obtain t1 w1 where
    p: "poll_io E vt (al_key l) (wk k) (fake_listener_accept inc) (al_inner l) t w =
      Inr (Some (Inr fake_stream_new), (al_inner l)\<lparr>fl_calls := fl_calls (al_inner l) + 1\<rparr>, t1, w1)"
      "rep t1 (m(k \<mapsto> (f, 2))) xs" "io_rep E n w1 (G(al_key l \<mapsto> ?r)) H" "io_reported w Accept w1"
    by blast
  have "card (dom (G(al_key l \<mapsto> ?r))) < n" using assms(5) g by (simp add: insert_absorb domI)
  moreover have "ready (io_stats w1)" by (rule io_reportedD(2) [OF p(4)])
  ultimately obtain key i w2 where
    nw: "async_stream_new E inc fake_stream_new w1 =
      Inr (\<lparr>as_inner = fake_stream_new\<lparr>fs_poll_index := Some i\<rparr>, as_key = key\<rparr>, w2)"
      "(G(al_key l \<mapsto> ?r)) key = None"
      "io_rep E n w2 (G(al_key l \<mapsto> ?r, key \<mapsto> reg_of True 0)) (H(key \<mapsto> i))" "io_reported w1 Register w2"
    using async_stream_new_ok [OF p(3), of fake_stream_new] by (auto simp: reg_of_def simp del: fun_upd_apply)
  have ne: "key \<noteq> al_key l" "G key = None" using nw(2) by (auto split: if_splits)
  have "G(al_key l \<mapsto> ?r, key \<mapsto> reg_of True 0) = G(key \<mapsto> reg_of True 0, al_key l \<mapsto> ?r)"
    using ne(1) by (simp add: fun_upd_twist)
  with nw(3) have "io_rep E n w2 (G(key \<mapsto> reg_of True 0, al_key l \<mapsto> ?r)) (H(key \<mapsto> i))" by (simp only:)
  from unbind_answered [OF p(2) m this] obtain t3 w3
    where d: "io_future_drop E vt (al_key l) t1 w2 = Inr (t3, w3)" "rep t3 m xs"
      "io_rep E n w3 (G(key \<mapsto> reg_of True 0, al_key l \<mapsto> reg_of True 0)) (H(key \<mapsto> i))"
      "io_stats w3 = io_stats w2" "io_links w3 = io_links w2" by blast
  have "advanced (io_stats w) (tally 1 0 0 1 0 0) (io_stats w3)"
    using advanced_trans [OF reported_advanced(4) [OF io_reportedD(1) [OF p(4)]]
        reported_advanced(1) [OF io_reportedD(1) [OF nw(4)]]] d(4)
    by simp
  moreover have "io_links w3 = io_links w" using p(4) nw(4) d(5) by (simp add: io_reported_def)
  moreover have "io_rep E n w3 (G(al_key l \<mapsto> reg_of True 0, key \<mapsto> reg_of True 0)) (H(key \<mapsto> i))"
    using d(3) ne(1) by (simp add: fun_upd_twist)
  ultimately show ?thesis
    using p(1) nw(1) d(1,2) ne(2) by (auto simp: accept_future_poll_def simp del: fun_upd_apply)
qed

subsection \<open>The polls of a connection\<close>

lemma conn_starts:
  assumes "rep t m xs" and "m k = Some (f, 1)" and "io_rep E n w G H" and "G (as_key s) = Some (reg_of True p)"
    and "ready (io_stats w)" and "even (fs_calls (as_inner s))"
  shows "\<exists>t' w'. connection_poll N E inc vt (Conn_start s) (wk k) t w = Inr (None, Conn_reading
      \<lparr>cf_stream = stream_stepped s, cf_buf = replicate N 0, cf_buf_len = 0, cf_sent = 0\<rparr>, t', w') \<and>
    rep t' (m(k \<mapsto> (f, 2))) xs \<and> io_rep E n w' (G(as_key s \<mapsto> reg_of False (wk k))) H \<and>
    io_reported w Read w'"
  using read_future_blocks [OF assms, of "replicate N 0"]
  by (auto simp: connection_poll_def conn_read.simps slice_from_def write_from_def Let_def
      simp del: fun_upd_apply)

lemma conn_reads:
  assumes "rep t m xs" and "m k = Some (f, 1)" and io: "io_rep E n w G H"
    and g: "G (as_key (cf_stream c)) = Some (reg_of True p)"
    and "ready (io_stats w)" and "odd (fs_calls (as_inner (cf_stream c)))"
    and "cf_buf_len c = 0" and "12 \<le> length (cf_buf c)"
  shows "\<exists>c' t' w'. connection_poll N E inc vt (Conn_reading c) (wk k) t w =
      Inr (None, Conn_writing c', t', w') \<and>
    cf_stream c' = stream_stepped (stream_stepped (cf_stream c)) \<and> cf_buf_len c' = 12 \<and> cf_sent c' = 0 \<and>
    length (cf_buf c') = length (cf_buf c) \<and>
    rep t' (m(k \<mapsto> (f, 2))) xs \<and>
    io_rep E n w' (G(as_key (cf_stream c) \<mapsto> reg_of False (wk k))) H \<and>
    advanced (io_stats w) (tally 0 0 0 0 1 1) (io_stats w') \<and> io_links w' = io_links w"
proof -
  let ?s = "stream_stepped (cf_stream c)" and ?key = "as_key (cf_stream c)"
  let ?buf = "hello_world @ drop 12 (cf_buf c)"
  obtain t1 w1 t2 w2 where r: "read_future_poll E inc vt (cf_stream c) (cf_buf c) (wk k) t w =
      Inr (Some (Inr 12), ?s, ?buf, t1, w1)"
    "io_future_drop E vt ?key t1 w1 = Inr (t2, w2)" "rep t2 m xs"
    "io_rep E n w2 (G(?key \<mapsto> reg_of True 0)) H" "io_reported w Read w2"
    using read_future_answers [OF assms(1-6,8)] by blast
  have g2: "(G(?key \<mapsto> reg_of True 0)) (as_key ?s) = Some (reg_of True 0)" by simp
  have "even (fs_calls (as_inner ?s))" using assms(6) by simp
  from write_future_blocks [OF r(3) assms(2) r(4) g2 io_reportedD(2) [OF r(5)] this, of hello_world]
  obtain t3 w3 where x: "write_future_poll E inc vt ?s hello_world (wk k) t2 w2 =
      Inr (None, stream_stepped ?s, t3, w3)"
    "rep t3 (m(k \<mapsto> (f, 2))) xs" "io_rep E n w3 (G(?key \<mapsto> reg_of False (wk k))) H" "io_reported w2 Write w3"
    by (auto simp del: fun_upd_apply)
  let ?c = "c\<lparr>cf_stream := stream_stepped ?s, cf_buf := ?buf, cf_buf_len := 12, cf_sent := 0\<rparr>"
  have "connection_poll N E inc vt (Conn_reading c) (wk k) t w = Inr (None, Conn_writing ?c, t3, w3)"
    using assms(7) r(1,2) x(1)
    by (simp add: connection_poll_def conn_read.simps [of _ _ _ c] conn_write.simps slice_from_def
        write_from_def slice_to_def slice_range_def Let_def)
  moreover have "advanced (io_stats w) (tally 0 0 0 0 1 1) (io_stats w3)"
    using advanced_trans [OF reported_advanced(5) [OF io_reportedD(1) [OF r(5)]]
        reported_advanced(6) [OF io_reportedD(1) [OF x(4)]]]
    by simp
  moreover have "io_links w3 = io_links w" using io_reportedD(3) [OF r(5)] io_reportedD(3) [OF x(4)] by simp
  ultimately show ?thesis using x(2,3) assms(8) by (intro exI conjI) (assumption | simp)+
qed

lemma conn_finishes:
  assumes "rep t m xs" and "m k = Some (f, 1)" and io: "io_rep E n w G H"
    and g: "G (as_key (cf_stream c)) = Some (reg_of True p)"
    and "ready (io_stats w)" and "odd (fs_calls (as_inner (cf_stream c)))"
    and "cf_buf_len c = 12" and "cf_sent c = 0" and "12 \<le> length (cf_buf c)"
    and "H (as_key (cf_stream c)) = Some i" and "fs_poll_index (as_inner (cf_stream c)) = Some i"
  shows "\<exists>t' w'. connection_poll N E inc vt (Conn_writing c) (wk k) t w =
      Inr (Some (Inr ()), Conn_done, t', w') \<and> rep t' m xs \<and>
    io_rep E n w' (G(as_key (cf_stream c) := None)) (H(as_key (cf_stream c) := None)) \<and>
    advanced (io_stats w) (tally 0 1 0 0 0 1) (io_stats w') \<and> io_links w' = io_links w"
proof -
  let ?s = "stream_stepped (cf_stream c)" and ?key = "as_key (cf_stream c)"
  let ?buf = "take 12 (cf_buf c)"
  obtain t1 w1 t2 w2 where r: "write_future_poll E inc vt (cf_stream c) ?buf (wk k) t w =
      Inr (Some (Inr 12), ?s, t1, w1)"
    "io_future_drop E vt ?key t1 w1 = Inr (t2, w2)" "rep t2 m xs"
    "io_rep E n w2 (G(?key \<mapsto> reg_of True 0)) H" "io_reported w Write w2"
    using write_future_answers [OF assms(1-6), of ?buf] assms(9) by (auto simp: min_def)
  have "(G(?key \<mapsto> reg_of True 0)) (as_key ?s) = Some (reg_of True 0)" "H (as_key ?s) = Some i"
    "fs_poll_index (as_inner ?s) = Some i" using assms(10,11) by simp_all
  from async_stream_drop_ok [OF r(4) io_reportedD(2) [OF r(5)] this(1) _ this(2,3), of vt t2]
  obtain w3 where x: "async_stream_drop E inc vt ?s t2 w2 = Inr (t2, w3)"
    "io_rep E n w3 (G(?key := None)) (H(?key := None))" "io_reported w2 Unregister w3"
    by (auto simp del: fun_upd_apply)
  have "connection_poll N E inc vt (Conn_writing c) (wk k) t w = Inr (Some (Inr ()), Conn_done, t2, w3)"
    using assms(7-9) r(1,2) x(1)
    by (simp add: connection_poll_def conn_write.simps slice_range_def conn_return_def Let_def)
  moreover have "advanced (io_stats w) (tally 0 1 0 0 0 1) (io_stats w3)"
    using advanced_trans [OF reported_advanced(6) [OF io_reportedD(1) [OF r(5)]]
        reported_advanced(2) [OF io_reportedD(1) [OF x(3)]]]
    by simp
  moreover have "io_links w3 = io_links w" using io_reportedD(3) [OF r(5)] io_reportedD(3) [OF x(3)] by simp
  ultimately show ?thesis using x(2) r(3) by blast
qed

end


subsection \<open>The contract of a spawner of connections, and the listener\<close>

text \<open>
  What is added to the contract of an executor: spawning a connection stores a task that starts
  to serve it, while there is room; \<open>links_ok\<close> is what has to be true of the memory of the
  spawner for that.
\<close>

locale async_server =
  reactor_client vt wk cap rep begin_turn poll_task complete is_empty spawn inc ready count
  for vt :: "(nat, 't) raw_vtable"
    and wk cap rep begin_turn
    and poll_task :: "('t, server_future, ('r, 'v, 'p, 's, 'l) io_world) future_poll \<Rightarrow>
      ('t, ('r, 'v, 'p, 's, 'l) io_world) polling"
    and complete is_empty spawn
    and inc :: "stats_type \<Rightarrow> 's \<Rightarrow> 's res" and ready count +
  fixes spawn_conn :: "('t, ('r, 'v, 'p, 's, 'l) io_world) conn_spawn"
    and links_ok :: "'l \<Rightarrow> bool"
  assumes spawn_conn_room:
    "rep t m xs \<Longrightarrow> links_ok (io_links w) \<Longrightarrow> card (dom m) < cap \<Longrightarrow>
     \<exists>k t' l'. spawn_conn s t w = Inr (Inr (), t', w\<lparr>io_links := l'\<rparr>) \<and> links_ok l' \<and> m k = None \<and>
       rep t' (m(k \<mapsto> (Srv_start (Invoke_connection s), 1))) (xs @ [k])"
begin

lemma listen_blocks:
  assumes "rep t m xs" and "m k = Some (f, 1)" and "io_rep E n w G H" and "G (al_key l) = Some (reg_of True p)"
    and "ready (io_stats w)" and "even (fl_calls (al_inner l))" and "i < 256"
  shows "\<exists>t' w'. listen_accept E inc vt spawn_conn l i (wk k) t w =
      Inr (None, Listen_accepting (listener_stepped l) i, t', w') \<and>
    rep t' (m(k \<mapsto> (f, 2))) xs \<and> io_rep E n w' (G(al_key l \<mapsto> reg_of False (wk k))) H \<and>
    io_reported w Accept w'"
  using accept_future_blocks [OF assms(1-6)] assms(7)
  by (auto simp: listen_accept.simps CONNS_MAX_def simp del: fun_upd_apply)

text \<open>The listener registers itself in its first poll.\<close>

lemma listen_starts:
  assumes "rep t m xs" and "m k = Some (f, 1)" and "io_rep E n w G H" and "card (dom G) < n"
    and "ready (io_stats w)"
  shows "\<exists>l key i t' w'. listen_poll E inc vt spawn_conn Listen_start (wk k) t w =
      Inr (None, Listen_accepting l 0, t', w') \<and> al_key l = key \<and> fl_poll_index (al_inner l) = Some i \<and>
    fl_calls (al_inner l) = 1 \<and> G key = None \<and> rep t' (m(k \<mapsto> (f, 2))) xs \<and>
    io_rep E n w' (G(key \<mapsto> reg_of False (wk k))) (H(key \<mapsto> i)) \<and>
    advanced (io_stats w) (tally 1 0 0 1 0 0) (io_stats w') \<and> io_links w' = io_links w"
proof -
  obtain key i w1 where nw: "async_listener_new E inc w =
      Inr (\<lparr>al_inner = fake_listener_new\<lparr>fl_poll_index := Some i\<rparr>, al_key = key\<rparr>, w1)" "G key = None"
      "io_rep E n w1 (G(key \<mapsto> \<lparr>er_ready = True, er_waker = None\<rparr>)) (H(key \<mapsto> i))" "io_reported w Register w1"
    using async_listener_new_ok [OF assms(3-5)] by blast
  let ?l = "\<lparr>al_inner = fake_listener_new\<lparr>fl_poll_index := Some i\<rparr>, al_key = key\<rparr>"
  have "(G(key \<mapsto> \<lparr>er_ready = True, er_waker = None\<rparr>)) (al_key ?l) = Some (reg_of True 0)"
    "even (fl_calls (al_inner ?l))"
    by (simp_all add: reg_of_def fake_listener_new_def)
  from listen_blocks [OF assms(1,2) nw(3) this(1) io_reportedD(2) [OF nw(4)] this(2), of 0] obtain t2 w2
    where b: "listen_accept E inc vt spawn_conn ?l 0 (wk k) t w1 =
      Inr (None, Listen_accepting (listener_stepped ?l) 0, t2, w2)" "rep t2 (m(k \<mapsto> (f, 2))) xs"
      "io_rep E n w2 (G(key \<mapsto> reg_of False (wk k))) (H(key \<mapsto> i))" "io_reported w1 Accept w2"
    by (auto simp del: fun_upd_apply)
  have "advanced (io_stats w) (tally 1 0 0 1 0 0) (io_stats w2)"
    using advanced_trans [OF reported_advanced(1) [OF io_reportedD(1) [OF nw(4)]]
        reported_advanced(4) [OF io_reportedD(1) [OF b(4)]]] by simp
  moreover have "io_links w2 = io_links w" using io_reportedD(3) [OF nw(4)] io_reportedD(3) [OF b(4)] by simp
  moreover have "fl_calls (al_inner (listener_stepped ?l)) = 1" by (simp add: fake_listener_new_def)
  moreover have "listen_poll E inc vt spawn_conn Listen_start (wk k) t w =
      Inr (None, Listen_accepting (listener_stepped ?l) 0, t2, w2)"
    using nw(1) b(1) by (simp add: listen_poll_def)
  ultimately show ?thesis using nw(2) b(2,3)
    by (intro exI [of _ "listener_stepped ?l"] exI [of _ key] exI [of _ i] exI [of _ t2] exI [of _ w2]) simp
qed

text \<open>An accepted connection becomes a task.\<close>

lemma listen_spawns:
  assumes "rep t m xs" and m: "m k = Some (f, 1)" and "io_rep E n w G H" and g: "G (al_key l) = Some (reg_of True p)"
    and "card (dom G) < n" and "ready (io_stats w)" and "odd (fl_calls (al_inner l))" and "i < 256"
    and "card (dom m) < cap" and "links_ok (io_links w)"
  shows "\<exists>s key j k2 t2 w2. listen_accept E inc vt spawn_conn l i (wk k) t w =
      listen_accept E inc vt spawn_conn (listener_stepped l) (i + 1) (wk k) t2 w2 \<and>
    s = \<lparr>as_inner = fake_stream_new\<lparr>fs_poll_index := Some j\<rparr>, as_key = key\<rparr> \<and> G key = None \<and> m k2 = None \<and>
    rep t2 (m(k2 \<mapsto> (Srv_start (Invoke_connection s), 1))) (xs @ [k2]) \<and>
    io_rep E n w2 (G(key \<mapsto> reg_of True 0)) (H(key \<mapsto> j)) \<and>
    advanced (io_stats w) (tally 1 0 0 1 0 0) (io_stats w2) \<and> links_ok (io_links w2)"
proof -
  obtain key j t1 w1 t2 w2 where a: "accept_future_poll E inc vt l (wk k) t w =
      Inr (Some (Inr \<lparr>as_inner = fake_stream_new\<lparr>fs_poll_index := Some j\<rparr>, as_key = key\<rparr>),
        listener_stepped l, t1, w1)"
    "io_future_drop E vt (al_key l) t1 w1 = Inr (t2, w2)" "G key = None" "rep t2 m xs"
    "io_rep E n w2 (G(al_key l \<mapsto> reg_of True 0, key \<mapsto> reg_of True 0)) (H(key \<mapsto> j))"
    "advanced (io_stats w) (tally 1 0 0 1 0 0) (io_stats w2)" "io_links w2 = io_links w"
    using accept_future_answers [OF assms(1-7)] by blast
  let ?s = "\<lparr>as_inner = fake_stream_new\<lparr>fs_poll_index := Some j\<rparr>, as_key = key\<rparr>"
  have "G(al_key l \<mapsto> reg_of True 0) = G" using g reg_of_awake [of 0 p] by auto
  with a(5) have io: "io_rep E n w2 (G(key \<mapsto> reg_of True 0)) (H(key \<mapsto> j))" by simp
  obtain k2 t3 l' where s: "spawn_conn ?s t2 w2 = Inr (Inr (), t3, w2\<lparr>io_links := l'\<rparr>)" "links_ok l'"
      "m k2 = None" "rep t3 (m(k2 \<mapsto> (Srv_start (Invoke_connection ?s), 1))) (xs @ [k2])"
    using spawn_conn_room [OF a(4), of w2 ?s] assms(9,10) a(7) by auto
  have "listen_accept E inc vt spawn_conn l i (wk k) t w =
      listen_accept E inc vt spawn_conn (listener_stepped l) (i + 1) (wk k) t3 (w2\<lparr>io_links := l'\<rparr>)"
    using a(1,2) s(1) assms(8) by (simp add: listen_accept.simps [of _ _ _ _ l] CONNS_MAX_def)
  moreover have "links_ok (io_links (w2\<lparr>io_links := l'\<rparr>))"
    "advanced (io_stats w) (tally 1 0 0 1 0 0) (io_stats (w2\<lparr>io_links := l'\<rparr>))" using s(2) a(6) by simp_all
  ultimately show ?thesis using a(3) s(3,4) io_rep_links [OF io, of l'] by blast
qed

text \<open>Every other poll accepts one connection; the last one ends the listener.\<close>

lemma listen_accepts:
  assumes "rep t m xs" and m: "m k = Some (f, 1)" and "io_rep E n w G H" and g: "G (al_key l) = Some (reg_of True p)"
    and "card (dom G) < n" and "ready (io_stats w)" and "odd (fl_calls (al_inner l))" and "i < 255"
    and "card (dom m) < cap" and "links_ok (io_links w)"
  shows "\<exists>s key j k2 t2 w2. listen_poll E inc vt spawn_conn (Listen_accepting l i) (wk k) t w =
      Inr (None, Listen_accepting (listener_stepped (listener_stepped l)) (i + 1), t2, w2) \<and>
    s = \<lparr>as_inner = fake_stream_new\<lparr>fs_poll_index := Some j\<rparr>, as_key = key\<rparr> \<and> G key = None \<and> m k2 = None \<and>
    rep t2 (m(k2 \<mapsto> (Srv_start (Invoke_connection s), 1), k \<mapsto> (f, 2))) (xs @ [k2]) \<and>
    io_rep E n w2 (G(key \<mapsto> reg_of True 0, al_key l \<mapsto> reg_of False (wk k))) (H(key \<mapsto> j)) \<and>
    advanced (io_stats w) (tally 1 0 0 2 0 0) (io_stats w2) \<and> links_ok (io_links w2)"
proof -
  have "i < 256" using assms(8) by simp
  from listen_spawns [OF assms(1-7) this assms(9,10)] obtain s key j k2 t2 w2 where
    p: "listen_accept E inc vt spawn_conn l i (wk k) t w =
      listen_accept E inc vt spawn_conn (listener_stepped l) (i + 1) (wk k) t2 w2"
    "s = \<lparr>as_inner = fake_stream_new\<lparr>fs_poll_index := Some j\<rparr>, as_key = key\<rparr>" "G key = None" "m k2 = None"
    "rep t2 (m(k2 \<mapsto> (Srv_start (Invoke_connection s), 1))) (xs @ [k2])"
    "io_rep E n w2 (G(key \<mapsto> reg_of True 0)) (H(key \<mapsto> j))"
    "advanced (io_stats w) (tally 1 0 0 1 0 0) (io_stats w2)" "links_ok (io_links w2)"
    by blast
  have ne: "k \<noteq> k2" "key \<noteq> al_key l" using m p(3,4) g by auto
  have "(m(k2 \<mapsto> (Srv_start (Invoke_connection s), 1))) k = Some (f, 1)"
    "(G(key \<mapsto> reg_of True 0)) (al_key (listener_stepped l)) = Some (reg_of True p)"
    "even (fl_calls (al_inner (listener_stepped l)))" "i + 1 < 256"
    using m g ne assms(7,8) by auto
  from listen_blocks [OF p(5) this(1) p(6) this(2) advanced_ready [OF p(7)] this(3,4)] obtain t3 w3
    where b: "listen_accept E inc vt spawn_conn (listener_stepped l) (i + 1) (wk k) t2 w2 =
      Inr (None, Listen_accepting (listener_stepped (listener_stepped l)) (i + 1), t3, w3)"
      "rep t3 (m(k2 \<mapsto> (Srv_start (Invoke_connection s), 1), k \<mapsto> (f, 2))) (xs @ [k2])"
      "io_rep E n w3 (G(key \<mapsto> reg_of True 0, al_key (listener_stepped l) \<mapsto> reg_of False (wk k))) (H(key \<mapsto> j))"
      "io_reported w2 Accept w3"
    by blast
  have "listen_poll E inc vt spawn_conn (Listen_accepting l i) (wk k) t w =
      Inr (None, Listen_accepting (listener_stepped (listener_stepped l)) (i + 1), t3, w3)"
    using p(1) b(1) by (simp add: listen_poll_def)
  moreover have "advanced (io_stats w) (tally 1 0 0 2 0 0) (io_stats w3)"
    using advanced_trans [OF p(7) reported_advanced(4) [OF io_reportedD(1) [OF b(4)]]] by (simp add: numeral_2_eq_2)
  moreover have "io_rep E n w3 (G(key \<mapsto> reg_of True 0, al_key l \<mapsto> reg_of False (wk k))) (H(key \<mapsto> j))"
    using b(3) by simp
  moreover have "links_ok (io_links w3)" using io_reportedD(3) [OF b(4)] p(8) by simp
  ultimately show ?thesis using p(2-4) b(2) by blast
qed

lemma listen_finishes:
  assumes "rep t m xs" and m: "m k = Some (f, 1)" and "io_rep E n w G H" and g: "G (al_key l) = Some (reg_of True p)"
    and "card (dom G) < n" and "ready (io_stats w)" and "odd (fl_calls (al_inner l))" and "i = 255"
    and "card (dom m) < cap" and "links_ok (io_links w)"
    and h: "H (al_key l) = Some i'" "fl_poll_index (al_inner l) = Some i'"
  shows "\<exists>s key j k2 t2 w2. listen_poll E inc vt spawn_conn (Listen_accepting l i) (wk k) t w =
      Inr (Some (Inr ()), Listen_done, t2, w2) \<and>
    s = \<lparr>as_inner = fake_stream_new\<lparr>fs_poll_index := Some j\<rparr>, as_key = key\<rparr> \<and> G key = None \<and> m k2 = None \<and>
    rep t2 (m(k2 \<mapsto> (Srv_start (Invoke_connection s), 1))) (xs @ [k2]) \<and>
    io_rep E n w2 (G(key \<mapsto> reg_of True 0, al_key l := None)) (H(key \<mapsto> j, al_key l := None)) \<and>
    advanced (io_stats w) (tally 1 1 0 1 0 0) (io_stats w2) \<and> links_ok (io_links w2)"
proof -
  have "i < 256" using assms(8) by simp
  from listen_spawns [OF assms(1-7) this assms(9,10)] obtain s key j k2 t2 w2 where
    p: "listen_accept E inc vt spawn_conn l i (wk k) t w =
      listen_accept E inc vt spawn_conn (listener_stepped l) (i + 1) (wk k) t2 w2"
    "s = \<lparr>as_inner = fake_stream_new\<lparr>fs_poll_index := Some j\<rparr>, as_key = key\<rparr>" "G key = None" "m k2 = None"
    "rep t2 (m(k2 \<mapsto> (Srv_start (Invoke_connection s), 1))) (xs @ [k2])"
    "io_rep E n w2 (G(key \<mapsto> reg_of True 0)) (H(key \<mapsto> j))"
    "advanced (io_stats w) (tally 1 0 0 1 0 0) (io_stats w2)" "links_ok (io_links w2)"
    by blast
  have ne: "key \<noteq> al_key l" using p(3) g by auto
  have "(G(key \<mapsto> reg_of True 0)) (al_key (listener_stepped l)) = Some (reg_of True p)"
    "er_waker (reg_of True p) = None" "(H(key \<mapsto> j)) (al_key (listener_stepped l)) = Some i'"
    "fl_poll_index (al_inner (listener_stepped l)) = Some i'"
    using g ne h by auto
  from async_listener_drop_ok [OF p(6) advanced_ready [OF p(7)] this, of vt t2] obtain w3
    where b: "async_listener_drop E inc vt (listener_stepped l) t2 w2 = Inr (t2, w3)"
      "io_rep E n w3 (G(key \<mapsto> reg_of True 0, al_key (listener_stepped l) := None))
         (H(key \<mapsto> j, al_key (listener_stepped l) := None))" "io_reported w2 Unregister w3"
    by blast
  have "listen_poll E inc vt spawn_conn (Listen_accepting l i) (wk k) t w =
      Inr (Some (Inr ()), Listen_done, t2, w3)"
    using p(1) b(1) assms(8) by (simp add: listen_poll_def listen_accept.simps [of _ _ _ _ "listener_stepped l"]
        CONNS_MAX_def listen_return_def)
  moreover have "advanced (io_stats w) (tally 1 1 0 1 0 0) (io_stats w3)"
    using advanced_trans [OF p(7) reported_advanced(2) [OF io_reportedD(1) [OF b(3)]]] by simp
  moreover have "io_rep E n w3 (G(key \<mapsto> reg_of True 0, al_key l := None)) (H(key \<mapsto> j, al_key l := None))"
    using b(2) by simp
  moreover have "links_ok (io_links w3)" using io_reportedD(3) [OF b(3)] p(8) by simp
  ultimately show ?thesis using p(2-5) by blast
qed

subsection \<open>The invariant of a run\<close>

text \<open>
  \<open>ledger start D st m\<close>: the calls made since \<open>start\<close> and the calls owed add up to those of a run,
  where \<open>D\<close> polls of the reactor are owed by \<open>run\<close> itself.
\<close>

definition ledger :: "'s \<Rightarrow> nat \<Rightarrow> 's \<Rightarrow> server_future tasks \<Rightarrow> bool" where
  "ledger start D st m \<longleftrightarrow> task_sum (\<lambda>f. owed f Unregister) m \<le> 257 \<and>
     (\<exists>k. advanced start k st \<and>
       (\<forall>ty. k ty + task_sum (\<lambda>f. owed f ty) m + (if ty = Poll then D else 0) =
          tally 257 257 258 512 512 512 ty))"

lemma ledger_ready: "ledger start D st m \<Longrightarrow> ready st"
  by (auto simp: ledger_def advanced_ready)

lemma ledger_step:
  assumes "ledger start D st m" and a: "advanced st (tally g u 0 a r w) st'"
    and owe: "\<And>ty. task_sum (\<lambda>f. owed f ty) m' + tally g u 0 a r w ty = task_sum (\<lambda>f. owed f ty) m"
  shows "ledger start D st' m'"
proof -
  from assms(1) obtain k where k: "advanced start k st"
    "\<And>ty. k ty + task_sum (\<lambda>f. owed f ty) m + (if ty = Poll then D else 0) = tally 257 257 258 512 512 512 ty"
    unfolding ledger_def by blast
  have "(k ty + tally g u 0 a r w ty) + task_sum (\<lambda>f. owed f ty) m' + (if ty = Poll then D else 0) =
      tally 257 257 258 512 512 512 ty" for ty
    using k(2) [of ty] unfolding owe [of ty, symmetric] by (simp only: add_ac)
  moreover have "task_sum (\<lambda>f. owed f Unregister) m' \<le> 257"
    using owe [of Unregister] assms(1) by (simp add: ledger_def)
  ultimately show ?thesis using advanced_plus [OF k(1) a] unfolding ledger_def by blast
qed

definition serving ::
  "('r, 'v, 'p) reactor_lib \<Rightarrow> nat \<Rightarrow> 's \<Rightarrow> nat \<Rightarrow> ('r, 'v, 'p, 's, 'l) io_world \<Rightarrow>
     server_future tasks \<Rightarrow> nat list \<Rightarrow> bool" where
  "serving E N start D w m xs \<longleftrightarrow>
     (\<exists>G H. io_rep E 257 w G H \<and> watched wk srv_handle m xs G H) \<and>
     plan N D m xs \<and> ledger start D (io_stats w) m \<and> links_ok (io_links w)"

abbreviation server_turn ::
  "('r, 'v, 'p) reactor_lib \<Rightarrow> nat \<Rightarrow> nat \<Rightarrow> 't \<Rightarrow> ('r, 'v, 'p, 's, 'l) io_world \<Rightarrow>
     ('t \<times> ('r, 'v, 'p, 's, 'l) io_world) run" where
  "server_turn E N \<equiv> turn (poll_task (server_poll N E inc vt spawn_conn)) (complete (server_drop E inc vt))"

text \<open>The end of a turn, whichever future was polled.\<close>

lemma server_turn_pending:
  assumes "rep t m xs" and "m k = Some (f, r)"
    and "server_poll N E inc vt spawn_conn f (wk k) t w = Some (Inr (False, f', t2, w2))"
    and "rep t2 (m2(k \<mapsto> (f2, 2))) ys"
  shows "\<exists>t3. server_turn E N k t w = Some (Inr (t3, w2)) \<and> rep t3 (m2(k \<mapsto> (f', 2))) ys"
proof -
  have "(m2(k \<mapsto> (f2, 2 :: usize))) k = Some (f2, 2)" by simp
  from turn_pending [where poll = "server_poll N E inc vt spawn_conn" and drop_fut = "server_drop E inc vt",
      OF assms(1-4) this]
  show ?thesis by (simp del: fun_upd_apply)
qed

lemma server_turn_done:
  assumes "rep t m xs" and "m k = Some (f, r)"
    and "server_poll N E inc vt spawn_conn f (wk k) t w = Some (Inr (True, Srv_done, t2, w2))"
    and "rep t2 m2 ys" and "m2 k = Some (f2, 1)" and "k \<notin> set ys"
  shows "\<exists>t3. server_turn E N k t w = Some (Inr (t3, w2)) \<and> rep t3 (m2(k := None)) ys"
proof -
  have "server_drop E inc vt Srv_done t w2 = Inr (t, w2)" for t by (simp add: server_drop_def)
  from turn_done [where poll = "server_poll N E inc vt spawn_conn" and drop_fut = "server_drop E inc vt",
      OF assms(1-5) this] assms(6)
  show ?thesis by simp
qed

text \<open>What is known at the beginning of a turn of the task \<open>k\<close> with the future \<open>f\<close>.\<close>

definition turn_begun ::
  "('r, 'v, 'p) reactor_lib \<Rightarrow> nat \<Rightarrow> 's \<Rightarrow> nat \<Rightarrow> 't \<Rightarrow>
     ('r, 'v, 'p, 's, 'l) io_world \<Rightarrow> server_future tasks \<Rightarrow> nat \<Rightarrow> nat list \<Rightarrow> server_future \<Rightarrow>
     (nat \<Rightarrow> event_registration option) \<Rightarrow> (nat \<Rightarrow> nat option) \<Rightarrow> bool" where
  "turn_begun E N start D t w m k xs f G H \<longleftrightarrow>
     serving E N start D w m (k # xs) \<and> rep t m xs \<and> k \<notin> set xs \<and> m k = Some (f, 1) \<and>
     finite (dom m) \<and> set xs \<subseteq> dom m \<and> srv_rests N True f \<and> waits True f \<le> D \<and>
     io_rep E 257 w G H \<and> watched wk srv_handle m (k # xs) G H \<and> ready (io_stats w) \<and>
     (\<forall>key i. srv_handle f = Some (key, i) \<longrightarrow> G key = Some (reg_of True (wk k)) \<and> H key = Some i) \<and>
     card (dom m) + owed f Unregister \<le> 258 \<and> card (dom G) \<le> card (dom m)"

lemma turn_begunD:
  assumes "turn_begun E N start D t w m k xs f G H"
  shows "serving E N start D w m (k # xs)" and "rep t m xs" and "k \<notin> set xs" and "m k = Some (f, 1)"
    and "finite (dom m)" and "set xs \<subseteq> dom m" and "srv_rests N True f" and "waits True f \<le> D"
    and "io_rep E 257 w G H" and "watched wk srv_handle m (k # xs) G H" and "ready (io_stats w)"
    and "srv_handle f = Some (key, i) \<Longrightarrow> G key = Some (reg_of True (wk k))"
    and "srv_handle f = Some (key, i) \<Longrightarrow> H key = Some i"
    and "card (dom m) + owed f Unregister \<le> 258" and "card (dom G) \<le> card (dom m)"
    and "plan N D m (k # xs)" and "ledger start D (io_stats w) m" and "links_ok (io_links w)"
    and "effort m (k # xs) = turns f + effort m xs"
  using assms effort_Cons [of m k f 1 xs] by (auto simp: turn_begun_def serving_def)

lemma turn_begins:
  assumes s: "serving E N start D w m (k # xs)" and rep: "rep t m xs" and "k \<notin> set xs" and "k \<in> dom m"
  shows "\<exists>f G H. turn_begun E N start D t w m k xs f G H"
proof -
  obtain G H where gh: "io_rep E 257 w G H" "watched wk srv_handle m (k # xs) G H"
    using s by (auto simp: serving_def)
  note q = rep_queue [OF rep]
  obtain f r where "m k = Some (f, r)" using assms(4) by auto
  with watched_refs [OF gh(2) this] have m: "m k = Some (f, 1)" by simp
  have p: "plan N D m (k # xs)" using s by (simp add: serving_def)
  have one: "1 \<le> owed g Unregister" if "m j = Some (g, b)" for j g b
    using planD(1) [OF p that] by (cases "(j \<in> set (k # xs), g)" rule: waits.cases) auto
  have "card (dom m) + owed f Unregister \<le> 258"
    using task_sum_card_but [of m "\<lambda>f. owed f Unregister" k f 1] q one m s
    by (auto simp: serving_def ledger_def)
  moreover have "card (dom G) \<le> card (dom m)"
  proof -
    have "dom G \<subseteq> (\<lambda>j. the (handle_of srv_handle m j)) ` dom m"
    proof
      fix key assume "key \<in> dom G"
      then obtain reg where "G key = Some reg" by auto
      from watchedD(3) [OF gh(2) this] obtain j where j: "handle_of srv_handle m j = Some key" by blast
      with handle_of_SomeD [OF j] show "key \<in> (\<lambda>j. the (handle_of srv_handle m j)) ` dom m"
        by (intro image_eqI [of _ _ j]) auto
    qed
    with q show ?thesis by (meson card_image_le card_mono finite_imageI le_trans)
  qed
  moreover have "G key = Some (reg_of True (wk k)) \<and> H key = Some i" if "srv_handle f = Some (key, i)" for key i
    using watchedD(1) [OF gh(2) m] that by (simp add: watched_by_def)
  moreover have "ready (io_stats w)" using s by (auto simp: serving_def dest: ledger_ready)
  ultimately show ?thesis
    unfolding turn_begun_def using assms gh m q planD [OF p m]
    by (intro exI [of _ f] exI [of _ G] exI [of _ H]) auto
qed

text \<open>The same facts after the listener spawned a connection, before its turn ends.\<close>

lemma spawn_mid:
  assumes w: "watched wk srv_handle m (k # xs) G H" and p: "plan N D m (k # xs)"
    and fin: "finite (dom m)" and sub: "set xs \<subseteq> dom m" and "k \<in> dom m"
    and "m k2 = None" and "G key = None" and "2 \<le> D"
    and s: "s = \<lparr>as_inner = fake_stream_new\<lparr>fs_poll_index := Some j\<rparr>, as_key = key\<rparr>"
  shows "watched wk srv_handle (m(k2 \<mapsto> (Srv_start (Invoke_connection s), 1))) (k # (xs @ [k2]))
      (G(key \<mapsto> reg_of True 0)) (H(key \<mapsto> j))"
    and "plan N D (m(k2 \<mapsto> (Srv_start (Invoke_connection s), 1))) (k # (xs @ [k2]))"
    and "task_sum g (m(k2 \<mapsto> (Srv_start (Invoke_connection s), 1))) =
      task_sum g m + g (Srv_start (Invoke_connection s))"
proof -
  have sub': "set (k # xs) \<subseteq> dom m" using sub assms(5) by simp
  have "srv_handle (Srv_start (Invoke_connection s)) = Some (key, j)" by (simp add: s stream_handle_def)
  from watched_add [OF w assms(6) sub' assms(7) this]
  show "watched wk srv_handle (m(k2 \<mapsto> (Srv_start (Invoke_connection s), 1))) (k # (xs @ [k2]))
      (G(key \<mapsto> reg_of True 0)) (H(key \<mapsto> j))" by simp
  have "srv_rests N True (Srv_start (Invoke_connection s))" by (simp add: s fake_stream_new_def)
  from plan_add [OF p assms(6) sub' this] assms(8)
  show "plan N D (m(k2 \<mapsto> (Srv_start (Invoke_connection s), 1))) (k # (xs @ [k2]))" by simp
  show "task_sum g (m(k2 \<mapsto> (Srv_start (Invoke_connection s), 1))) =
      task_sum g m + g (Srv_start (Invoke_connection s))"
    by (rule task_sum_add [OF fin assms(6)])
qed

text \<open>\<open>turn_ok\<close>: the turn returns, the invariant holds again, and fewer turns are left.\<close>

definition turn_ok ::
  "('r, 'v, 'p) reactor_lib \<Rightarrow> nat \<Rightarrow> 's \<Rightarrow> nat \<Rightarrow> nat \<Rightarrow> 't \<Rightarrow>
     ('r, 'v, 'p, 's, 'l) io_world \<Rightarrow> server_future tasks \<Rightarrow> nat list \<Rightarrow> bool" where
  "turn_ok E N start D k t w m xs \<longleftrightarrow>
     (\<exists>t2 w2 m2 ys. server_turn E N k t w = Some (Inr (t2, w2)) \<and> rep t2 m2 ys \<and>
       serving E N start D w2 m2 ys \<and> effort m2 ys < effort m (k # xs))"

lemma turn_okI:
  "server_turn E N k t w = Some (Inr (t2, w2)) \<Longrightarrow> rep t2 m2 ys \<Longrightarrow> serving E N start D w2 m2 ys \<Longrightarrow>
     effort m2 ys < effort m (k # xs) \<Longrightarrow> turn_ok E N start D k t w m xs"
  unfolding turn_ok_def by blast


lemma sleeps_ok:
  assumes b: "turn_begun E N start D t w m k xs f G H"
    and kf: "srv_handle f = Some (key, i)" "srv_handle f' = Some (key, i)"
    and "srv_rests N False f'" and "waits False f' = waits True f"
    and poll: "server_poll N E inc vt spawn_conn f (wk k) t w = Some (Inr (False, f', t2, w2))"
    and rep2: "rep t2 (m(k \<mapsto> (f, 2))) xs"
    and io: "io_rep E 257 w2 (G(key \<mapsto> reg_of False (wk k))) H"
    and adv: "advanced (io_stats w) (tally g u 0 c r wr) (io_stats w2)" and "io_links w2 = io_links w"
    and owe: "\<And>ty. owed f' ty + tally g u 0 c r wr ty = owed f ty"
  shows "turn_ok E N start D k t w m xs"
proof -
  note b' = turn_begunD [OF b]
  from server_turn_pending [OF b'(2,4) poll rep2] obtain t3
    where t3: "server_turn E N k t w = Some (Inr (t3, w2))" "rep t3 (m(k \<mapsto> (f', 2))) xs" by blast
  have "task_sum (\<lambda>f. owed f ty) (m(k \<mapsto> (f', 2))) + tally g u 0 c r wr ty = task_sum (\<lambda>f. owed f ty) m" for ty
    using task_sum_upd [OF b'(5,4), of "\<lambda>f. owed f ty" f' 2] owe [of ty] by simp
  from ledger_step [OF b'(17) adv this] have "ledger start D (io_stats w2) (m(k \<mapsto> (f', 2)))" .
  moreover have "plan N D (m(k \<mapsto> (f', 2))) xs"
    by (rule plan_sleep [OF b'(16,3,4) assms(4,5)])
  ultimately have "serving E N start D w2 (m(k \<mapsto> (f', 2))) xs"
    using io watched_sleep [OF b'(10,3,4) kf] b'(18) assms(10) by (auto simp: serving_def)
  from turn_okI [OF t3 this] show ?thesis
    using effort_upd [OF b'(3), of m "Some (f', 2)"] b'(19) turns_pos [of f] by simp
qed

lemma turn_conn_start:
  assumes b: "turn_begun E N start D t w m k xs (Srv_start (Invoke_connection s)) G H"
  shows "turn_ok E N start D k t w m xs"
proof -
  let ?c = "\<lparr>cf_stream = stream_stepped s, cf_buf = replicate N 0, cf_buf_len = 0, cf_sent = 0\<rparr>"
  let ?f' = "Srv_connection (Conn_reading ?c)"
  note b' = turn_begunD [OF b]
  from b'(7) obtain i where i: "fs_poll_index (as_inner s) = Some i" "even (fs_calls (as_inner s))" by auto
  then have kf: "srv_handle (Srv_start (Invoke_connection s)) = Some (as_key s, i)"
    by (simp add: stream_handle_def)
  from conn_starts [OF b'(2,4,9) b'(12) [OF kf] b'(11) i(2), of N] obtain t2 w2
    where c: "connection_poll N E inc vt (Conn_start s) (wk k) t w = Inr (None, Conn_reading ?c, t2, w2)"
      "rep t2 (m(k \<mapsto> (Srv_start (Invoke_connection s), 2))) xs"
      "io_rep E 257 w2 (G(as_key s \<mapsto> reg_of False (wk k))) H" "io_reported w Read w2" by blast
  show ?thesis
  proof (rule sleeps_ok [OF b kf _ _ _ _ c(2,3) reported_advanced(5) [OF io_reportedD(1) [OF c(4)]]
        io_reportedD(3) [OF c(4)], of ?f'])
    show "owed ?f' ty + tally 0 0 0 0 1 0 ty = owed (Srv_start (Invoke_connection s)) ty" for ty
      by (cases ty) simp_all
  qed (use i c(1) in \<open>simp_all add: stream_handle_def server_poll_def await_unwrap_def\<close>)
qed

lemma turn_conn_reading:
  assumes b: "turn_begun E N start D t w m k xs (Srv_connection (Conn_reading c)) G H" and "12 \<le> N"
  shows "turn_ok E N start D k t w m xs"
proof -
  note b' = turn_begunD [OF b]
  from b'(7) obtain i where i: "fs_poll_index (as_inner (cf_stream c)) = Some i"
    "odd (fs_calls (as_inner (cf_stream c)))" "cf_buf_len c = 0" "length (cf_buf c) = N" by auto
  then have kf: "srv_handle (Srv_connection (Conn_reading c)) = Some (as_key (cf_stream c), i)"
    and len: "12 \<le> length (cf_buf c)"
    using assms(2) by (simp_all add: stream_handle_def)
  from conn_reads [OF b'(2,4,9) b'(12) [OF kf] b'(11) i(2,3) len, of N] obtain c' t2 w2
    where c: "connection_poll N E inc vt (Conn_reading c) (wk k) t w = Inr (None, Conn_writing c', t2, w2)"
      "cf_stream c' = stream_stepped (stream_stepped (cf_stream c))" "cf_buf_len c' = 12" "cf_sent c' = 0"
      "length (cf_buf c') = length (cf_buf c)"
      "rep t2 (m(k \<mapsto> (Srv_connection (Conn_reading c), 2))) xs"
      "io_rep E 257 w2 (G(as_key (cf_stream c) \<mapsto> reg_of False (wk k))) H"
      "advanced (io_stats w) (tally 0 0 0 0 1 1) (io_stats w2)" "io_links w2 = io_links w" by blast
  show ?thesis
  proof (rule sleeps_ok [OF b kf _ _ _ _ c(6-9), of "Srv_connection (Conn_writing c')"])
    show "owed (Srv_connection (Conn_writing c')) ty + tally 0 0 0 0 1 1 ty =
        owed (Srv_connection (Conn_reading c)) ty" for ty
      by (cases ty) simp_all
  qed (use i c(1-5) in \<open>simp_all add: stream_handle_def server_poll_def await_unwrap_def\<close>)
qed

lemma turn_conn_writing:
  assumes b: "turn_begun E N start D t w m k xs (Srv_connection (Conn_writing c)) G H" and "12 \<le> N"
  shows "turn_ok E N start D k t w m xs"
proof -
  let ?f = "Srv_connection (Conn_writing c)" and ?key = "as_key (cf_stream c)"
  note b' = turn_begunD [OF b]
  from b'(7) obtain i where i: "fs_poll_index (as_inner (cf_stream c)) = Some i"
    "odd (fs_calls (as_inner (cf_stream c)))" "cf_buf_len c = 12" "cf_sent c = 0" "length (cf_buf c) = N" by auto
  then have kf: "srv_handle ?f = Some (?key, i)" and len: "12 \<le> length (cf_buf c)"
    using assms(2) by (simp_all add: stream_handle_def)
  from conn_finishes [OF b'(2,4,9) b'(12) [OF kf] b'(11) i(2-4) len b'(13) [OF kf] i(1), of N] obtain t2 w2
    where c: "connection_poll N E inc vt (Conn_writing c) (wk k) t w = Inr (Some (Inr ()), Conn_done, t2, w2)"
      "rep t2 m xs" "io_rep E 257 w2 (G(?key := None)) (H(?key := None))"
      "advanced (io_stats w) (tally 0 1 0 0 0 1) (io_stats w2)" "io_links w2 = io_links w" by blast
  have "server_poll N E inc vt spawn_conn ?f (wk k) t w = Some (Inr (True, Srv_done, t2, w2))"
    using c(1) by (simp add: server_poll_def await_unwrap_def)
  from server_turn_done [OF b'(2,4) this c(2) b'(4,3)] obtain t3
    where t3: "server_turn E N k t w = Some (Inr (t3, w2))" "rep t3 (m(k := None)) xs" by blast
  have "task_sum (\<lambda>f. owed f ty) (m(k := None)) + tally 0 1 0 0 0 1 ty = task_sum (\<lambda>f. owed f ty) m" for ty
    using task_sum_remove [OF b'(5,4), of "\<lambda>f. owed f ty"] by simp
  from ledger_step [OF b'(17) c(4) this] have "ledger start D (io_stats w2) (m(k := None))" .
  moreover have "plan N D (m(k := None)) xs" by (rule plan_finish [OF b'(16,4)]) simp
  ultimately have "serving E N start D w2 (m(k := None)) xs"
    using c(3) watched_finish [OF b'(10,4) kf] b'(18) c(5) by (auto simp: serving_def)
  from turn_okI [OF t3 this] show ?thesis using effort_upd [OF b'(3), of m None] b'(19) by simp
qed

lemma turn_listen_start:
  assumes b: "turn_begun E N start D t w m k xs (Srv_start Invoke_listen) G H"
  shows "turn_ok E N start D k t w m xs"
proof -
  note b' = turn_begunD [OF b]
  have "card (dom G) < 257" using b'(14,15) by simp
  from listen_starts [OF b'(2,4,9) this b'(11)] obtain l key i t2 w2
    where c: "listen_poll E inc vt spawn_conn Listen_start (wk k) t w =
      Inr (None, Listen_accepting l 0, t2, w2)" "al_key l = key" "fl_poll_index (al_inner l) = Some i"
      "fl_calls (al_inner l) = 1" "G key = None" "rep t2 (m(k \<mapsto> (Srv_start Invoke_listen, 2))) xs"
      "io_rep E 257 w2 (G(key \<mapsto> reg_of False (wk k))) (H(key \<mapsto> i))"
      "advanced (io_stats w) (tally 1 0 0 1 0 0) (io_stats w2)" "io_links w2 = io_links w" by blast
  let ?f' = "Srv_listen (Listen_accepting l 0)"
  have kf: "srv_handle ?f' = Some (key, i)" using c(2,3) by (simp add: listener_handle_def)
  have "server_poll N E inc vt spawn_conn (Srv_start Invoke_listen) (wk k) t w =
      Some (Inr (False, ?f', t2, w2))"
    using c(1) by (simp add: server_poll_def await_unwrap_def)
  from server_turn_pending [OF b'(2,4) this c(6)] obtain t3
    where t3: "server_turn E N k t w = Some (Inr (t3, w2))" "rep t3 (m(k \<mapsto> (?f', 2))) xs" by blast
  have owe: "owed ?f' ty + tally 1 0 0 1 0 0 ty = owed (Srv_start Invoke_listen) ty" for ty
    by (cases ty) simp_all
  have "task_sum (\<lambda>f. owed f ty) (m(k \<mapsto> (?f', 2))) + tally 1 0 0 1 0 0 ty = task_sum (\<lambda>f. owed f ty) m" for ty
    using task_sum_upd [OF b'(5,4), of "\<lambda>f. owed f ty" ?f' 2] owe [of ty] by simp
  from ledger_step [OF b'(17) c(8) this] have "ledger start D (io_stats w2) (m(k \<mapsto> (?f', 2)))" .
  moreover have "plan N D (m(k \<mapsto> (?f', 2))) xs"
    by (rule plan_sleep [OF b'(16,3,4)]) (use c(3,4) in simp_all)
  moreover have "watched wk srv_handle (m(k \<mapsto> (?f', 2))) xs (G(key \<mapsto> reg_of False (wk k))) (H(key \<mapsto> i))"
    by (rule watched_register [OF b'(10,3,4) _ kf c(5) b'(6)]) simp
  ultimately have "serving E N start D w2 (m(k \<mapsto> (?f', 2))) xs"
    using c(7) b'(18) c(9) by (auto simp: serving_def)
  from turn_okI [OF t3 this] show ?thesis using effort_upd [OF b'(3), of m "Some (?f', 2)"] b'(19) by simp
qed

lemma turn_listen_accepts:
  assumes b: "turn_begun E N start D t w m k xs (Srv_listen (Listen_accepting l n)) G H" and "n < 255"
    and "cap = 257"
  shows "turn_ok E N start D k t w m xs"
proof -
  let ?f = "Srv_listen (Listen_accepting l n)"
  let ?f' = "Srv_listen (Listen_accepting (listener_stepped (listener_stepped l)) (n + 1))"
  note b' = turn_begunD [OF b]
  from b'(7) obtain i where i: "fl_poll_index (al_inner l) = Some i" "odd (fl_calls (al_inner l))" by auto
  then have kf: "srv_handle ?f = Some (al_key l, i)" "srv_handle ?f' = Some (al_key l, i)"
    by (simp_all add: listener_handle_def)
  have cards: "card (dom G) < 257" "card (dom m) < cap" using b'(14,15) assms(2,3) by simp_all
  from listen_accepts [OF b'(2,4,9) b'(12) [OF kf(1)] cards(1) b'(11) i(2) assms(2) cards(2) b'(18)]
  obtain s key j k2 t2 w2
    where c: "listen_poll E inc vt spawn_conn (Listen_accepting l n) (wk k) t w =
      Inr (None, Listen_accepting (listener_stepped (listener_stepped l)) (n + 1), t2, w2)"
      "s = \<lparr>as_inner = fake_stream_new\<lparr>fs_poll_index := Some j\<rparr>, as_key = key\<rparr>" "G key = None" "m k2 = None"
      "rep t2 (m(k2 \<mapsto> (Srv_start (Invoke_connection s), 1), k \<mapsto> (?f, 2))) (xs @ [k2])"
      "io_rep E 257 w2 (G(key \<mapsto> reg_of True 0, al_key l \<mapsto> reg_of False (wk k))) (H(key \<mapsto> j))"
      "advanced (io_stats w) (tally 1 0 0 2 0 0) (io_stats w2)" "links_ok (io_links w2)" by blast
  let ?g = "Srv_start (Invoke_connection s)"
  let ?m2 = "m(k2 \<mapsto> (?g, 1))"
  have "2 \<le> D" using b'(8) assms(2) by simp
  note mid = spawn_mid [OF b'(10,16,5,6) domI [of m k, OF b'(4)] c(4,3) this c(2)]
  have k2: "k \<notin> set (xs @ [k2])" "k2 \<notin> set xs" "?m2 k = Some (?f, 1)" using b'(3,4,6) c(4) by auto
  have "server_poll N E inc vt spawn_conn ?f (wk k) t w = Some (Inr (False, ?f', t2, w2))"
    using c(1) by (simp add: server_poll_def await_unwrap_def)
  from server_turn_pending [OF b'(2,4) this c(5)] obtain t3
    where t3: "server_turn E N k t w = Some (Inr (t3, w2))" "rep t3 (?m2(k \<mapsto> (?f', 2))) (xs @ [k2])" by blast
  have owe: "owed ?f' ty + owed ?g ty + tally 1 0 0 2 0 0 ty = owed ?f ty" for ty
    using assms(2) by (cases ty) simp_all
  have fin: "finite (dom ?m2)" using b'(5) by simp
  have "task_sum (\<lambda>f. owed f ty) (?m2(k \<mapsto> (?f', 2))) + tally 1 0 0 2 0 0 ty = task_sum (\<lambda>f. owed f ty) m" for ty
    using task_sum_upd [OF fin k2(3), of "\<lambda>f. owed f ty" ?f' 2] mid(3) [of "\<lambda>f. owed f ty"] owe [of ty]
    by linarith
  from ledger_step [OF b'(17) c(7) this] have "ledger start D (io_stats w2) (?m2(k \<mapsto> (?f', 2)))" .
  moreover have "plan N D (?m2(k \<mapsto> (?f', 2))) (xs @ [k2])"
    by (rule plan_sleep [OF mid(2) k2(1,3)]) (use i assms(2) in simp_all)
  moreover note watched_sleep [OF mid(1) k2(1,3) kf]
  ultimately have "serving E N start D w2 (?m2(k \<mapsto> (?f', 2))) (xs @ [k2])"
    using c(6,8) unfolding serving_def by blast
  moreover have "effort (?m2(k \<mapsto> (?f', 2))) (xs @ [k2]) < effort m (k # xs)"
    using effort_upd [OF k2(1), of ?m2 "Some (?f', 2)"] effort_add [OF k2(2), of m ?g 1] b'(19) by simp
  ultimately show ?thesis using turn_okI [OF t3] by blast
qed

lemma turn_listen_finishes:
  assumes b: "turn_begun E N start D t w m k xs (Srv_listen (Listen_accepting l n)) G H" and n: "n = 255"
    and "cap = 257"
  shows "turn_ok E N start D k t w m xs"
proof -
  let ?f = "Srv_listen (Listen_accepting l n)"
  note b' = turn_begunD [OF b]
  from b'(7) obtain i where i: "fl_poll_index (al_inner l) = Some i" "odd (fl_calls (al_inner l))" by auto
  then have kf: "srv_handle ?f = Some (al_key l, i)" by (simp add: listener_handle_def)
  have cards: "card (dom G) < 257" "card (dom m) < cap" using b'(14,15) n assms(3) by simp_all
  from listen_finishes [OF b'(2,4,9) b'(12) [OF kf] cards(1) b'(11) i(2) n cards(2) b'(18) b'(13) [OF kf] i(1)]
  obtain s key j k2 t2 w2
    where c: "listen_poll E inc vt spawn_conn (Listen_accepting l n) (wk k) t w =
      Inr (Some (Inr ()), Listen_done, t2, w2)"
      "s = \<lparr>as_inner = fake_stream_new\<lparr>fs_poll_index := Some j\<rparr>, as_key = key\<rparr>" "G key = None" "m k2 = None"
      "rep t2 (m(k2 \<mapsto> (Srv_start (Invoke_connection s), 1))) (xs @ [k2])"
      "io_rep E 257 w2 (G(key \<mapsto> reg_of True 0, al_key l := None)) (H(key \<mapsto> j, al_key l := None))"
      "advanced (io_stats w) (tally 1 1 0 1 0 0) (io_stats w2)" "links_ok (io_links w2)" by blast
  let ?g = "Srv_start (Invoke_connection s)"
  let ?m2 = "m(k2 \<mapsto> (?g, 1))"
  have "2 \<le> D" using b'(8) n by simp
  note mid = spawn_mid [OF b'(10,16,5,6) domI [of m k, OF b'(4)] c(4,3) this c(2)]
  have k2: "k \<notin> set (xs @ [k2])" "k2 \<notin> set xs" "?m2 k = Some (?f, 1)" "k2 \<noteq> k"
    using b'(3,4,6) c(4) by auto
  have "server_poll N E inc vt spawn_conn ?f (wk k) t w = Some (Inr (True, Srv_done, t2, w2))"
    using c(1) by (simp add: server_poll_def await_unwrap_def)
  from server_turn_done [OF b'(2,4) this c(5) k2(3,1)] obtain t3
    where t3: "server_turn E N k t w = Some (Inr (t3, w2))" "rep t3 (?m2(k := None)) (xs @ [k2])" by blast
  have owe: "owed ?g ty + tally 1 1 0 1 0 0 ty = owed ?f ty" for ty using n by (cases ty) simp_all
  have fin: "finite (dom ?m2)" using b'(5) by simp
  have "task_sum (\<lambda>f. owed f ty) (?m2(k := None)) + tally 1 1 0 1 0 0 ty = task_sum (\<lambda>f. owed f ty) m" for ty
    using task_sum_remove [OF fin k2(3), of "\<lambda>f. owed f ty"] mid(3) [of "\<lambda>f. owed f ty"] owe [of ty]
    by linarith
  from ledger_step [OF b'(17) c(7) this] have "ledger start D (io_stats w2) (?m2(k := None))" .
  moreover have "plan N D (?m2(k := None)) (xs @ [k2])"
    by (rule plan_finish [OF mid(2) k2(3)]) (use k2(4) n in \<open>auto intro!: exI [of _ k2] exI [of _ ?g]\<close>)
  moreover note watched_finish [OF mid(1) k2(3) kf]
  ultimately have "serving E N start D w2 (?m2(k := None)) (xs @ [k2])"
    using c(6,8) unfolding serving_def by blast
  moreover have "effort (?m2(k := None)) (xs @ [k2]) < effort m (k # xs)"
    using effort_upd [OF k2(1), of ?m2 None] effort_add [OF k2(2), of m ?g 1] b'(19) by simp
  ultimately show ?thesis using turn_okI [OF t3] by blast
qed

text \<open>Every turn of the server is one of these.\<close>

lemma server_turn_ok:
  assumes "serving E N start D w m (k # xs)" and "rep t m xs" and "k \<notin> set xs" and "k \<in> dom m"
    and "12 \<le> N" and "cap = 257"
  shows "turn_ok E N start D k t w m xs"
proof -
  obtain f G H where b: "turn_begun E N start D t w m k xs f G H" using turn_begins [OF assms(1-4)] by blast
  note rests = turn_begunD(7) [OF b]
  show ?thesis
  proof (cases "(N, True, f)" rule: srv_rests.cases)
    case (1 N' awake)
    with turn_listen_start b show ?thesis by blast
  next
    case (2 N' awake s)
    with turn_conn_start b show ?thesis by blast
  next
    case (3 N' awake l n)
    then have f: "f = Srv_listen (Listen_accepting l n)" and "n < 255 \<or> n = 255" using rests by auto
    with turn_listen_accepts [OF b [unfolded f] _ assms(6)] turn_listen_finishes [OF b [unfolded f] _ assms(6)]
    show ?thesis by blast
  next
    case (4 N' awake c)
    with turn_conn_reading b assms(5) show ?thesis by blast
  next
    case (5 N' awake c)
    with turn_conn_writing b assms(5) show ?thesis by blast
  qed (use rests in auto)
qed

text \<open>Waiting: a poll of the reactor wakes every task, and one poll less is left.\<close>

lemma server_parks:
  assumes s: "serving E N start D w m []" and rep: "rep t m []" and "m \<noteq> Map.empty"
  shows "\<exists>t' w' m' ys. reactor_poll E inc vt t w = Inr (Inr (), t', w') \<and> rep t' m' ys \<and>
    serving E N start (D - 1) w' m' ys \<and> 0 < D"
proof -
  obtain G H where gh: "io_rep E 257 w G H" "watched wk srv_handle m [] G H"
    using s by (auto simp: serving_def)
  have l: "ledger start D (io_stats w) m" "plan N D m []" "links_ok (io_links w)"
    using s by (simp_all add: serving_def)
  from reactor_poll_wakes [OF gh(1) ledger_ready [OF l(1)] rep gh(2)] obtain t' w' m' ys G'
    where p: "reactor_poll E inc vt t w = Inr (Inr (), t', w')" "rep t' m' ys" "io_rep E 257 w' G' H"
      "watched wk srv_handle m' ys G' H" "\<And>k. map_option fst (m' k) = map_option fst (m k)"
      "set ys = dom m" "io_reported w Poll w'" by blast
  note pw = plan_wake [OF l(2) assms(3) p(5,6)]
  from l(1) obtain k where k: "advanced start k (io_stats w)"
    "\<And>ty. k ty + task_sum (\<lambda>f. owed f ty) m + (if ty = Poll then D else 0) = tally 257 257 258 512 512 512 ty"
    unfolding ledger_def by blast
  have "(k ty + tally 0 0 1 0 0 0 ty) + task_sum (\<lambda>f. owed f ty) m' + (if ty = Poll then D - 1 else 0) =
      tally 257 257 258 512 512 512 ty" for ty
    using k(2) [of ty] pw(1) unfolding task_sum_cong [OF p(5)] by (cases ty) simp_all
  moreover have "task_sum (\<lambda>f. owed f Unregister) m' \<le> 257"
    using l(1) by (simp add: ledger_def task_sum_cong [OF p(5)])
  ultimately have "ledger start (D - 1) (io_stats w') m'"
    using advanced_plus [OF k(1) reported_advanced(3) [OF io_reportedD(1) [OF p(7)]]]
    unfolding ledger_def by blast
  then have "serving E N start (D - 1) w' m' ys"
    using p(3,4) pw(2) l(3) io_reportedD(3) [OF p(7)] by (auto simp: serving_def)
  with p(1,2) pw(1) show ?thesis by blast
qed

text \<open>A run of the server from its first task returns, with every call made and no task left.\<close>

lemma server_process:
  assumes "serving E N start D w m xs" and "rep t m xs" and "12 \<le> N" and "cap = 257"
  shows "\<exists>t' w' m'. process_loop begin_turn (poll_task (server_poll N E inc vt spawn_conn))
      (complete (server_drop E inc vt)) t w = Some (Inr (t', w')) \<and> rep t' m' [] \<and> serving E N start D w' m' []"
proof (rule process_terminates [where G = "serving E N start D" and size_of = effort, OF assms(2,1)])
  fix t w m k xs
  assume "rep t m xs" "k \<notin> set xs" "k \<in> dom m" "serving E N start D w m (k # xs)"
  from server_turn_ok [OF this(4,1-3) assms(3,4)]
  show "\<exists>t2 w2 m2 ys. server_turn E N k t w = Some (Inr (t2, w2)) \<and> rep t2 m2 ys \<and>
      serving E N start D w2 m2 ys \<and> effort m2 ys < effort m (k # xs)"
    by (simp add: turn_ok_def)
qed

lemma server_runs:
  assumes "serving E N start D w m xs" and "rep t m xs" and "12 \<le> N" and "cap = 257"
  shows "\<exists>t' w' n. executor_run (process_loop begin_turn (poll_task (server_poll N E inc vt spawn_conn))
      (complete (server_drop E inc vt))) is_empty (reactor_poll E inc vt) t w = Some (Inr (t', w')) \<and>
    rep t' Map.empty [] \<and> serving E N start n w' Map.empty []"
proof (rule run_terminates [where G = "serving E N start", OF assms(2,1)])
  fix n t w m xs
  assume "rep t m xs" "serving E N start n w m xs"
  from server_process [OF this(2,1) assms(3,4)]
  show "\<exists>t' w' m'. process_loop begin_turn (poll_task (server_poll N E inc vt spawn_conn))
      (complete (server_drop E inc vt)) t w = Some (Inr (t', w')) \<and> rep t' m' [] \<and> serving E N start n w' m' []" .
next
  fix n t w m
  assume "rep t m []" "serving E N start n w m []" "m \<noteq> Map.empty"
  from server_parks [OF this(2,1,3)] obtain t' w' m' ys
    where "reactor_poll E inc vt t w = Inr (Inr (), t', w')" "rep t' m' ys"
      "serving E N start (n - 1) w' m' ys" "0 < n" by blast
  then show "\<exists>t' w' m' ys n'. reactor_poll E inc vt t w = Inr (Inr (), t', w') \<and> rep t' m' ys \<and>
      serving E N start n' w' m' ys \<and> n' < n"
    by (intro exI conjI) (assumption | simp)+
qed

subsection \<open>A whole run\<close>

lemma server_starts:
  assumes "io_rep E 257 w Map.empty Map.empty" and "ready (io_stats w)" and "links_ok (io_links w)"
  shows "serving E N (io_stats w) 258 w
    [k \<mapsto> (Srv_start Invoke_listen, 1)] [k]"
proof -
  let ?f = "Srv_start Invoke_listen"
  have sum: "task_sum g [k \<mapsto> (?f, 1)] = g ?f" for g
    using task_sum_add [of Map.empty k g ?f 1] by simp
  have "owed ?f ty + (if ty = Poll then 258 else 0) = tally 257 257 258 512 512 512 ty" for ty
    by (cases ty) simp_all
  then have "ledger (io_stats w) 258 (io_stats w) [k \<mapsto> (?f, 1)]"
    using advanced_none [OF assms(2)] unfolding ledger_def sum
    by (intro conjI exI [of _ "\<lambda>_. 0"]) simp_all
  moreover have "plan N 258 [k \<mapsto> (?f, 1)] [k]" by (simp add: plan_def)
  moreover have "watched wk srv_handle [k \<mapsto> (?f, 1)] [k] Map.empty Map.empty"
    by (rule watchedI) (auto simp: watched_by_def handle_of_def split: if_splits)
  ultimately show ?thesis using assms(1,3) by (auto simp: serving_def)
qed

lemma server_ends:
  assumes "serving E N start n w Map.empty []"
  shows "io_rep E 257 w Map.empty Map.empty" and "ready (io_stats w)" and "links_ok (io_links w)"
    and "advanced start (tally 257 257 258 512 512 512) (io_stats w)"
proof -
  obtain G H where gh: "io_rep E 257 w G H" "watched wk srv_handle Map.empty [] G H"
    using assms by (auto simp: serving_def)
  have "G = Map.empty" using watchedD(3) [OF gh(2)] by (fastforce simp: handle_of_def)
  moreover from this have "H = Map.empty" using io_repD(5) [OF gh(1)] by simp
  ultimately show "io_rep E 257 w Map.empty Map.empty" using gh(1) by simp
  have "n = 0" using assms by (simp add: serving_def plan_def)
  then have l: "ledger start 0 (io_stats w) Map.empty" and "links_ok (io_links w)"
    using assms by (simp_all add: serving_def)
  then show "ready (io_stats w)" "links_ok (io_links w)" by (simp_all add: ledger_ready)
  from l obtain k' where k: "advanced start k' (io_stats w)" "\<And>ty. k' ty = tally 257 257 258 512 512 512 ty"
    by (auto simp: ledger_def)
  then have "k' = tally 257 257 258 512 512 512" by blast
  with k(1) show "advanced start (tally 257 257 258 512 512 512) (io_stats w)" by simp
qed

lemma server_serves:
  assumes "io_rep E 257 w Map.empty Map.empty" and "ready (io_stats w)" and "links_ok (io_links w)"
    and "rep t [k \<mapsto> (Srv_start Invoke_listen, 1)] [k]" and "12 \<le> N" and "cap = 257"
  shows "\<exists>t' w'. executor_run (process_loop begin_turn (poll_task (server_poll N E inc vt spawn_conn))
      (complete (server_drop E inc vt))) is_empty (reactor_poll E inc vt) t w = Some (Inr (t', w')) \<and>
    rep t' Map.empty [] \<and> io_rep E 257 w' Map.empty Map.empty \<and> links_ok (io_links w') \<and>
    advanced (io_stats w) (tally 257 257 258 512 512 512) (io_stats w')"
proof -
  from server_runs [OF server_starts [OF assms(1-3)] assms(4-6)] obtain t' w' n
    where r: "executor_run (process_loop begin_turn (poll_task (server_poll N E inc vt spawn_conn))
      (complete (server_drop E inc vt))) is_empty (reactor_poll E inc vt) t w = Some (Inr (t', w'))"
      "rep t' Map.empty []"
      "serving E N (io_stats w) n w' Map.empty []"
    by blast
  with server_ends [OF r(3)] show ?thesis by (auto simp: advanced_def)
qed

end

end
