(* ===== verification/Manual_Correct.thy ===== *)
theory Manual_Correct
  imports Run_Manual
begin

section \<open>The manual event loop serves every connection\<close>

text \<open>
  Every connection goes through three stages, one turn of the main loop each: its first read
  is refused (0), its second read is answered and its first write refused (1), its second
  write is answered and it is done (2). From the invariant \<open>manual_ok\<close> of the loop and the
  number of connections at each stage the number of calls of every kind follows, whatever
  keys the slabs hand out and in whatever order the events are visited.
\<close>

subsection \<open>The stages of one connection\<close>

definition stage_of :: "connection \<Rightarrow> nat" where
  "stage_of c =
     (case c_state c of
        ReceivingRequest \<Rightarrow> if even (fs_calls (c_stream c)) then 0 else 1
      | SendingResponse \<Rightarrow> 2)"

definition conn_wf :: "connection \<Rightarrow> bool" where
  "conn_wf c \<longleftrightarrow> length (c_buf c) = SMALL_BUFSIZE \<and> c_sent c = 0 \<and>
     (case c_state c of
        ReceivingRequest \<Rightarrow> c_buf_len c = 0
      | SendingResponse \<Rightarrow>
          c_buf_len c = 12 \<and> take 12 (c_buf c) = hello_world \<and> odd (fs_calls (c_stream c)))"

abbreviation conn_index :: "connection \<Rightarrow> nat option" where
  "conn_index c \<equiv> fs_poll_index (c_stream c)"

lemma stage_of_less: "stage_of c < 3"
  by (simp add: stage_of_def split: connection_state.split)

context stats_trait
begin

lemma process_stage0:
  assumes "conn_wf c" and "stage_of c = 0" and "ready st"
  shows "\<exists>c' st'. process inc c st = Inr (False, c', st') \<and>
    (\<forall>log. process_logged inc c (st, log) = Some (Inr (False, c', st', log))) \<and>
    conn_wf c' \<and> stage_of c' = 1 \<and> conn_index c' = conn_index c \<and> advanced st (tally 0 0 0 0 1 0) st'"
proof -
  have c: "c_state c = ReceivingRequest" "even (fs_calls (c_stream c))" "c_buf_len c = 0"
    using assms(1,2) by (auto simp: stage_of_def conn_wf_def split: connection_state.splits if_splits)
  obtain st' where rd: "fake_stream_read inc (c_stream c) (c_buf c) st =
      Inr (Inl WouldBlock, (c_stream c)\<lparr>fs_calls := fs_calls (c_stream c) + 1\<rparr>, c_buf c, st')"
    and r: "reported st Read st'"
    using read_blocks [OF assms(3) c(2)] by blast
  let ?c' = "c\<lparr>c_stream := (c_stream c)\<lparr>fs_calls := fs_calls (c_stream c) + 1\<rparr>, c_can_read := False\<rparr>"
  have "process inc c st = Inr (False, ?c', st')"
    using c rd by (simp add: process.simps [of inc c] process_step_def process_step_on_def slice_from_def write_from_def)
  moreover have "process_logged inc c (st, log) = Some (Inr (False, ?c', st', log))" for log
    using c rd by (simp add: process_on.simps [of _ _ c] process_step_on_def logged_read_def
        slice_from_def write_from_def)
  moreover have "conn_wf ?c'" "stage_of ?c' = 1"
    using c assms(1) by (simp_all add: conn_wf_def stage_of_def)
  ultimately show ?thesis using reported_advanced(5) [OF r] by (intro exI [of _ ?c'] exI [of _ st']) simp
qed

lemma process_stage1:
  assumes "conn_wf c" and "stage_of c = 1" and "ready st"
  shows "\<exists>c' st'. process inc c st = Inr (False, c', st') \<and>
    (\<forall>log. process_logged inc c (st, log) =
      Some (Inr (False, c', st', log @ [(hello_world, Inl WouldBlock)]))) \<and>
    take (c_buf_len c') (c_buf c') = hello_world \<and> conn_wf c' \<and> stage_of c' = 2 \<and> conn_index c' = conn_index c \<and> advanced st (tally 0 0 0 0 1 1) st'"
proof -
  have c: "c_state c = ReceivingRequest" "odd (fs_calls (c_stream c))" "c_buf_len c = 0"
      "c_sent c = 0" and len: "length (c_buf c) = 128"
    using assms(1,2) by (auto simp: stage_of_def conn_wf_def SMALL_BUFSIZE_def
        split: connection_state.splits if_splits)
  let ?s1 = "(c_stream c)\<lparr>fs_calls := fs_calls (c_stream c) + 1\<rparr>"
  let ?s2 = "?s1\<lparr>fs_calls := fs_calls ?s1 + 1\<rparr>"
  let ?buf = "hello_world @ drop 12 (c_buf c)"
  have "12 \<le> length (c_buf c)" using len by simp
  from read_answers [OF assms(3) c(2) this] obtain st1
    where rd: "fake_stream_read inc (c_stream c) (c_buf c) st = Inr (Inr 12, ?s1, ?buf, st1)"
      and r1: "reported st Read st1"
    by blast
  have "even (fs_calls ?s1)" using c(2) by simp
  from write_blocks [OF reported_ready [OF r1] this] obtain st2
    where wr: "fake_stream_write inc ?s1 hello_world st1 = Inr (Inl WouldBlock, ?s2, st2)"
      and r2: "reported st1 Write st2"
    by blast
  let ?c1 = "c\<lparr>c_stream := ?s1, c_buf := ?buf, c_buf_len := 12, c_state := SendingResponse\<rparr>"
  let ?c2 = "?c1\<lparr>c_stream := ?s2, c_can_write := False\<rparr>"
  have "process_step inc c st = Inr (None, ?c1, st1)"
    using c rd len by (simp add: process_step_def process_step_on_def slice_from_def slice_to_def write_from_def)
  moreover have "process_step inc ?c1 st1 = Inr (Some False, ?c2, st2)"
    using c wr len by (simp add: process_step_def process_step_on_def slice_range_def)
  ultimately have "process inc c st = Inr (False, ?c2, st2)"
    by (simp add: process.simps)
  moreover have "process_logged inc c (st, log) =
      Some (Inr (False, ?c2, st2, log @ [(hello_world, Inl WouldBlock)]))" for log
  proof -
    have "process_step_on (logged_read inc) (logged_write inc) c (st, log) = Inr (None, ?c1, st1, log)"
      using c rd len by (simp add: process_step_on_def logged_read_def slice_from_def slice_to_def write_from_def)
    moreover have "process_step_on (logged_read inc) (logged_write inc) ?c1 (st1, log) =
        Inr (Some False, ?c2, st2, log @ [(hello_world, Inl WouldBlock)])"
      using c wr len by (simp add: process_step_on_def logged_write_def slice_range_def)
    ultimately show ?thesis by (simp add: process_on.simps)
  qed
  moreover have "take (c_buf_len ?c2) (c_buf ?c2) = hello_world" by simp
  moreover have "conn_wf ?c2" "stage_of ?c2 = 2" "conn_index ?c2 = conn_index c"
    using c len by (simp_all add: conn_wf_def stage_of_def SMALL_BUFSIZE_def)
  moreover have "advanced st (tally 0 0 0 0 1 1) st2"
    using advanced_trans [OF reported_advanced(5) [OF r1] reported_advanced(6) [OF r2]] by simp
  ultimately show ?thesis by blast
qed

lemma process_stage2:
  assumes "conn_wf c" and "stage_of c = 2" and "ready st"
  shows "\<exists>c' st'. process inc c st = Inr (True, c', st') \<and>
    (\<forall>log. process_logged inc c (st, log) = Some (Inr (True, c', st', log @ [(hello_world, Inr 12)]))) \<and>
    conn_index c' = conn_index c \<and> advanced st (tally 0 0 0 0 0 1) st'"
proof -
  have c: "c_state c = SendingResponse" "odd (fs_calls (c_stream c))" "c_buf_len c = 12"
      "c_sent c = 0" "take 12 (c_buf c) = hello_world" and len: "length (c_buf c) = 128"
    using assms(1,2) by (auto simp: stage_of_def conn_wf_def SMALL_BUFSIZE_def
        split: connection_state.splits if_splits)
  obtain st' where wr: "fake_stream_write inc (c_stream c) hello_world st =
      Inr (Inr 12, (c_stream c)\<lparr>fs_calls := fs_calls (c_stream c) + 1\<rparr>, st')"
    and r: "reported st Write st'"
    using write_answers [OF assms(3) c(2), of hello_world] by auto
  let ?c' = "c\<lparr>c_stream := (c_stream c)\<lparr>fs_calls := fs_calls (c_stream c) + 1\<rparr>, c_sent := 12\<rparr>"
  have "process inc c st = Inr (True, ?c', st')"
    using c len wr by (simp add: process.simps [of inc c] process_step_def process_step_on_def slice_range_def)
  moreover have "process_logged inc c (st, log) = Some (Inr (True, ?c', st', log @ [(hello_world, Inr 12)]))" for log
    using c len wr by (simp add: process_on.simps [of _ _ c] process_step_on_def logged_write_def slice_range_def)
  ultimately show ?thesis using reported_advanced(6) [OF r] by (intro exI [of _ ?c'] exI [of _ st']) simp
qed

lemma process_stage:
  assumes "conn_wf c" and "ready st"
  shows "\<exists>c' st'. process inc c st = Inr (stage_of c = 2, c', st') \<and>
    conn_index c' = conn_index c \<and>
    (stage_of c < 2 \<longrightarrow> conn_wf c' \<and> stage_of c' = Suc (stage_of c)) \<and>
    advanced st (tally 0 0 0 0 (if stage_of c < 2 then 1 else 0)
      (if 0 < stage_of c then 1 else 0)) st'"
proof -
  consider "stage_of c = 0" | "stage_of c = 1" | "stage_of c = 2"
    using stage_of_less [of c] by linarith
  then show ?thesis
    using process_stage0 [OF assms(1) _ assms(2)] process_stage1 [OF assms(1) _ assms(2)]
      process_stage2 [OF assms(1) _ assms(2)]
    by cases fastforce+
qed

end

subsection \<open>The invariant of the loop\<close>

text \<open>
  \<open>polled\<close>: a handle's index leads to the poll item the handle was registered with. Since the
  item holds the key, no two connections share an index. \<open>manual_ok P C x m xs\<close>: the slab of
  connections stores \<open>m\<close> and the queue stands for \<open>xs\<close>; the poll items are those of the
  listener and of the connections and no others; every connection is well-formed.
\<close>

definition polled :: "('p, u8 \<times> nat) slab_ops \<Rightarrow> 'p fake_poll \<Rightarrow> nat option \<Rightarrow> u8 \<Rightarrow> nat \<Rightarrow> bool" where
  "polled P p i interest key \<longleftrightarrow>
     (\<exists>j. i = Some j \<and> im_get P (poll_items p) j = Some (interest, key))"

abbreviation RW :: u8 where "RW \<equiv> or READABLE WRITABLE"

definition poll_keys :: "nat set \<Rightarrow> (u8 \<times> nat) multiset" where
  "poll_keys ks = add_mset (READABLE, 0) (image_mset (\<lambda>k. (RW, Suc k)) (mset_set ks))"

definition manual_ok ::
  "('p, u8 \<times> nat) slab_ops \<Rightarrow> ('c, connection node) slab_ops \<Rightarrow>
     ('p, 'e, 'c) manual_locals \<Rightarrow> (nat \<Rightarrow> connection option) \<Rightarrow> nat list \<Rightarrow> bool" where
  "manual_ok P C x m xs \<longleftrightarrow>
     slab_ok P \<and> queue_rep C (rm_conns x) (needs_process x) xs \<and> value_at C (rm_conns x) = m \<and>
     slab_values P (poll_items (rm_poll x)) = poll_keys (dom m) \<and>
     polled P (rm_poll x) (fl_poll_index (listener x)) READABLE 0 \<and>
     (\<forall>k c. m k = Some c \<longrightarrow> conn_wf c \<and> polled P (rm_poll x) (conn_index c) RW (Suc k))"

lemma manual_ok_finite: "manual_ok P C x m xs \<Longrightarrow> finite (dom m)"
  using task_pool.used_view by (fastforce simp: manual_ok_def)

lemma manual_ok_keys: "manual_ok P C x m xs \<Longrightarrow> set xs \<subseteq> dom m"
  using run_queue.rep_present by (fastforce simp: manual_ok_def)

lemma manual_ok_distinct: "manual_ok P C x m xs \<Longrightarrow> distinct xs"
  using run_queue.rep_distinct by (fastforce simp: manual_ok_def)

lemma poll_keys_insert:
  "finite ks \<Longrightarrow> k \<notin> ks \<Longrightarrow> poll_keys (insert k ks) = add_mset (RW, Suc k) (poll_keys ks)"
  by (simp add: poll_keys_def)

text \<open>Registering a handle and unregistering another leave the items of the others alone.\<close>

lemma polled_insert:
  "slab_ok P \<Longrightarrow> polled P p i interest key \<Longrightarrow>
     polled P (p\<lparr>poll_items := slab_insert P (poll_items p) v\<rparr>) i interest key"
  using slab_vacant [of P "poll_items p"] by (auto simp: polled_def slab_get_insert)

lemma polled_new:
  "slab_ok P \<Longrightarrow>
     polled P (p\<lparr>poll_items := slab_insert P (poll_items p) (interest, key)\<rparr>)
       (Some (vacant_key P (poll_items p))) interest key"
  by (simp add: polled_def slab_get_insert)

lemma polled_remove:
  "slab_ok P \<Longrightarrow> polled P p i interest key \<Longrightarrow> polled P p (Some j) interest' key' \<Longrightarrow> key \<noteq> key' \<Longrightarrow>
     polled P (p\<lparr>poll_items := slab_remove P (poll_items p) j\<rparr>) i interest key"
  by (cases i; cases "i = Some j") (auto simp: polled_def slab_get_remove)

definition stage_at :: "(nat \<Rightarrow> connection option) \<Rightarrow> nat \<Rightarrow> nat" where
  "stage_at m k = stage_of (the (m k))"

definition at_stage :: "(nat \<Rightarrow> connection option) \<Rightarrow> nat \<Rightarrow> nat set" where
  "at_stage m s = {k \<in> dom m. stage_at m k = s}"

text \<open>One pass over the queue: what happens to the stages of the queued connections.\<close>

definition stage_step :: "connection option \<Rightarrow> connection option \<Rightarrow> bool" where
  "stage_step c c' \<longleftrightarrow>
     (if stage_of (the c) = 2 then c' = None
      else c' \<noteq> None \<and> stage_of (the c') = Suc (stage_of (the c)))"

definition stages_moved ::
  "nat set \<Rightarrow> (nat \<Rightarrow> connection option) \<Rightarrow> (nat \<Rightarrow> connection option) \<Rightarrow> bool" where
  "stages_moved K m m' \<longleftrightarrow>
     (\<forall>k. if k \<in> K then stage_step (m k) (m' k) else m' k = m k)"

lemma stages_moved_step:
  assumes "stages_moved {k} m m1" and "stages_moved K m1 m2" and "k \<notin> K"
  shows "stages_moved (insert k K) m m2"
  unfolding stages_moved_def
proof
  fix j
  have "if j = k then stage_step (m j) (m1 j) else m1 j = m j"
    and "if j \<in> K then stage_step (m1 j) (m2 j) else m2 j = m1 j"
    using assms(1,2) by (simp_all add: stages_moved_def)
  with assms(3) show "if j \<in> insert k K then stage_step (m j) (m2 j) else m2 j = m j"
    by (auto split: if_splits)
qed

lemma at_stage_moved:
  assumes "stages_moved (dom m) m m'"
  shows "at_stage m' 0 = {}" and "at_stage m' 1 = at_stage m 0" and "at_stage m' 2 = at_stage m 1"
    and "dom m' = at_stage m 0 \<union> at_stage m 1"
proof -
  have step: "if k \<in> dom m then stage_step (m k) (m' k) else m' k = m k" for k
    using assms by (simp add: stages_moved_def)
  have m': "k \<in> dom m' \<longleftrightarrow> k \<in> dom m \<and> stage_at m k < 2" for k
    using step [of k] stage_of_less [of "the (m k)"]
    by (auto simp: stage_step_def stage_at_def split: if_splits)
  have st: "stage_at m' k = Suc (stage_at m k)" if "k \<in> dom m'" for k
    using that m' [of k] step [of k] by (auto simp: stage_step_def stage_at_def split: if_splits)
  have "k \<in> at_stage m' s \<longleftrightarrow> k \<in> dom m \<and> stage_at m k < 2 \<and> s = Suc (stage_at m k)" for k s
    using st m' by (auto simp: at_stage_def)
  then show "at_stage m' 0 = {}" "at_stage m' 1 = at_stage m 0" "at_stage m' 2 = at_stage m 1"
    by (auto simp: at_stage_def)
  have "k \<in> dom m' \<longleftrightarrow> k \<in> at_stage m 0 \<union> at_stage m 1" for k
    unfolding m' by (auto simp: at_stage_def)
  then show "dom m' = at_stage m 0 \<union> at_stage m 1" by blast
qed

lemma filter_stage:
  assumes "distinct xs" and "set xs = dom m"
  shows "length (filter (\<lambda>k. Q (stage_at m k)) xs) = card {k \<in> dom m. Q (stage_at m k)}"
proof -
  have "{x. Q (stage_at m x)} \<inter> set xs = {k \<in> dom m. Q (stage_at m k)}"
    using assms(2) by blast
  then show ?thesis by (simp only: distinct_length_filter [OF assms(1)])
qed

context stats_trait
begin

lemma drain_one_ok:
  assumes ok: "manual_ok P C x m (k # ks)" and st: "ready st" and c: "m k = Some c"
  shows "\<exists>x' st' c'. drain_one P C inc k x st = Inr (x', st') \<and>
    (let m' = (if stage_of c = 2 then m(k := None) else m(k \<mapsto> c')) in
       manual_ok P C x' m' ks) \<and>
    (stage_of c < 2 \<longrightarrow> stage_of c' = Suc (stage_of c)) \<and>
    listener x' = listener x \<and> can_accept x' = can_accept x \<and> accept_left x' = accept_left x \<and>
    advanced st (tally 0 (if stage_of c = 2 then 1 else 0) 0 0 (if stage_of c < 2 then 1 else 0)
      (if 0 < stage_of c then 1 else 0)) st'"
proof -
  have P: "slab_ok P" and q: "queue_rep C (rm_conns x) (needs_process x) (k # ks)"
    and v: "value_at C (rm_conns x) = m" and wf: "conn_wf c"
    and its: "slab_values P (poll_items (rm_poll x)) = poll_keys (dom m)"
    and lis: "polled P (rm_poll x) (fl_poll_index (listener x)) READABLE 0"
    and cs: "\<And>j d. m j = Some d \<Longrightarrow> conn_wf d \<and> polled P (rm_poll x) (conn_index d) RW (Suc j)"
    using ok c by (auto simp: manual_ok_def)
  have kks: "k \<notin> set ks" using manual_ok_distinct [OF ok] by simp
  obtain np conns where rm: "list_remove C (needs_process x) (rm_conns x) k = Inr (np, conns)"
    and q1: "queue_rep C conns np ks" and v1: "value_at C conns = m"
    using run_queue.remove_rep [OF q, of k c] v c kks by auto
  obtain n where n: "im_get C conns k = Some n" "nd_value n = c"
    using v1 c by (auto simp flip: v1 simp: value_at_Some_iff)
  obtain c' st1 where pr: "process inc c st = Inr (stage_of c = 2, c', st1)"
    and ci: "conn_index c' = conn_index c"
    and next_stage: "stage_of c < 2 \<longrightarrow> conn_wf c' \<and> stage_of c' = Suc (stage_of c)"
    and adv: "advanced st (tally 0 0 0 0 (if stage_of c < 2 then 1 else 0)
      (if 0 < stage_of c then 1 else 0)) st1"
    using process_stage [OF wf st] by blast
  obtain i where i: "conn_index c = Some i" "im_get P (poll_items (rm_poll x)) i = Some (RW, Suc k)"
    using cs [OF c] by (auto simp: polled_def)
  let ?put = "\<lambda>c. im_set C conns k (n\<lparr>nd_value := c\<rparr>)"
  have put: "queue_rep C (?put d) np ks" "value_at C (?put d) = m(k \<mapsto> d)" for d
    using queue_rep_put [OF q1 n(1)] v1 by auto
  show ?thesis
  proof (cases "stage_of c = 2")
    case False
    then have "stage_of c < 2" using stage_of_less [of c] by linarith
    let ?x = "x\<lparr>needs_process := np, rm_conns := ?put c'\<rparr>"
    have "drain_one P C inc k x st = Inr (?x, st1)"
      using rm n pr False by (simp add: drain_one_def Let_def)
    moreover have "manual_ok P C ?x (m(k \<mapsto> c')) ks"
      using P put its lis cs c ci i next_stage \<open>stage_of c < 2\<close>
      by (auto simp: manual_ok_def polled_def insert_absorb domI)
    ultimately show ?thesis using adv next_stage False by fastforce
  next
    case True
    let ?p = "(rm_poll x)\<lparr>poll_items := slab_remove P (poll_items (rm_poll x)) i\<rparr>"
    let ?c = "c'\<lparr>c_stream := (c_stream c')\<lparr>fs_poll_index := None\<rparr>\<rparr>"
    obtain st2 where un: "poll_unregister P inc stream_evented (rm_poll x) (c_stream c') st1 =
        Inr (?p, (c_stream c')\<lparr>fs_poll_index := None\<rparr>, st2)" and r: "reported st1 Unregister st2"
      using unregister_removes [OF advanced_ready [OF adv], of stream_evented "c_stream c'" i P
          "rm_poll x"] i ci by auto
    let ?put2 = "im_set C (?put c') k (n\<lparr>nd_value := ?c\<rparr>)"
    let ?conns = "slab_remove C ?put2 k"
    have "im_get C (?put c') k = Some (n\<lparr>nd_value := c'\<rparr>)"
      using slab_get_set [OF _ n(1)] q by (simp add: queue_rep_def)
    from queue_rep_put [OF put(1) this, of ?c]
    have put2: "queue_rep C ?put2 np ks" "value_at C ?put2 = m(k \<mapsto> ?c)"
      by (simp_all add: put(2))
    have gp: "\<exists>n. im_get C ?put2 k = Some n" using put2(2) by (metis fun_upd_same value_at_Some_iff)
    then have tk: "slab_take C ?put2 k = Inr (the (im_get C ?put2 k), ?conns)" by auto
    let ?x = "x\<lparr>needs_process := np, rm_poll := ?p, rm_conns := ?conns\<rparr>"
    have run: "drain_one P C inc k x st = Inr (?x, st2)"
      using rm n pr True un tk by (simp add: drain_one_def Let_def)
    have "poll_keys (dom m) = add_mset (RW, Suc k) (poll_keys (dom m - {k}))"
      using poll_keys_insert [of "dom m - {k}" k] manual_ok_finite [OF ok] c
      by (simp add: insert_absorb domI)
    then have its': "slab_values P (poll_items ?p) = poll_keys (dom (m(k := None)))"
      using slab_values_remove [OF P i(2)] its by (simp add: dom_fun_upd)
    have pk: "polled P (rm_poll x) (Some i) RW (Suc k)" using i by (simp add: polled_def)
    have "manual_ok P C ?x (m(k := None)) ks"
      unfolding manual_ok_def
    proof (intro conjI allI impI)
      show "queue_rep C (rm_conns ?x) (needs_process ?x) ks" "value_at C (rm_conns ?x) = m(k := None)"
        using queue_rep_take [OF put2(1) _ kks] put2(2) gp by auto
      show "slab_values P (poll_items (rm_poll ?x)) = poll_keys (dom (m(k := None)))"
        using its' by simp
      show "polled P (rm_poll ?x) (fl_poll_index (listener ?x)) READABLE 0"
        using polled_remove [OF P lis pk] by simp
      fix j d assume j: "(m(k := None)) j = Some d"
      then have "m j = Some d" "j \<noteq> k" by (auto split: if_splits)
      then show "conn_wf d" "polled P (rm_poll ?x) (conn_index d) RW (Suc j)"
        using cs polled_remove [OF P _ pk] by auto
    qed (use P in simp)
    moreover have "advanced st (tally 0 1 0 0 0 1) st2"
      using advanced_trans [OF adv reported_advanced(2) [OF r]] True by simp
    ultimately show ?thesis using run True by fastforce
  qed
qed

lemma drain_loop_ok:
  assumes "manual_ok P C x m xs" and "ready st"
  shows "\<exists>x' st' m'.
    drain_loop P C inc (l_head (needs_process x)) x st = Some (Inr (x', st')) \<and>
    manual_ok P C x' m' [] \<and> stages_moved (set xs) m m' \<and>
    listener x' = listener x \<and> can_accept x' = can_accept x \<and> accept_left x' = accept_left x \<and>
    advanced st (tally 0 (length (filter (\<lambda>k. stage_at m k = 2) xs)) 0 0
      (length (filter (\<lambda>k. stage_at m k < 2) xs))
      (length (filter (\<lambda>k. 0 < stage_at m k) xs))) st'"
  using assms
proof (induction xs arbitrary: x m st)
  case Nil
  then have "l_head (needs_process x) = None"
    using run_queue.front_None_iff by (fastforce simp: manual_ok_def)
  then show ?case
    using Nil advanced_refl [OF Nil(2)]
    by (subst drain_loop.simps) (auto simp: stages_moved_def)
next
  case (Cons k ks)
  have q: "queue_rep C (rm_conns x) (needs_process x) (k # ks)"
    using Cons.prems by (simp add: manual_ok_def)
  have head: "l_head (needs_process x) = Some k" using run_queue.front_rep [OF q] by simp
  obtain c where c: "m k = Some c" using manual_ok_keys [OF Cons.prems(1)] by auto
  have kks: "k \<notin> set ks" using manual_ok_distinct [OF Cons.prems(1)] by simp
  obtain x1 st1 c1 where one: "drain_one P C inc k x st = Inr (x1, st1)"
    and ok1: "manual_ok P C x1 (if stage_of c = 2 then m(k := None) else m(k \<mapsto> c1)) ks"
    and c1: "stage_of c < 2 \<longrightarrow> stage_of c1 = Suc (stage_of c)"
    and fr: "listener x1 = listener x" "can_accept x1 = can_accept x"
      "accept_left x1 = accept_left x"
    and a1: "advanced st (tally 0 (if stage_of c = 2 then 1 else 0) 0 0
      (if stage_of c < 2 then 1 else 0) (if 0 < stage_of c then 1 else 0)) st1"
    using drain_one_ok [OF Cons.prems c] by (auto simp: Let_def)
  define m1 where "m1 = (if stage_of c = 2 then m(k := None) else m(k \<mapsto> c1))"
  have mv1: "stages_moved {k} m m1"
    using c c1 stage_of_less [of c] by (auto simp: stages_moved_def stage_step_def m1_def)
  have same: "stage_at m1 j = stage_at m j" if "j \<in> set ks" for j
    using that kks by (auto simp: m1_def stage_at_def)
  then have filt: "filter (\<lambda>k. Q (stage_at m1 k)) ks = filter (\<lambda>k. Q (stage_at m k)) ks" for Q
    by (auto intro: filter_cong)
  obtain x2 st2 m2 where rest:
      "drain_loop P C inc (l_head (needs_process x1)) x1 st1 = Some (Inr (x2, st2))"
      "manual_ok P C x2 m2 []" "stages_moved (set ks) m1 m2"
      "listener x2 = listener x1" "can_accept x2 = can_accept x1" "accept_left x2 = accept_left x1"
    and a2: "advanced st1 (tally 0 (length (filter (\<lambda>k. stage_at m k = 2) ks)) 0 0
      (length (filter (\<lambda>k. stage_at m k < 2) ks))
      (length (filter (\<lambda>k. 0 < stage_at m k) ks))) st2"
    using Cons.IH [OF ok1 [folded m1_def] advanced_ready [OF a1]]
    unfolding filt [of "\<lambda>s. s = 2"] filt [of "\<lambda>s. s < 2"] filt [of "\<lambda>s. 0 < s"] by blast
  have "stages_moved (set (k # ks)) m m2"
    using stages_moved_step [OF mv1 rest(3) kks] by simp
  moreover have "drain_loop P C inc (l_head (needs_process x)) x st = Some (Inr (x2, st2))"
    using head one rest(1) by (subst drain_loop.simps) simp
  moreover have "stage_at m k = stage_of c" using c by (simp add: stage_at_def)
  ultimately show ?case
    using rest fr advanced_trans [OF a1 a2] by (auto split: if_splits)
qed

lemma accept_one_answered:
  assumes ok: "manual_ok P C x m xs" and st: "ready st" and lc: "odd (fl_calls (listener x))"
  shows "\<exists>x' st' k c. accept_one P C inc x st = Inr (x', st') \<and>
    k \<notin> dom m \<and> stage_of c = 0 \<and> manual_ok P C x' (m(k \<mapsto> c)) (xs @ [k]) \<and>
    even (fl_calls (listener x')) \<and> can_accept x' = can_accept x \<and>
    accept_left x' = accept_left x - 1 \<and> advanced st (tally 1 0 0 1 0 0) st'"
proof -
  have P: "slab_ok P" and q: "queue_rep C (rm_conns x) (needs_process x) xs"
    and v: "value_at C (rm_conns x) = m"
    and its: "slab_values P (poll_items (rm_poll x)) = poll_keys (dom m)"
    and lis: "polled P (rm_poll x) (fl_poll_index (listener x)) READABLE 0"
    and cs: "\<And>j d. m j = Some d \<Longrightarrow> conn_wf d \<and> polled P (rm_poll x) (conn_index d) RW (Suc j)"
    using ok by (auto simp: manual_ok_def)
  have C: "slab_ok C" using q by (simp add: queue_rep_def)
  let ?k = "vacant_key C (rm_conns x)" and ?i = "vacant_key P (poll_items (rm_poll x))"
  let ?fresh = "connection_new fake_stream_new"
  let ?c = "?fresh\<lparr>c_stream := fake_stream_new\<lparr>fs_poll_index := Some ?i\<rparr>\<rparr>"
  let ?l = "(listener x)\<lparr>fl_calls := fl_calls (listener x) + 1\<rparr>"
  let ?s1 = "slab_insert C (rm_conns x) (node_new ?fresh)"
  let ?s2 = "im_set C ?s1 ?k ((node_new ?fresh)\<lparr>nd_value := ?c\<rparr>)"
  let ?p = "(rm_poll x)\<lparr>poll_items := slab_insert P (poll_items (rm_poll x)) (RW, ?k + 1)\<rparr>"
  have k: "?k \<notin> dom m" using task_pool.fresh_rep [OF q] v by auto
  obtain st1 where ac: "fake_listener_accept inc (listener x) st = Inr (Inr fake_stream_new, ?l, st1)"
    and r1: "reported st Accept st1"
    using accept_answers [OF st lc] by blast
  obtain st2 where rg: "poll_register P inc stream_evented (rm_poll x) fake_stream_new (?k + 1) RW st1
      = Inr (?p, fake_stream_new\<lparr>fs_poll_index := Some ?i\<rparr>, st2)" and r2: "reported st1 Register st2"
    using register_adds [OF reported_ready [OF r1], of P stream_evented "rm_poll x" fake_stream_new]
    by auto
  have g1: "im_get C ?s1 ?k = Some (node_new ?fresh)" by (simp add: slab_get_insert [OF C])
  have q1: "queue_rep C ?s1 (needs_process x) xs" "value_at C ?s1 = m(?k \<mapsto> ?fresh)"
    using queue_rep_alloc [OF q, of ?fresh] v by (simp_all add: alloc_node_def)
  have q2: "queue_rep C ?s2 (needs_process x) xs" "value_at C ?s2 = m(?k \<mapsto> ?c)"
    using queue_rep_put [OF q1(1) g1, of ?c] q1(2) by simp_all
  have "?k \<notin> set xs" using k manual_ok_keys [OF ok] by blast
  then obtain np s3 where pb: "list_push_back C (needs_process x) ?s2 ?k = Inr (np, s3)"
    and q3: "queue_rep C s3 np (xs @ [?k])" "value_at C s3 = m(?k \<mapsto> ?c)"
    using run_queue.push_back_rep [OF q2(1), of ?k ?c] q2(2) by auto
  let ?x = "x\<lparr>listener := ?l, accept_left := accept_left x - 1, rm_poll := ?p, rm_conns := s3,
    needs_process := np\<rparr>"
  have c0: "c_stream ?fresh = fake_stream_new" by (simp add: connection_new_def)
  have run: "accept_one P C inc x st = Inr (?x, st2)"
    using ac g1 rg pb c0 by (simp add: accept_one_def slab_add_def Let_def)
  have wf: "conn_wf ?c" "stage_of ?c = 0"
    by (simp_all add: conn_wf_def stage_of_def connection_new_def fake_stream_new_def
        SMALL_BUFSIZE_def)
  have "manual_ok P C ?x (m(?k \<mapsto> ?c)) (xs @ [?k])"
    unfolding manual_ok_def
  proof (intro conjI allI impI)
    show "slab_values P (poll_items (rm_poll ?x)) = poll_keys (dom (m(?k \<mapsto> ?c)))"
      using its k poll_keys_insert [OF manual_ok_finite [OF ok]]
      by (simp add: slab_values_insert [OF P])
    show "polled P (rm_poll ?x) (fl_poll_index (listener ?x)) READABLE 0"
      using polled_insert [OF P lis] by simp
    fix j d assume j: "(m(?k \<mapsto> ?c)) j = Some d"
    show "conn_wf d" using j wf cs by (auto split: if_splits)
    show "polled P (rm_poll ?x) (conn_index d) RW (Suc j)"
    proof (cases "j = ?k")
      case True
      with j polled_new [OF P, of "rm_poll x" RW "Suc ?k"] show ?thesis by auto
    next
      case False
      with j cs polled_insert [OF P] show ?thesis by auto
    qed
  qed (use P q3 in simp_all)
  moreover have "advanced st (tally 1 0 0 1 0 0) st2"
    using advanced_trans [OF reported_advanced(4) [OF r1] reported_advanced(1) [OF r2]] by simp
  ultimately show ?thesis using run k wf(2) lc by fastforce
qed

lemma accept_one_refused:
  assumes "manual_ok P C x m xs" and "ready st" and "even (fl_calls (listener x))"
  shows "\<exists>x' st'. accept_one P C inc x st = Inr (x', st') \<and> manual_ok P C x' m xs \<and>
    odd (fl_calls (listener x')) \<and> \<not> can_accept x' \<and> accept_left x' = accept_left x \<and>
    advanced st (tally 0 0 0 1 0 0) st'"
proof -
  obtain st' where "fake_listener_accept inc (listener x) st = Inr (Inl WouldBlock,
      (listener x)\<lparr>fl_calls := fl_calls (listener x) + 1\<rparr>, st')" and r: "reported st Accept st'"
    using accept_blocks [OF assms(2,3)] by blast
  then show ?thesis
    using assms reported_advanced(4) [OF r] by (auto simp: accept_one_def manual_ok_def)
qed

end

subsection \<open>Marking the connections after a poll\<close>

text \<open>
  Marking changes only the two readiness flags, which no code reads: stage, buffer and
  registration of every connection stay as they are.
\<close>

definition unready :: "connection \<Rightarrow> connection" where
  "unready c = c\<lparr>c_can_read := False, c_can_write := False\<rparr>"

definition same_but_ready :: "connection option \<Rightarrow> connection option \<Rightarrow> bool" where
  "same_but_ready c c' \<longleftrightarrow> map_option unready c' = map_option unready c"

lemma same_but_ready_refl [simp]: "same_but_ready c c"
  by (simp add: same_but_ready_def)

lemma same_but_ready_trans:
  "same_but_ready c c1 \<Longrightarrow> same_but_ready c1 c2 \<Longrightarrow> same_but_ready c c2"
  by (simp add: same_but_ready_def)

lemma stage_of_unready: "stage_of (unready c) = stage_of c"
  by (simp add: stage_of_def unready_def cong: connection_state.case_cong)

lemma same_but_ready_None: "same_but_ready c c' \<Longrightarrow> c' = None \<longleftrightarrow> c = None"
  by (metis map_option_is_None same_but_ready_def)

lemma same_but_ready_stage: "same_but_ready c c' \<Longrightarrow> stage_of (the c') = stage_of (the c)"
  by (cases c; cases c') (auto simp: same_but_ready_def dest!: arg_cong [of _ _ stage_of]
      simp: stage_of_unready)

lemma conn_wf_ready [simp]: "conn_wf (c\<lparr>c_can_read := r, c_can_write := w\<rparr>) = conn_wf c"
  by (simp add: conn_wf_def cong: connection_state.case_cong)

lemma same_but_ready_at_stage:
  assumes "\<And>k. same_but_ready (m k) (m' k)"
  shows "at_stage m' s = at_stage m s" and "dom m' = dom m"
proof -
  show "dom m' = dom m" using same_but_ready_None [OF assms] by (auto simp: dom_def)
  then show "at_stage m' s = at_stage m s"
    using same_but_ready_stage [OF assms] by (simp add: at_stage_def stage_at_def)
qed

lemma handle_event_ok:
  assumes ok: "manual_ok P C x m xs" and ev: "key = 0 \<and> s = READABLE \<or> key - 1 \<in> dom m \<and> s = RW"
  shows "\<exists>x' m' xs'. handle_event C (key, s) x = Inr x' \<and> manual_ok P C x' m' xs' \<and>
    (\<forall>k. same_but_ready (m k) (m' k)) \<and>
    set xs' = set xs \<union> (if key = 0 then {} else {key - 1}) \<and>
    (can_accept x' \<longleftrightarrow> can_accept x \<or> key = 0) \<and>
    listener x' = listener x \<and> accept_left x' = accept_left x"
proof (cases "key = 0")
  case True
  then show ?thesis
    by (intro exI [of _ "x\<lparr>can_accept := True\<rparr>"] exI [of _ m] exI [of _ xs])
      (use ok in \<open>auto simp: handle_event_def manual_ok_def\<close>)
next
  case False
  let ?k = "key - 1"
  obtain c where c: "m ?k = Some c" and s: "s = RW" using ev False by auto
  have q: "queue_rep C (rm_conns x) (needs_process x) xs" and v: "value_at C (rm_conns x) = m"
    using ok by (simp_all add: manual_ok_def)
  obtain n where n: "im_get C (rm_conns x) ?k = Some n" "nd_value n = c"
    using c by (auto simp flip: v simp: value_at_Some_iff)
  let ?c = "c\<lparr>c_can_read := True, c_can_write := True\<rparr>"
  let ?conns = "im_set C (rm_conns x) ?k (n\<lparr>nd_value := ?c\<rparr>)"
  have q1: "queue_rep C ?conns (needs_process x) xs" "value_at C ?conns = m(?k \<mapsto> ?c)"
    using queue_rep_put [OF q n(1)] v by auto
  obtain l1 s1 l2 s2 where r: "list_remove C (needs_process x) ?conns ?k = Inr (l1, s1)"
      "list_push_back C l1 s1 ?k = Inr (l2, s2)"
    and q2: "queue_rep C s2 l2 (removeAll ?k xs @ [?k])" "value_at C s2 = m(?k \<mapsto> ?c)"
    using run_queue.requeue [OF q1(1), of ?k ?c] q1(2) by auto
  have "and RW READABLE \<noteq> 0" "and RW WRITABLE \<noteq> 0"
    by (simp_all add: READABLE_def WRITABLE_def)
  then have run: "handle_event C (key, s) x = Inr (x\<lparr>rm_conns := s2, needs_process := l2\<rparr>)"
    using False n r s by (simp add: handle_event_def Let_def)
  have "same_but_ready (Some c) (Some ?c)" by (simp add: same_but_ready_def unready_def)
  then have sb: "same_but_ready (m k) ((m(?k \<mapsto> ?c)) k)" for k using c by auto
  have "manual_ok P C (x\<lparr>rm_conns := s2, needs_process := l2\<rparr>) (m(?k \<mapsto> ?c))
      (removeAll ?k xs @ [?k])"
    using ok q2 c by (auto simp: manual_ok_def insert_absorb domI)
  with run sb False show ?thesis by fastforce
qed

fun event_keys :: "(nat \<times> nat \<times> u8) list \<Rightarrow> nat set" where
  "event_keys [] = {}"
| "event_keys ((_, key, _) # evs) = insert key (event_keys evs)"

lemma event_keys_set: "event_keys evs = fst ` snd ` set evs"
  by (induction evs rule: event_keys.induct) auto

lemma handle_events_ok:
  assumes "manual_ok P C x m xs"
    and "\<forall>(i, key, s) \<in> set evs. key = 0 \<and> s = READABLE \<or> key - 1 \<in> dom m \<and> s = RW"
  shows "\<exists>x' m' xs'. handle_events C evs x = Inr x' \<and> manual_ok P C x' m' xs' \<and>
    (\<forall>k. same_but_ready (m k) (m' k)) \<and>
    set xs' = set xs \<union> {k. Suc k \<in> event_keys evs} \<and>
    (can_accept x' \<longleftrightarrow> can_accept x \<or> 0 \<in> event_keys evs) \<and>
    listener x' = listener x \<and> accept_left x' = accept_left x"
  using assms
proof (induction evs arbitrary: x m xs)
  case Nil
  then show ?case by (auto intro: same_but_ready_refl)
next
  case (Cons e evs)
  obtain i key s where e: "e = (i, key, s)" by (cases e) auto
  obtain x1 m1 xs1 where one: "handle_event C (key, s) x = Inr x1" "manual_ok P C x1 m1 xs1"
      "\<And>k. same_but_ready (m k) (m1 k)"
      "set xs1 = set xs \<union> (if key = 0 then {} else {key - 1})"
      "can_accept x1 \<longleftrightarrow> can_accept x \<or> key = 0"
      "listener x1 = listener x" "accept_left x1 = accept_left x"
    using handle_event_ok [OF Cons.prems(1), of key s] Cons.prems(2) e by auto
  have "dom m1 = dom m" by (rule same_but_ready_at_stage(2) [OF one(3)])
  with Cons.prems(2) have
    "\<forall>(i, key, s) \<in> set evs. key = 0 \<and> s = READABLE \<or> key - 1 \<in> dom m1 \<and> s = RW"
    by simp
  from Cons.IH [OF one(2) this] obtain x2 m2 xs2 where two: "handle_events C evs x1 = Inr x2" "manual_ok P C x2 m2 xs2"
      "\<And>k. same_but_ready (m1 k) (m2 k)"
      "set xs2 = set xs1 \<union> {k. Suc k \<in> event_keys evs}"
      "can_accept x2 \<longleftrightarrow> can_accept x1 \<or> 0 \<in> event_keys evs"
      "listener x2 = listener x1" "accept_left x2 = accept_left x1"
    by blast
  show ?case
  proof (intro exI conjI allI)
    show "handle_events C (e # evs) x = Inr x2" using one(1) two(1) e by simp
    show "manual_ok P C x2 m2 xs2" by (fact two(2))
    show "same_but_ready (m k) (m2 k)" for k by (rule same_but_ready_trans [OF one(3) two(3)])
    show "set xs2 = set xs \<union> {k. Suc k \<in> event_keys (e # evs)}"
      unfolding two(4) one(4) e by (cases key) auto
    show "can_accept x2 \<longleftrightarrow> can_accept x \<or> 0 \<in> event_keys (e # evs)"
      unfolding two(5) one(5) e by auto
  qed (simp_all add: one two)
qed

context stats_trait
begin

lemma poll_and_mark_ok:
  assumes ok: "manual_ok P C x m []" and V: "slab_ok V" and st: "ready st"
  shows "\<exists>x' st' m' xs'. poll_and_mark P V C inc x st = Inr (x', st') \<and>
    manual_ok P C x' m' xs' \<and> (\<forall>k. same_but_ready (m k) (m' k)) \<and> set xs' = dom m \<and>
    can_accept x' \<and> listener x' = listener x \<and> accept_left x' = accept_left x \<and>
    advanced st (tally 0 0 1 0 0 0) st'"
proof -
  have P: "slab_ok P" and its: "slab_values P (poll_items (rm_poll x)) = poll_keys (dom m)"
    using ok by (simp_all add: manual_ok_def)
  obtain events st1 where po: "poll_poll P V inc (rm_poll x) (rm_events x) st = Inr (events, st1)"
    and r: "reported st Poll st1"
    and ev: "slab_values V events =
      image_mset (\<lambda>(interest, key). (key, interest)) (slab_values P (poll_items (rm_poll x)))"
    using poll_reports [OF st P V] by blast
  have "set_mset (slab_values V events) = insert (0, READABLE) ((\<lambda>k. (Suc k, RW)) ` dom m)"
    unfolding ev its by (simp add: poll_keys_def manual_ok_finite [OF ok] image_image)
  then have vals: "snd ` set (slab_iter V events) = insert (0, READABLE) ((\<lambda>k. (Suc k, RW)) ` dom m)"
    by (simp add: slab_values_def)
  let ?x = "x\<lparr>rm_events := events\<rparr>"
  have ok1: "manual_ok P C ?x m []" using ok by (simp add: manual_ok_def)
  have "snd e = (0, READABLE) \<or> (\<exists>k \<in> dom m. snd e = (Suc k, RW))"
    if "e \<in> set (slab_iter V events)" for e
    using that vals by (metis (mono_tags, lifting) image_iff insertE imageI)
  then have "\<forall>(i, key, s) \<in> set (slab_iter V events).
      key = 0 \<and> s = READABLE \<or> key - 1 \<in> dom m \<and> s = RW"
    by fastforce
  from handle_events_ok [OF ok1 this] obtain x' m' xs'
    where h: "handle_events C (slab_iter V events) ?x = Inr x'" "manual_ok P C x' m' xs'"
      "\<forall>k. same_but_ready (m k) (m' k)"
      "set xs' = {k. Suc k \<in> event_keys (slab_iter V events)}"
      "can_accept x' \<longleftrightarrow> can_accept x \<or> 0 \<in> event_keys (slab_iter V events)"
      "listener x' = listener x" "accept_left x' = accept_left x"
    by fastforce
  have "poll_and_mark P V C inc x st = Inr (x', st1)" using po h(1) by (simp add: poll_and_mark_def)
  moreover have "set xs' = dom m" "can_accept x'" using h(4,5) vals
    by (auto simp: event_keys_set image_image)
  ultimately show ?thesis using h(2,3,6,7) reported_advanced(3) [OF r] by blast
qed

text \<open>Accepting: one connection when the listener answers, then it refuses the next call.\<close>

lemma accept_loop_stop:
  "\<not> (0 < accept_left x \<and> can_accept x) \<Longrightarrow> accept_loop P C inc x st = Inr (x, st)"
  by (subst accept_loop.simps) (rule if_not_P)

lemma accept_loop_refused:
  assumes ok: "manual_ok P C x m xs" and st: "ready st" and lc: "even (fl_calls (listener x))"
    and left: "0 < accept_left x" and can: "can_accept x"
  shows "\<exists>x' st'. accept_loop P C inc x st = Inr (x', st') \<and> manual_ok P C x' m xs \<and>
    odd (fl_calls (listener x')) \<and> accept_left x' = accept_left x \<and>
    advanced st (tally 0 0 0 1 0 0) st'"
proof -
  obtain x1 st1 where "accept_one P C inc x st = Inr (x1, st1)" "manual_ok P C x1 m xs"
    "odd (fl_calls (listener x1))" "\<not> can_accept x1" "accept_left x1 = accept_left x"
    "advanced st (tally 0 0 0 1 0 0) st1"
    using accept_one_refused [OF ok st lc] by blast
  then show ?thesis
    using left can by (subst accept_loop.simps) (simp add: accept_loop_stop)
qed

lemma accept_loop_answered:
  assumes ok: "manual_ok P C x m xs" and st: "ready st" and lc: "odd (fl_calls (listener x))"
    and left: "0 < accept_left x" and can: "can_accept x"
  shows "\<exists>x' st' k c. accept_loop P C inc x st = Inr (x', st') \<and>
    k \<notin> dom m \<and> stage_of c = 0 \<and> manual_ok P C x' (m(k \<mapsto> c)) (xs @ [k]) \<and>
    (1 < accept_left x \<longrightarrow> odd (fl_calls (listener x'))) \<and>
    accept_left x' = accept_left x - 1 \<and>
    advanced st (tally 1 0 0 (if accept_left x = 1 then 1 else 2) 0 0) st'"
proof -
  obtain x1 st1 k c where one: "accept_one P C inc x st = Inr (x1, st1)" "k \<notin> dom m"
      "stage_of c = 0" "manual_ok P C x1 (m(k \<mapsto> c)) (xs @ [k])"
      "even (fl_calls (listener x1))" "can_accept x1" "accept_left x1 = accept_left x - 1"
    and a1: "advanced st (tally 1 0 0 1 0 0) st1"
    using accept_one_answered [OF ok st lc] can by blast
  have unfold: "accept_loop P C inc x st = accept_loop P C inc x1 st1"
    using left can one(1) by (subst accept_loop.simps) simp
  show ?thesis
  proof (cases "accept_left x = 1")
    case True
    then show ?thesis using unfold one a1 by (fastforce simp: accept_loop_stop)
  next
    case False
    then have "0 < accept_left x1" using one(7) left by simp
    from accept_loop_refused [OF one(4) advanced_ready [OF a1] one(5) this one(6)]
    obtain x2 st2 where "accept_loop P C inc x1 st1 = Inr (x2, st2)"
      "manual_ok P C x2 (m(k \<mapsto> c)) (xs @ [k])" "odd (fl_calls (listener x2))"
      "accept_left x2 = accept_left x1" and a2: "advanced st1 (tally 0 0 0 1 0 0) st2"
      by blast
    then show ?thesis
      using unfold one advanced_trans [OF a1 a2] False by (fastforce simp: numeral_2_eq_2)
  qed
qed

subsection \<open>The whole loop\<close>

text \<open>
  \<open>loop_top\<close>: the state when a turn of the main loop begins, all connections queued. With \<open>a\<close>
  connections left to accept, \<open>b\<close> connections at stage 1 and \<open>c\<close> at stage 2 the numbers of
  calls the rest of the run makes are those of \<open>remaining\<close>.
\<close>

definition loop_top ::
  "('p, u8 \<times> nat) slab_ops \<Rightarrow> ('c, connection node) slab_ops \<Rightarrow>
     ('p, 'e, 'c) manual_locals \<Rightarrow> (nat \<Rightarrow> connection option) \<Rightarrow> bool" where
  "loop_top P C x m \<longleftrightarrow>
     (\<exists>xs. manual_ok P C x m xs \<and> set xs = dom m) \<and> at_stage m 0 = {} \<and> can_accept x \<and>
     (0 < accept_left x \<longrightarrow> odd (fl_calls (listener x)))"

definition remaining :: "nat \<Rightarrow> nat \<Rightarrow> nat \<Rightarrow> stats_type \<Rightarrow> nat" where
  "remaining a b c =
     tally a (a + b + c) (if 0 < a then a + 1 else if 0 < b then 1 else 0) (2 * a - 1)
       (2 * a + b) (2 * a + 2 * b + c)"

lemma card_stages:
  assumes "finite (dom m)"
  shows "card {k \<in> dom m. stage_at m k = 2} = card (at_stage m 2)"
    and "card {k \<in> dom m. stage_at m k < 2} = card (at_stage m 0) + card (at_stage m 1)"
    and "card {k \<in> dom m. 0 < stage_at m k} = card (at_stage m 1) + card (at_stage m 2)"
proof -
  have fin: "finite (at_stage m s)" for s using assms by (simp add: at_stage_def)
  have "{k \<in> dom m. stage_at m k < 2} = at_stage m 0 \<union> at_stage m 1"
    by (auto simp: at_stage_def)
  moreover have "at_stage m 0 \<inter> at_stage m 1 = {}" by (auto simp: at_stage_def)
  ultimately show "card {k \<in> dom m. stage_at m k < 2} = card (at_stage m 0) + card (at_stage m 1)"
    by (simp add: card_Un_disjoint fin)
  have "0 < stage_at m k \<longleftrightarrow> stage_at m k = 1 \<or> stage_at m k = 2" for k
    using stage_of_less [of "the (m k)"] by (auto simp: stage_at_def)
  then have "{k \<in> dom m. 0 < stage_at m k} = at_stage m 1 \<union> at_stage m 2"
    by (auto simp: at_stage_def)
  moreover have "at_stage m 1 \<inter> at_stage m 2 = {}" by (auto simp: at_stage_def)
  ultimately show "card {k \<in> dom m. 0 < stage_at m k} = card (at_stage m 1) + card (at_stage m 2)"
    by (simp add: card_Un_disjoint fin)
  show "card {k \<in> dom m. stage_at m k = 2} = card (at_stage m 2)" by (simp add: at_stage_def)
qed

lemma drain_all_ok:
  assumes ok: "manual_ok P C x m xs" and st: "ready st" and all: "set xs = dom m"
  shows "\<exists>x' st' m'.
    drain_loop P C inc (l_head (needs_process x)) x st = Some (Inr (x', st')) \<and>
    manual_ok P C x' m' [] \<and> stages_moved (dom m) m m' \<and>
    listener x' = listener x \<and> can_accept x' = can_accept x \<and> accept_left x' = accept_left x \<and>
    advanced st (tally 0 (card (at_stage m 2)) 0 0 (card (at_stage m 0) + card (at_stage m 1))
      (card (at_stage m 1) + card (at_stage m 2))) st'"
  using drain_loop_ok [OF ok st]
  unfolding filter_stage [OF manual_ok_distinct [OF ok] all, of "\<lambda>s. s = 2"]
    filter_stage [OF manual_ok_distinct [OF ok] all, of "\<lambda>s. s < 2"]
    filter_stage [OF manual_ok_distinct [OF ok] all, of "\<lambda>s. 0 < s"]
    card_stages [OF manual_ok_finite [OF ok]] all by blast

text \<open>The accept phase of a turn: at most one connection joins, at stage 0.\<close>

lemma accept_phase:
  assumes top: "loop_top P C x m" and st: "ready st"
  shows "\<exists>x' st' m' xs. accept_loop P C inc x st = Inr (x', st') \<and> manual_ok P C x' m' xs \<and>
    set xs = dom m' \<and> at_stage m' 1 = at_stage m 1 \<and> at_stage m' 2 = at_stage m 2 \<and>
    card (at_stage m' 0) = (if 0 < accept_left x then 1 else 0) \<and>
    accept_left x' = accept_left x - 1 \<and>
    (1 < accept_left x \<longrightarrow> odd (fl_calls (listener x'))) \<and>
    advanced st (tally (if 0 < accept_left x then 1 else 0) 0 0
      (if accept_left x = 0 then 0 else if accept_left x = 1 then 1 else 2) 0 0) st'"
proof -
  obtain xs where ok: "manual_ok P C x m xs" and xs: "set xs = dom m"
    and m0: "at_stage m 0 = {}" and can: "can_accept x"
    and lc: "0 < accept_left x \<Longrightarrow> odd (fl_calls (listener x))"
    using top by (auto simp: loop_top_def)
  show ?thesis
  proof (cases "0 < accept_left x")
    case False
    then show ?thesis using ok xs m0 advanced_refl [OF st] by (fastforce simp: accept_loop_stop)
  next
    case True
    from accept_loop_answered [OF ok st lc [OF True] True can] obtain x' st' k c
      where a: "accept_loop P C inc x st = Inr (x', st')" "k \<notin> dom m" "stage_of c = 0"
        "manual_ok P C x' (m(k \<mapsto> c)) (xs @ [k])" "1 < accept_left x \<longrightarrow> odd (fl_calls (listener x'))"
        "accept_left x' = accept_left x - 1"
        "advanced st (tally 1 0 0 (if accept_left x = 1 then 1 else 2) 0 0) st'"
      by blast
    have same: "at_stage (m(k \<mapsto> c)) s = (if s = 0 then insert k (at_stage m 0) else at_stage m s)"
      for s using a(2,3) by (auto simp: at_stage_def stage_at_def)
    have "set (xs @ [k]) = dom (m(k \<mapsto> c))" using xs by simp
    moreover have "card (at_stage (m(k \<mapsto> c)) 0) = 1" by (simp add: same m0)
    ultimately show ?thesis
      using a True by (intro exI [of _ x'] exI [of _ st'] exI [of _ "m(k \<mapsto> c)"] exI [of _ "xs @ [k]"])
        (auto simp: same)
  qed
qed

lemma manual_loop_top:
  assumes "loop_top P C x m" and "slab_ok V" and "ready st"
  shows "\<exists>x' st'. manual_loop P V C inc x st = Some (Inr (x', st')) \<and>
    manual_ok P C x' Map.empty [] \<and>
    advanced st (remaining (accept_left x) (card (at_stage m 1)) (card (at_stage m 2))) st'"
  using assms
proof (induction "3 * accept_left x + 2 * card (at_stage m 1) + card (at_stage m 2)"
    arbitrary: x m st rule: less_induct)
  case less
  let ?a = "accept_left x" and ?b = "card (at_stage m 1)" and ?c = "card (at_stage m 2)"
  obtain x1 st1 m1 xs1 where acc: "accept_loop P C inc x st = Inr (x1, st1)"
    and ok1: "manual_ok P C x1 m1 xs1" and xs1: "set xs1 = dom m1"
    and s1: "at_stage m1 1 = at_stage m 1" "at_stage m1 2 = at_stage m 2"
      "card (at_stage m1 0) = (if 0 < ?a then 1 else 0)"
    and left1: "accept_left x1 = ?a - 1"
    and lc1: "1 < ?a \<longrightarrow> odd (fl_calls (listener x1))"
    and a1: "advanced st (tally (if 0 < ?a then 1 else 0) 0 0
      (if ?a = 0 then 0 else if ?a = 1 then 1 else 2) 0 0) st1"
    using accept_phase [OF less.prems(1,3)] by blast
  obtain x2 st2 m2 where dr:
      "drain_loop P C inc (l_head (needs_process x1)) x1 st1 = Some (Inr (x2, st2))"
    and ok2: "manual_ok P C x2 m2 []" and mv: "stages_moved (dom m1) m1 m2"
    and fr: "listener x2 = listener x1" "accept_left x2 = accept_left x1"
    and a2: "advanced st1 (tally 0 ?c 0 0 ((if 0 < ?a then 1 else 0) + ?b) (?b + ?c)) st2"
    using drain_all_ok [OF ok1 advanced_ready [OF a1] xs1] unfolding s1 by blast
  note s2 = at_stage_moved [OF mv]
  have fin: "finite (at_stage m1 s)" for s
    using manual_ok_finite [OF ok1] by (simp add: at_stage_def)
  have "queue_rep C (rm_conns x2) (needs_process x2) []" "value_at C (rm_conns x2) = m2"
    using ok2 by (simp_all add: manual_ok_def)
  from task_pool.used_empty [OF this(1)] this(2)
  have len: "slab_len C (rm_conns x2) = 0 \<longleftrightarrow> dom m2 = {}" by auto
  have dom2: "dom m2 = {} \<longleftrightarrow> ?a = 0 \<and> ?b = 0"
  proof -
    have "dom m2 = {} \<longleftrightarrow> card (at_stage m1 0) = 0 \<and> card (at_stage m1 1) = 0"
      unfolding s2(4) by (simp add: fin)
    then show ?thesis using s1 by simp
  qed
  have acc2: "advanced st (tally (if 0 < ?a then 1 else 0) ?c 0
      (if ?a = 0 then 0 else if ?a = 1 then 1 else 2)
      ((if 0 < ?a then 1 else 0) + ?b) (?b + ?c)) st2"
    using advanced_trans [OF a1 a2] by simp
  show ?case
  proof (cases "?a = 0 \<and> ?b = 0")
    case True
    then have "m2 = Map.empty" using dom2 by simp
    moreover have "manual_loop P V C inc x st = Some (Inr (x2, st2))"
      using acc dr True left1 fr len dom2 by (subst manual_loop.simps) simp
    moreover have "remaining ?a ?b ?c = tally 0 ?c 0 0 0 ?c"
      using True by (simp add: remaining_def)
    ultimately show ?thesis using ok2 acc2 True by auto
  next
    case False
    then have "dom m2 \<noteq> {}" using dom2 by blast
    obtain x3 st3 m3 xs3 where mk: "poll_and_mark P V C inc x2 st2 = Inr (x3, st3)"
      and ok3: "manual_ok P C x3 m3 xs3" and sb: "\<And>k. same_but_ready (m2 k) (m3 k)"
      and xs3: "set xs3 = dom m2" and can3: "can_accept x3"
      and fr3: "listener x3 = listener x2" "accept_left x3 = accept_left x2"
      and a3: "advanced st2 (tally 0 0 1 0 0 0) st3"
      using poll_and_mark_ok [OF ok2 less.prems(2) advanced_ready [OF a2]] by blast
    note s3 = same_but_ready_at_stage [OF sb]
    have left3: "accept_left x3 = ?a - 1" using fr3 fr left1 by simp
    have b3: "card (at_stage m3 1) = (if 0 < ?a then 1 else 0)" "card (at_stage m3 2) = ?b"
      using s3(1) s2(2,3) s1 by auto
    have top3: "loop_top P C x3 m3"
      unfolding loop_top_def
    proof (intro conjI impI exI)
      show "manual_ok P C x3 m3 xs3" by (fact ok3)
      show "set xs3 = dom m3" using xs3 s3(2) by simp
      show "at_stage m3 0 = {}" using s3(1) s2(1) by simp
      show "can_accept x3" by (fact can3)
      show "odd (fl_calls (listener x3))" if "0 < accept_left x3"
        using that left3 lc1 fr fr3 by simp
    qed
    have "3 * accept_left x3 + 2 * card (at_stage m3 1) + card (at_stage m3 2) < 3 * ?a + 2 * ?b + ?c"
      using left3 b3 False by auto
    from less.hyps [OF this top3 less.prems(2) advanced_ready [OF a3]] obtain x4 st4
      where fin4: "manual_loop P V C inc x3 st3 = Some (Inr (x4, st4))"
        "manual_ok P C x4 Map.empty []"
      and a4: "advanced st3 (remaining (?a - 1) (if 0 < ?a then 1 else 0) ?b) st4"
      unfolding left3 b3 by blast
    have "manual_loop P V C inc x st = Some (Inr (x4, st4))"
      using acc dr mk fin4(1) False left1 fr len dom2 by (subst manual_loop.simps) auto
    moreover have "advanced st (remaining ?a ?b ?c) st4"
      unfolding remaining_def
      by (rule advanced_eq [OF advanced_trans [OF advanced_trans [OF acc2 a3]
          a4 [unfolded remaining_def]]]) (use False in auto)
    ultimately show ?thesis using fin4(2) by blast
  qed
qed

end

subsection \<open>Running the server, once and again\<close>

text \<open>
  Between runs no connection is stored, nothing is registered with the poller and the events
  of the last poll are left over, which the next poll clears.
\<close>

definition manual_clean ::
  "('p, u8 \<times> nat) slab_ops \<Rightarrow> ('c, connection node) slab_ops \<Rightarrow> ('p, 'e, 'c) manual_self \<Rightarrow> bool" where
  "manual_clean P C r \<longleftrightarrow>
     slab_ok P \<and> queue_rep C (rm_conns r) list_default [] \<and>
     value_at C (rm_conns r) = Map.empty \<and> slab_values P (poll_items (rm_poll r)) = {#}"

lemma manual_clean_new:
  "slab_ok P \<Longrightarrow> slab_ok C \<Longrightarrow> manual_clean P C (run_manual_new P V C)"
  by (auto simp: manual_clean_def run_manual_new_def poll_new_def slab_values_new queue_rep_def
      is_dlist_def list_default_def slab_new value_at_def)

lemma queue_rep_Nil: "queue_rep S s l [] \<Longrightarrow> l = list_default"
  by (simp add: queue_rep_def is_dlist_def list_default_def)

lemma poll_drop_clean: "manual_clean P C r \<Longrightarrow> poll_drop P (rm_poll r) = Inr ()"
proof -
  assume c: "manual_clean P C r"
  then have "im_get P (poll_items (rm_poll r)) k = None" for k
    using slab_values_mem [of P _ "poll_items (rm_poll r)"]
    by (metis manual_clean_def not_None_eq empty_iff set_mset_empty)
  then have "im_get P (poll_items (rm_poll r)) = (\<lambda>_. None)" by blast
  then show ?thesis using c by (simp add: poll_drop_def manual_clean_def slab_empty_iff)
qed

context stats_trait
begin

lemma manual_run_ok:
  assumes clean: "manual_clean P C r" and V: "slab_ok V" and st: "ready st"
  shows "\<exists>r' st'. run_manual_run P V C inc r st = Some (Inr (r', st')) \<and>
    manual_clean P C r' \<and> advanced st (tally 257 257 258 512 512 512) st'"
proof -
  have P: "slab_ok P" and q: "queue_rep C (rm_conns r) list_default []"
    and v: "value_at C (rm_conns r) = Map.empty"
    and its: "slab_values P (poll_items (rm_poll r)) = {#}"
    using clean by (simp_all add: manual_clean_def)
  let ?i = "vacant_key P (poll_items (rm_poll r))"
  let ?p = "(rm_poll r)\<lparr>poll_items := slab_insert P (poll_items (rm_poll r)) (READABLE, 0)\<rparr>"
  let ?l = "fake_listener_new\<lparr>fl_poll_index := Some ?i\<rparr>"
  let ?x = "\<lparr>rm_poll = ?p, rm_events = rm_events r, rm_conns = rm_conns r,
    needs_process = list_default, listener = ?l, can_accept = True, accept_left = CONNS_MAX\<rparr>"
  obtain st1 where rg: "poll_register P inc listener_evented (rm_poll r) fake_listener_new 0
      READABLE st = Inr (?p, ?l, st1)" and r1: "reported st Register st1"
    using register_adds [OF st, of P listener_evented "rm_poll r" fake_listener_new] by auto
  have ok: "manual_ok P C ?x Map.empty []"
    using P q v its polled_new [OF P, of "rm_poll r" READABLE 0]
    by (simp add: manual_ok_def poll_keys_def slab_values_insert [OF P])
  have "even (fl_calls (listener ?x))" by (simp add: fake_listener_new_def)
  from accept_loop_refused [OF ok reported_ready [OF r1] this] obtain x2 st2
    where acc: "accept_loop P C inc ?x st1 = Inr (x2, st2)"
    and ok2: "manual_ok P C x2 Map.empty []" and lc2: "odd (fl_calls (listener x2))"
    and left2: "accept_left x2 = CONNS_MAX" and a2: "advanced st1 (tally 0 0 0 1 0 0) st2"
    by (auto simp: CONNS_MAX_def)
  have "l_head (needs_process x2) = None"
    using ok2 queue_rep_Nil by (fastforce simp: manual_ok_def list_default_def)
  then have dr: "drain_loop P C inc (l_head (needs_process x2)) x2 st2 = Some (Inr (x2, st2))"
    by (simp add: drain_loop.simps)
  obtain x3 st3 m3 xs3 where mk: "poll_and_mark P V C inc x2 st2 = Inr (x3, st3)"
    and ok3: "manual_ok P C x3 m3 xs3" and sb: "\<And>k. same_but_ready (Map.empty k) (m3 k)"
    and xs3: "set xs3 = {}" and x3: "can_accept x3" "listener x3 = listener x2"
      "accept_left x3 = accept_left x2" and a3: "advanced st2 (tally 0 0 1 0 0 0) st3"
    using poll_and_mark_ok [OF ok2 V advanced_ready [OF a2]] by auto
  have stages: "at_stage m3 s = {}" for s
    using same_but_ready_at_stage(1) [OF sb] by (simp add: at_stage_def)
  have "loop_top P C x3 m3"
    using ok3 xs3 x3 lc2 stages same_but_ready_at_stage(2) [OF sb] by (auto simp: loop_top_def)
  from manual_loop_top [OF this V advanced_ready [OF a3]] obtain x4 st4
    where lp: "manual_loop P V C inc x3 st3 = Some (Inr (x4, st4))"
    and ok4: "manual_ok P C x4 Map.empty []" and a4: "advanced st3 (remaining CONNS_MAX 0 0) st4"
    using x3(3) left2 by (auto simp: stages)
  have loop: "manual_loop P V C inc ?x st1 = Some (Inr (x4, st4))"
    using acc dr mk lp left2 by (subst manual_loop.simps) (simp add: CONNS_MAX_def)
  obtain j where j: "fl_poll_index (listener x4) = Some j"
      "im_get P (poll_items (rm_poll x4)) j = Some (READABLE, 0)"
    using ok4 by (auto simp: manual_ok_def polled_def)
  obtain l5 st5 where un: "poll_unregister P inc listener_evented (rm_poll x4) (listener x4) st4 =
      Inr ((rm_poll x4)\<lparr>poll_items := slab_remove P (poll_items (rm_poll x4)) j\<rparr>, l5, st5)"
    and r5: "reported st4 Unregister st5"
    using unregister_removes [OF advanced_ready [OF a4], of listener_evented "listener x4" j P
        "rm_poll x4"] j by auto
  let ?r = "\<lparr>rm_poll = (rm_poll x4)\<lparr>poll_items := slab_remove P (poll_items (rm_poll x4)) j\<rparr>,
    rm_events = rm_events x4, rm_conns = rm_conns x4\<rparr>"
  have "run_manual_run P V C inc r st = Some (Inr (?r, st5))"
    using rg loop un by (simp add: run_manual_run_def)
  moreover have "manual_clean P C ?r"
    using ok4 queue_rep_Nil slab_values_remove [OF P j(2)]
    by (fastforce simp: manual_clean_def manual_ok_def poll_keys_def)
  moreover have "advanced st (tally 257 257 258 512 512 512) st5"
    using advanced_trans [OF advanced_trans [OF advanced_trans [OF advanced_trans
        [OF reported_advanced(1) [OF r1] a2] a3] a4 [unfolded remaining_def]]
        reported_advanced(2) [OF r5]]
    by (simp add: CONNS_MAX_def)
  ultimately show ?thesis by blast
qed

lemma manual_runs_ok:
  assumes "manual_clean P C r" and V: "slab_ok V" and "ready st"
  shows "\<exists>r' st'.
    call_times n (\<lambda>(r, st). run_manual_run P V C inc r st) (r, st) = Some (Inr (r', st')) \<and>
    manual_clean P C r' \<and>
    advanced st (tally (n * 257) (n * 257) (n * 258) (n * 512) (n * 512) (n * 512)) st'"
  using assms(1,3)
proof (induction n arbitrary: r st)
  case 0
  then show ?case using advanced_refl by simp
next
  case (Suc n)
  obtain r1 st1 where one: "run_manual_run P V C inc r st = Some (Inr (r1, st1))"
      "manual_clean P C r1" and a1: "advanced st (tally 257 257 258 512 512 512) st1"
    using manual_run_ok [OF Suc.prems(1) V Suc.prems(2)] by blast
  obtain r2 st2 where "call_times n (\<lambda>(r, st). run_manual_run P V C inc r st) (r1, st1) =
      Some (Inr (r2, st2))" "manual_clean P C r2"
    and a2: "advanced st1 (tally (n * 257) (n * 257) (n * 258) (n * 512) (n * 512) (n * 512)) st2"
    using Suc.IH [OF one(2) advanced_ready [OF a1]] by blast
  with one advanced_trans [OF a1 a2] show ?case by simp
qed

end

subsection \<open>The program's run\<close>

text \<open>The calls of \<open>n\<close> runs, as the metrics count them.\<close>

definition expected_stats :: "nat \<Rightarrow> stats_metrics" where
  "expected_stats n =
     \<lparr>m_register = of_nat (n * 257), m_unregister = of_nat (n * 257), m_poll = of_nat (n * 258),
      m_accept = of_nat (n * 512), m_read = of_nat (n * 512), m_write = of_nat (n * 512)\<rparr>"

lemma expected_stats_of_count:
  assumes "stats_count st = (\<lambda>_. 0)"
    and "run_stats.advanced L good st
      (tally (n * 257) (n * 257) (n * 258) (n * 512) (n * 512) (n * 512)) (d, w)"
  shows "stats_get d = expected_stats n"
proof -
  have "stats_count (d, w) t =
      of_nat (tally (n * 257) (n * 257) (n * 258) (n * 512) (n * 512) (n * 512) t)" for t
    using assms(1) run_stats.advanced_count [OF assms(2), of t] by simp
  then have "metrics_count (metrics d) t =
      of_nat (tally (n * 257) (n * 257) (n * 258) (n * 512) (n * 512) (n * 512) t)" for t
    by (simp add: stats_count_def)
  from metrics_of_count [OF this] show ?thesis
    by (simp add: expected_stats_def stats_get_def)
qed

text \<open>
  What a run function does as a whole, whichever server it runs: the counters are made, the calls
  are read from the pipe, if there is one, \<open>n\<close> times the 2308 of a run, and the pipe is closed.
\<close>

definition expected_run :: "'w libc \<Rightarrow> bool \<Rightarrow> nat \<Rightarrow> 'w \<Rightarrow> (stats_metrics \<times> 'w) run" where
  "expected_run L syscalls n w = Some
     (and_then (stats_data_new L syscalls w) (\<lambda>(d, w).
      and_then (stats_data_drop L d (pipe_reads L d (n * 2308) w)) (\<lambda>w. Inr (expected_stats n, w))))"

lemma expected_run_returns:
  assumes "syscalls \<Longrightarrow> libc_ok L good" and "syscalls \<Longrightarrow> fst (libc_pipe L w) = 0"
  shows "\<exists>w'. expected_run L syscalls n w = Some (Inr (expected_stats n, w'))"
proof -
  obtain d w1 where new: "stats_data_new L syscalls w = Inr (d, w1)"
    using stats_new_created [OF assms] by blast
  have "stats_ready L good (d, pipe_reads L d m w1)" for m
  proof (induction m)
    case 0
    with stats_new_ready [OF new assms(1)] show ?case by (simp add: pipe_reads_def split: option.splits)
  next
    case (Suc m)
    then show ?case
      by (auto simp: stats_ready_def pipe_reads_def libc_ok_def split: option.splits) (metis snd_conv)
  qed
  from stats_drop_ready [OF this, of "n * 2308"] new show ?thesis by (auto simp: expected_run_def)
qed

text \<open>The end of a run function: the counts, the pipe that is closed and the state of the system.\<close>

lemma expected_run_ends:
  assumes new: "stats_data_new L syscalls w = Inr (d1, w1)" and L: "syscalls \<Longrightarrow> libc_ok L good"
    and a: "run_stats.advanced L good (d1, w1)
      (tally (n * 257) (n * 257) (n * 258) (n * 512) (n * 512) (n * 512)) (d2, w2)"
  shows "expected_run L syscalls n w =
    run_then (Some (stats_data_drop L d2 w2)) (\<lambda>w. Some (Inr (stats_get d2, w)))"
proof -
  obtain ts where ts: "inc_all (stats_inc L) ts (d1, w1) = Inr (d2, w2)"
    "count_list ts = tally (n * 257) (n * 257) (n * 258) (n * 512) (n * 512) (n * 512)"
    using run_stats.advanced_calls [OF a] by blast
  have "length ts = n * 2308" by (simp add: length_by_type ts(2))
  with inc_all_reads [OF ts(1)] have "stats_data_drop L d2 w2 = stats_data_drop L d1 (pipe_reads L d1 (n * 2308) w1)"
    using stats_drop_cong [of d2 d1 L w2] by simp
  moreover have "stats_get d2 = expected_stats n"
    using expected_stats_of_count [OF _ a] stats_new_ready [OF new L] by blast
  ultimately show ?thesis
    by (cases "stats_data_drop L d1 (pipe_reads L d1 (n * 2308) w1)") (simp_all add: expected_run_def new)
qed

lemma run_manual_expected:
  assumes P: "slab_ok P" and V: "slab_ok V" and C: "slab_ok C" and L: "syscalls \<Longrightarrow> libc_ok L good"
  shows "run_manual P V C L syscalls n w = expected_run L syscalls n w"
proof (cases "stats_data_new L syscalls w")
  case (Inl e)
  then show ?thesis by (simp add: run_manual_def expected_run_def)
next
  case (Inr st)
  obtain d1 w1 where new: "stats_data_new L syscalls w = Inr (d1, w1)" using Inr by (cases st) simp
  from stats_new_ready [OF new L] have r: "stats_ready L good (d1, w1)" by blast
  obtain r' d2 w2 where runs: "call_times n (\<lambda>(r, st). run_manual_run P V C (stats_inc L) r st)
      (run_manual_new P V C, (d1, w1)) = Some (Inr (r', (d2, w2)))"
    and clean: "manual_clean P C r'"
    and a: "run_stats.advanced L good (d1, w1)
      (tally (n * 257) (n * 257) (n * 258) (n * 512) (n * 512) (n * 512)) (d2, w2)"
    using run_stats.manual_runs_ok [OF manual_clean_new [OF P C, of V] V r, of n] by auto
  show ?thesis
    using runs poll_drop_clean [OF clean] expected_run_ends [OF new L a]
    by (simp add: run_manual_def new Let_def)
qed

lemma run_manual_returns:
  assumes "slab_ok P" and "slab_ok V" and "slab_ok C"
    and "syscalls \<Longrightarrow> libc_ok L good" and "syscalls \<Longrightarrow> fst (libc_pipe L w) = 0"
  shows "\<exists>w'. run_manual P V C L syscalls n w = Some (Inr (expected_stats n, w'))"
  using expected_run_returns [OF assms(4,5), where n = n]
  by (simp add: run_manual_expected [where good = good, OF assms(1-4)])

text \<open>
  C1. \<open>run_manual\<close>, called with a closure that runs the server \<open>n\<close> times, returns and does not
  panic, with syscalls or without, and its metrics are \<open>n\<close> times 257 registrations and
  unregistrations, 258 polls and 512 accepts, reads and writes: the counts the tests expect.
\<close>

theorem run_manual_counts:
  assumes "slab_ok P" and "slab_ok V" and "slab_ok C"
    and "syscalls \<Longrightarrow> libc_ok L good" and "syscalls \<Longrightarrow> fst (libc_pipe L w) = 0"
  shows "\<exists>w'. run_manual P V C L syscalls n w = Some (Inr
    (\<lparr>m_register = of_nat (n * 257), m_unregister = of_nat (n * 257), m_poll = of_nat (n * 258),
      m_accept = of_nat (n * 512), m_read = of_nat (n * 512), m_write = of_nat (n * 512)\<rparr>, w'))"
  using run_manual_returns [OF assms, where n = n] by (simp only: expected_stats_def)

theorem run_manual_counts_witness:
  "\<exists>w'. run_manual vec_slab vec_slab vec_slab empty_pipe True 2 0 = Some (Inr
    (\<lparr>m_register = 514, m_unregister = 514, m_poll = 516, m_accept = 1024, m_read = 1024,
      m_write = 1024\<rparr>, w'))"
  using run_manual_counts [OF vec_slab_ok vec_slab_ok vec_slab_ok, of True empty_pipe "\<lambda>_ _. True" 0 2]
  by simp

text \<open>The line the program prints for the manual server is the one its README shows.\<close>

lemma expected_line:
  "stats_metrics_fmt (expected_stats 1) =
    ''register=257 unregister=257 poll=258 accept=512 read=512 write=512''"
  by (simp add: expected_stats_def stats_metrics_fmt_def decimal.simps char_of_def bit_0)

lemma run_manual_prints:
  assumes "slab_ok P" and "slab_ok V" and "slab_ok C"
    and "libc_ok L good" and "fst (libc_pipe L w) = 0"
  shows "\<exists>m w'. run_manual P V C L True 1 w = Some (Inr (m, w')) \<and> stats_metrics_fmt m =
    ''register=257 unregister=257 poll=258 accept=512 read=512 write=512''"
  using run_manual_returns [OF assms(1-3), of True L good w 1] assms(4,5) expected_line by blast

text \<open>
  C7. One run of the server from a clean state (no connections, nothing registered) returns,
  leaves the state clean again and makes exactly the calls of 256 connections.
\<close>

theorem run_manual_run_clean:
  assumes "manual_clean P C r" and "slab_ok V" and "stats_ready L good st"
  shows "\<exists>r' st'. run_manual_run P V C (stats_inc L) r st = Some (Inr (r', st')) \<and>
    manual_clean P C r' \<and> stats_ready L good st' \<and>
    (\<forall>t. stats_count st' t = stats_count st t + of_nat (tally 257 257 258 512 512 512 t))"
  using run_stats.manual_run_ok [OF assms] run_stats.advanced_ready run_stats.advanced_count by blast

definition no_calls :: stats_data where
  "no_calls = \<lparr>metrics = \<lparr>m_register = 0, m_unregister = 0, m_poll = 0, m_accept = 0, m_read = 0,
     m_write = 0\<rparr>, pipe_fds = Some (3, 4)\<rparr>"

lemma no_calls_ready [simp]: "stats_ready empty_pipe (\<lambda>_ _. True) (no_calls, w)"
  by (simp add: stats_ready_def no_calls_def)

theorem run_manual_run_clean_witness:
  "\<exists>r' st'. run_manual_run vec_slab vec_slab vec_slab (stats_inc empty_pipe)
      (run_manual_new vec_slab (vec_slab :: ((nat \<times> u8) vslab, nat \<times> u8) slab_ops) vec_slab)
      (no_calls, 0) = Some (Inr (r', st')) \<and> stats_count st' Accept = 512"
proof -
  have "stats_count (no_calls, 0 :: nat) Accept = 0" by (simp add: stats_count_def no_calls_def)
  moreover have "manual_clean vec_slab vec_slab (run_manual_new vec_slab
      (vec_slab :: ((nat \<times> u8) vslab, nat \<times> u8) slab_ops) vec_slab)"
    by (rule manual_clean_new) simp_all
  from run_manual_run_clean [OF this vec_slab_ok no_calls_ready [of 0]] obtain r' st'
    where "run_manual_run vec_slab vec_slab vec_slab (stats_inc empty_pipe)
      (run_manual_new vec_slab (vec_slab :: ((nat \<times> u8) vslab, nat \<times> u8) slab_ops) vec_slab)
      (no_calls, 0) = Some (Inr (r', st'))"
    "\<forall>t. stats_count st' t = stats_count (no_calls, 0 :: nat) t + of_nat (tally 257 257 258 512 512 512 t)"
    by auto
  ultimately show ?thesis by auto
qed

text \<open>
  C9. \<open>Connection::process\<close> serves a new connection in three calls without a panic: the first
  reads nothing and writes nothing, the second stores the request and offers it to the stream,
  which cannot take it yet, the third writes it again, and the stream takes all of it: the bytes
  it was sent are those of the request. Two reads and two writes are made and counted.
\<close>

theorem process_serves:
  assumes "stats_ready L good st" and "even (fs_calls s)"
  shows "\<exists>c1 st1 c2 st2 c3 st3.
    process (stats_inc L) (connection_new s) st = Inr (False, c1, st1) \<and>
    process (stats_inc L) c1 st1 = Inr (False, c2, st2) \<and>
    take (c_buf_len c2) (c_buf c2) = hello_world \<and>
    process (stats_inc L) c2 st2 = Inr (True, c3, st3) \<and>
    (\<forall>t. stats_count st3 t = stats_count st t + of_nat (tally 0 0 0 0 2 2 t)) \<and>
    process_logged (stats_inc L) (connection_new s) (st, []) = Some (Inr (False, c1, st1, [])) \<and>
    process_logged (stats_inc L) c1 (st1, []) =
      Some (Inr (False, c2, st2, [(hello_world, Inl WouldBlock)])) \<and>
    process_logged (stats_inc L) c2 (st2, [(hello_world, Inl WouldBlock)]) =
      Some (Inr (True, c3, st3, [(hello_world, Inl WouldBlock), (hello_world, Inr 12)]))"
proof -
  let ?c = "connection_new s"
  have c: "conn_wf ?c" "stage_of ?c = 0"
    using assms(2) by (simp_all add: conn_wf_def stage_of_def connection_new_def SMALL_BUFSIZE_def)
  obtain c1 st1 where 1: "process (stats_inc L) ?c st = Inr (False, c1, st1)"
      "process_logged (stats_inc L) ?c (st, []) = Some (Inr (False, c1, st1, []))" "conn_wf c1"
      "stage_of c1 = 1" and a1: "run_stats.advanced L good st (tally 0 0 0 0 1 0) st1"
    using run_stats.process_stage0 [OF c assms(1)] by blast
  obtain c2 st2 where 2: "process (stats_inc L) c1 st1 = Inr (False, c2, st2)"
      "process_logged (stats_inc L) c1 (st1, []) = Some (Inr (False, c2, st2, [] @ [(hello_world, Inl WouldBlock)]))"
      "take (c_buf_len c2) (c_buf c2) = hello_world" "conn_wf c2" "stage_of c2 = 2"
    and a2: "run_stats.advanced L good st1 (tally 0 0 0 0 1 1) st2"
    using run_stats.process_stage1 [OF 1(3,4) run_stats.advanced_ready [OF a1]] by blast
  obtain c3 st3 where 3: "process (stats_inc L) c2 st2 = Inr (True, c3, st3)"
      "process_logged (stats_inc L) c2 (st2, [(hello_world, Inl WouldBlock)]) =
        Some (Inr (True, c3, st3, [(hello_world, Inl WouldBlock)] @ [(hello_world, Inr 12)]))"
    and a3: "run_stats.advanced L good st2 (tally 0 0 0 0 0 1) st3"
    using run_stats.process_stage2 [OF 2(4,5) run_stats.advanced_ready [OF a2]] by blast
  have "run_stats.advanced L good st (tally 0 0 0 0 2 2) st3"
    using run_stats.advanced_trans [OF run_stats.advanced_trans [OF a1 a2] a3]
    by (simp add: numeral_2_eq_2)
  then have "\<forall>t. stats_count st3 t = stats_count st t + of_nat (tally 0 0 0 0 2 2 t)"
    by (simp add: run_stats.advanced_count)
  with 1(1,2) 2(1-3) 3 show ?thesis
    by (intro exI [of _ c1] exI [of _ st1] exI [of _ c2] exI [of _ st2] exI [of _ c3] exI [of _ st3]) simp
qed

theorem process_serves_witness:
  "\<exists>c1 st1 c2 st2 c3 st3.
    process_logged (stats_inc empty_pipe) (connection_new fake_stream_new) ((no_calls, 0), []) =
      Some (Inr (False, c1, st1, [])) \<and>
    process_logged (stats_inc empty_pipe) c1 (st1, []) =
      Some (Inr (False, c2, st2, [(hello_world, Inl WouldBlock)])) \<and>
    process_logged (stats_inc empty_pipe) c2 (st2, [(hello_world, Inl WouldBlock)]) =
      Some (Inr (True, c3, st3, [(hello_world, Inl WouldBlock), (hello_world, Inr 12)]))"
proof -
  have "even (fs_calls fake_stream_new)" by (simp add: fake_stream_new_def)
  from process_serves [OF no_calls_ready [of 0] this] show ?thesis by blast
qed

text \<open>What \<open>process\<close> needs of its fields, for the slices it takes and for the read of the stream.\<close>

definition process_fits :: "connection \<Rightarrow> bool" where
  "process_fits c \<longleftrightarrow>
     (case c_state c of
        ReceivingRequest \<Rightarrow>
          c_buf_len c \<le> length (c_buf c) \<and>
          (odd (fs_calls (c_stream c)) \<longrightarrow>
             c_buf_len c + 12 \<le> length (c_buf c) \<and> c_sent c \<le> c_buf_len c + 12)
      | SendingResponse \<Rightarrow> c_sent c \<le> c_buf_len c \<and> c_buf_len c \<le> length (c_buf c))"

context stats_trait
begin

lemma process_sending:
  assumes "c_state c = SendingResponse" and "ready st"
  shows "if c_sent c \<le> c_buf_len c \<and> c_buf_len c \<le> length (c_buf c)
    then \<exists>c' st'. process inc c st = Inr (odd (fs_calls (c_stream c)), c', st') \<and>
      fs_calls (c_stream c') = fs_calls (c_stream c) + 1 \<and> advanced st (tally 0 0 0 0 0 1) st'
    else process inc c st = Inl Slice_panic"
proof (cases "c_sent c \<le> c_buf_len c \<and> c_buf_len c \<le> length (c_buf c)")
  case fits: True
  let ?src = "drop (c_sent c) (take (c_buf_len c) (c_buf c))"
  note unfold = process.simps [of inc c] process_step_def process_step_on_def slice_range_def
  show ?thesis
  proof (cases "even (fs_calls (c_stream c))")
    case True
    with write_blocks [OF assms(2) True, of ?src] fits assms(1) reported_advanced(6) show ?thesis
      by (auto simp: unfold)
  next
    case False
    with write_answers [OF assms(2) False, of ?src] fits assms(1) reported_advanced(6) show ?thesis
      by (auto simp: unfold)
  qed
next
  case False
  then have "slice_range (c_buf c) (c_sent c) (c_buf_len c) = Inl Slice_panic" by (simp add: slice_range_def)
  with assms(1) have "process inc c st = Inl Slice_panic"
    by (simp add: process.simps [of inc c] process_step_def process_step_on_def)
  with False show ?thesis by auto
qed

lemma process_receiving_even:
  assumes "c_state c = ReceivingRequest" and "even (fs_calls (c_stream c))" and "ready st"
  shows "if c_buf_len c \<le> length (c_buf c)
    then \<exists>c' st'. process inc c st = Inr (False, c', st') \<and>
      fs_calls (c_stream c') = fs_calls (c_stream c) + 1 \<and> advanced st (tally 0 0 0 0 1 0) st'
    else process inc c st = Inl Slice_panic"
  using read_blocks [OF assms(3,2), of "drop (c_buf_len c) (c_buf c)"] assms(1) reported_advanced(5)
  by (auto simp: process.simps [of inc c] process_step_def process_step_on_def slice_from_def)

lemma process_receiving_odd:
  assumes c: "c_state c = ReceivingRequest" "odd (fs_calls (c_stream c))" and "ready st"
    and room: "c_buf_len c + 12 \<le> length (c_buf c)"
  shows "if c_sent c \<le> c_buf_len c + 12
    then \<exists>c' st'. process inc c st = Inr (False, c', st') \<and>
      fs_calls (c_stream c') = fs_calls (c_stream c) + 2 \<and> advanced st (tally 0 0 0 0 1 1) st'
    else process inc c st = Inl Slice_panic"
proof -
  let ?rest = "drop (c_buf_len c) (c_buf c)"
  let ?c1 = "c\<lparr>c_stream := (c_stream c)\<lparr>fs_calls := fs_calls (c_stream c) + 1\<rparr>,
    c_buf := take (c_buf_len c) (c_buf c) @ hello_world @ drop 12 ?rest, c_buf_len := c_buf_len c + 12,
    c_state := SendingResponse\<rparr>"
  have fits: "12 \<le> length (c_buf c) - c_buf_len c" using room by simp
  then have "12 \<le> length ?rest" by simp
  from read_answers [OF assms(3) c(2) this] obtain st1
    where rd: "fake_stream_read inc (c_stream c) ?rest st =
      Inr (Inr 12, (c_stream c)\<lparr>fs_calls := fs_calls (c_stream c) + 1\<rparr>, hello_world @ drop 12 ?rest, st1)"
    and r1: "reported st Read st1" by blast
  have "process_step inc c st = Inr (None, ?c1, st1)"
    using c(1) rd room fits
    by (simp add: process_step_def process_step_on_def slice_from_def slice_to_def write_from_def Let_def)
  then have "process inc c st = process inc ?c1 st1" by (simp add: process.simps [of inc c])
  moreover have "even (fs_calls (c_stream ?c1))" using c(2) by simp
  ultimately show ?thesis
    using process_sending [of ?c1, OF _ reported_ready [OF r1]] room
      advanced_trans [OF reported_advanced(5) [OF r1], of 0 0 0 0 0 1] by (auto simp: add.assoc)
qed

text \<open>A read of a stream that answers panics when the buffer has no room for its data.\<close>

lemma process_no_room:
  assumes "c_state c = ReceivingRequest" and "odd (fs_calls (c_stream c))" and "ready st"
    and "\<not> c_buf_len c + 12 \<le> length (c_buf c)"
  shows "process inc c st =
    Inl (if c_buf_len c \<le> length (c_buf c) then Assert_panic else Slice_panic)"
proof -
  have "\<not> 12 \<le> length (c_buf c) - c_buf_len c \<or> \<not> c_buf_len c \<le> length (c_buf c)" using assms(4) by arith
  with assms(1,2) inc_counts [OF assms(3), of Read] show ?thesis
    by (auto simp: process.simps [of inc c] process_step_def process_step_on_def slice_from_def
        fake_stream_read_def Let_def)
qed

end

text \<open>
  C33. Whatever state a connection is in, \<open>process\<close> ends. If the fields of the connection fit it
  returns, after one call of the stream or, when it received the request just now, after two; it
  gives up after the first refused call, so that it never spins, and reports completion exactly
  after an answered write. Otherwise it panics: on a slice out of range, or in the read of the
  stream when the buffer has no room for the data.
\<close>

theorem process_calls_bounded:
  assumes "stats_ready L good st"
  shows "if process_fits c
    then \<exists>c' st'. process (stats_inc L) c st =
        Inr (c_state c = SendingResponse \<and> odd (fs_calls (c_stream c)), c', st') \<and>
      fs_calls (c_stream c') = fs_calls (c_stream c) +
        (if c_state c = ReceivingRequest \<and> odd (fs_calls (c_stream c)) then 2 else 1) \<and>
      (\<forall>t. stats_count st' t = stats_count st t + of_nat (tally 0 0 0 0
        (if c_state c = ReceivingRequest then 1 else 0)
        (if c_state c = SendingResponse \<or> odd (fs_calls (c_stream c)) then 1 else 0) t))
    else process (stats_inc L) c st = Inl
      (if c_state c = ReceivingRequest \<and> odd (fs_calls (c_stream c)) \<and>
         c_buf_len c \<le> length (c_buf c) \<and> length (c_buf c) < c_buf_len c + 12
       then Assert_panic else Slice_panic)"
proof (cases "c_state c")
  case SendingResponse
  show ?thesis
    using run_stats.process_sending [OF SendingResponse assms] SendingResponse
    by (auto simp: process_fits_def run_stats.advanced_def split: if_splits)
next
  case ReceivingRequest
  show ?thesis
  proof (cases "even (fs_calls (c_stream c))")
    case True
    then show ?thesis
      using run_stats.process_receiving_even [OF ReceivingRequest True assms] ReceivingRequest
      by (auto simp: process_fits_def run_stats.advanced_def split: if_splits)
  next
    case False
    then show ?thesis
      using run_stats.process_receiving_odd [OF ReceivingRequest False assms]
        run_stats.process_no_room [OF ReceivingRequest False assms] ReceivingRequest
      by (auto simp: process_fits_def run_stats.advanced_def split: if_splits)
  qed
qed

theorem process_calls_bounded_witness:
  "(\<exists>c' st'. process (stats_inc empty_pipe) (connection_new fake_stream_new) (no_calls, 0) =
      Inr (False, c', st') \<and> fs_calls (c_stream c') = 1) \<and>
   process (stats_inc empty_pipe) ((connection_new fake_stream_new)\<lparr>c_buf_len := 129\<rparr>) (no_calls, 0) =
     Inl Slice_panic"
proof
  let ?c = "connection_new fake_stream_new"
  have "process_fits ?c" by (simp add: process_fits_def connection_new_def fake_stream_new_def)
  with process_calls_bounded [OF no_calls_ready [of 0], of ?c]
  show "\<exists>c' st'. process (stats_inc empty_pipe) ?c (no_calls, 0) = Inr (False, c', st') \<and>
      fs_calls (c_stream c') = 1"
    by (auto simp: connection_new_def fake_stream_new_def)
  have "\<not> process_fits (?c\<lparr>c_buf_len := 129\<rparr>)" by (simp add: process_fits_def connection_new_def)
  with process_calls_bounded [OF no_calls_ready [of 0], of "?c\<lparr>c_buf_len := 129\<rparr>"]
  show "process (stats_inc empty_pipe) (?c\<lparr>c_buf_len := 129\<rparr>) (no_calls, 0) = Inl Slice_panic"
    by (simp add: connection_new_def fake_stream_new_def)
qed

end
