(* ===== verification/Arg_Executor.thy ===== *)
theory Arg_Executor
  imports Executor_Contract
begin

section \<open>The executor without boxes (src/src/executor.rs, mod arg)\<close>

text \<open>
  \<open>ArgExecutor\<close> stores the futures of all its tasks, of one type \<open>'f\<close>, in a vector beside the
  slab of tasks, and the waker of a task inside the task. The state of \<open>Tasks\<close> is the cell
  \<open>arg_tasks\<close>; the rest of the world the futures act on is \<open>'w\<close>. Code the executor is given is
  a parameter: \<open>poll\<close> polls a future with the waker of the task at a key, \<open>drop_fut\<close> drops one,
  \<open>spawn_fn\<close> makes one from its argument, \<open>park\<close> waits for events. All of them may act on the
  tasks through the functions below, which is how a future wakes and spawns tasks; a future
  that is being polled stays where it is in the vector.
\<close>

record arg_task =
  at_waker :: embed_waker
  at_awake :: bool

record ('n, 'f) arg_data =
  ad_nodes :: 'n
  ad_next :: dlist
  ad_futs :: "'f option list"

type_synonym ('n, 'f) arg_tasks = "('n, 'f) arg_data ref_cell"
type_synonym spawned = "unit + unit"

definition arg_flag :: "arg_task task_ops" where
  "arg_flag = \<lparr>awake_of = at_awake, set_awake = (\<lambda>b task. task\<lparr>at_awake := b\<rparr>)\<rparr>"

interpretation arg_task: task_flag arg_flag
  by unfold_locales (simp add: arg_flag_def)

subsection \<open>Tasks\<close>

definition arg_tasks_new :: "('n, arg_task node) slab_ops \<Rightarrow> nat \<Rightarrow> ('n, 'f) arg_tasks" where
  "arg_tasks_new S tasks_max =
     ref_cell_new
       \<lparr>ad_nodes = with_capacity S tasks_max, ad_next = list_default,
        ad_futs = replicate tasks_max None\<rparr>"

definition arg_is_empty :: "('n, arg_task node) slab_ops \<Rightarrow> ('n, 'f) arg_tasks \<Rightarrow> bool res" where
  "arg_is_empty S t = and_then (borrow t) (\<lambda>data. Inr (slab_empty S (ad_nodes data)))"

text \<open>\<open>futs[key]\<close> overwritten; \<open>None\<close> stands for uninitialised memory.\<close>

definition put_fut :: "nat \<Rightarrow> 'f option \<Rightarrow> ('n, 'f) arg_tasks \<Rightarrow> ('n, 'f) arg_tasks" where
  "put_fut key f t =
     t\<lparr>cell_data := (cell_data t)\<lparr>ad_futs := (ad_futs (cell_data t))[key := f]\<rparr>\<rparr>"

text \<open>\<open>add\<close> calls the function that writes the new future while it holds its borrow.\<close>

definition arg_add ::
  "('n, arg_task node) slab_ops \<Rightarrow>
     (('n, 'f) arg_tasks \<Rightarrow> 'w \<Rightarrow> ('f \<times> ('n, 'f) arg_tasks \<times> 'w) res) \<Rightarrow>
     ('n, 'f) arg_tasks \<Rightarrow> 'w \<Rightarrow> (spawned \<times> ('n, 'f) arg_tasks \<times> 'w) res" where
  "arg_add S get_fut_fn t w =
     and_then (borrow t) (\<lambda>data.
     and_then
       (add_nodes S (\<lambda>key. \<lparr>at_waker = embed_waker_new key, at_awake = True\<rparr>)
          (ad_next data) (ad_nodes data)) (\<lambda>added.
     case added of
       None \<Rightarrow> Inr (Inl (), t, w)
     | Some (key, nxt, nodes) \<Rightarrow>
         let t = \<lparr>cell_borrowed = True, cell_data = data\<lparr>ad_next := nxt, ad_nodes := nodes\<rparr>\<rparr> in
         and_then (ensure Index_panic (key < length (ad_futs data))) (\<lambda>_.
         and_then (get_fut_fn t w) (\<lambda>(fut, t, w).
         Inr (Inr (), (put_fut key (Some fut) t)\<lparr>cell_borrowed := False\<rparr>, w)))))"

definition arg_wake ::
  "('n, arg_task node) slab_ops \<Rightarrow> nat \<Rightarrow> ('n, 'f) arg_tasks \<Rightarrow> ('n, 'f) arg_tasks res" where
  "arg_wake S task_id t =
     and_then
       (with_borrow t (\<lambda>data.
          and_then (wake_nodes arg_flag S task_id (ad_next data) (ad_nodes data)) (\<lambda>(nxt, nodes).
          Inr ((), data\<lparr>ad_next := nxt, ad_nodes := nodes\<rparr>)))) (\<lambda>(_, t).
     Inr t)"

text \<open>The wakers inside the tasks, as the memory the embedded wakers point into.\<close>

definition arg_wakers ::
  "('n, arg_task node) slab_ops \<Rightarrow> (('n, 'f) arg_tasks, embed_waker) index_mut" where
  "arg_wakers S =
     \<lparr>im_get = (\<lambda>t k.
        map_option (\<lambda>n. at_waker (nd_value n)) (im_get S (ad_nodes (cell_data t)) k)),
      im_set = (\<lambda>t k w.
        case im_get S (ad_nodes (cell_data t)) k of
          None \<Rightarrow> t
        | Some n \<Rightarrow>
            t\<lparr>cell_data := (cell_data t)
              \<lparr>ad_nodes := im_set S (ad_nodes (cell_data t)) k
                 (n\<lparr>nd_value := (nd_value n)\<lparr>at_waker := w\<rparr>\<rparr>)\<rparr>\<rparr>)\<rparr>"

definition arg_vtable ::
  "('n, arg_task node) slab_ops \<Rightarrow> (nat, ('n, 'f) arg_tasks) raw_vtable" where
  "arg_vtable S = embed_vtable (arg_wakers S) (arg_wake S)"

subsection \<open>Polling\<close>

text \<open>One turn of \<open>process_next\<close>: choose a task, poll it, complete it.\<close>

definition arg_begin ::
  "('n, arg_task node) slab_ops \<Rightarrow> ('n, 'f) arg_tasks \<Rightarrow> (nat option \<times> ('n, 'f) arg_tasks) res" where
  "arg_begin S t =
     with_borrow t (\<lambda>tasks.
       and_then (take_next arg_flag S (ad_next tasks) (ad_nodes tasks)) (\<lambda>taken.
       case taken of
         None \<Rightarrow> Inr (None, tasks)
       | Some (nkey, nxt, nodes) \<Rightarrow>
           and_then (ensure Index_panic (nkey < length (ad_futs tasks))) (\<lambda>_.
           Inr (Some nkey, tasks\<lparr>ad_next := nxt, ad_nodes := nodes\<rparr>))))"

type_synonym ('n, 'f, 'w) arg_poll =
  "'f \<Rightarrow> nat \<Rightarrow> ('n, 'f) arg_tasks \<Rightarrow> 'w \<Rightarrow> (bool \<times> 'f \<times> ('n, 'f) arg_tasks \<times> 'w) run"

definition arg_poll ::
  "('n, 'f, 'w) arg_poll \<Rightarrow> nat \<Rightarrow> ('n, 'f) arg_tasks \<Rightarrow> 'w \<Rightarrow>
     (bool \<times> ('n, 'f) arg_tasks \<times> 'w) run" where
  "arg_poll poll nkey t w =
     run_then (Some (expect Dangling (ad_futs (cell_data t) ! nkey))) (\<lambda>fut.
     run_then (poll fut nkey t w) (\<lambda>(done, fut, t, w).
     Some (Inr (done, put_fut nkey (Some fut) t, w))))"

definition arg_complete ::
  "('n, arg_task node) slab_ops \<Rightarrow>
     ('f \<Rightarrow> ('n, 'f) arg_tasks \<Rightarrow> 'w \<Rightarrow> (('n, 'f) arg_tasks \<times> 'w) res) \<Rightarrow>
     nat \<Rightarrow> ('n, 'f) arg_tasks \<Rightarrow> 'w \<Rightarrow> (('n, 'f) arg_tasks \<times> 'w) res" where
  "arg_complete S drop_fut nkey t w =
     and_then (borrow t) (\<lambda>tasks.
     and_then (ensure Index_panic (nkey < length (ad_futs tasks))) (\<lambda>_.
     and_then (expect Dangling (ad_futs tasks ! nkey)) (\<lambda>fut.
     and_then (drop_fut fut (t\<lparr>cell_borrowed := True\<rparr>) w) (\<lambda>(t, w).
     let t = put_fut nkey None t;
         tasks = cell_data t
     in
     and_then (index_at S (ad_nodes tasks) nkey) (\<lambda>n.
     and_then (ensure Assert_panic (ref_count (at_waker (nd_value n)) = 1)) (\<lambda>_.
     and_then (free_nodes S nkey (ad_next tasks) (ad_nodes tasks)) (\<lambda>(nxt, nodes).
     Inr (\<lparr>cell_borrowed = False, cell_data = tasks\<lparr>ad_next := nxt, ad_nodes := nodes\<rparr>\<rparr>, w))))))))"

definition arg_process_next ::
  "('n, arg_task node) slab_ops \<Rightarrow> ('n, 'f, 'w) arg_poll \<Rightarrow>
     ('f \<Rightarrow> ('n, 'f) arg_tasks \<Rightarrow> 'w \<Rightarrow> (('n, 'f) arg_tasks \<times> 'w) res) \<Rightarrow>
     ('n, 'f) arg_tasks \<Rightarrow> 'w \<Rightarrow> (('n, 'f) arg_tasks \<times> 'w) run" where
  "arg_process_next S poll drop_fut =
     process_loop (arg_begin S) (arg_poll poll) (arg_complete S drop_fut)"

subsection \<open>The executor\<close>

definition arg_spawn ::
  "('n, arg_task node) slab_ops \<Rightarrow>
     ('a \<Rightarrow> ('n, 'f) arg_tasks \<Rightarrow> 'w \<Rightarrow> ('f \<times> ('n, 'f) arg_tasks \<times> 'w) res) \<Rightarrow>
     'a \<Rightarrow> ('n, 'f) arg_tasks \<Rightarrow> 'w \<Rightarrow> (spawned \<times> ('n, 'f) arg_tasks \<times> 'w) res" where
  "arg_spawn S spawn_fn arg t w = arg_add S (spawn_fn arg) t w"

definition arg_run ::
  "('n, arg_task node) slab_ops \<Rightarrow> ('n, 'f, 'w) arg_poll \<Rightarrow>
     ('f \<Rightarrow> ('n, 'f) arg_tasks \<Rightarrow> 'w \<Rightarrow> (('n, 'f) arg_tasks \<times> 'w) res) \<Rightarrow>
     (('n, 'f) arg_tasks, 'w, 'e) parking \<Rightarrow>
     ('n, 'f) arg_tasks \<Rightarrow> 'w \<Rightarrow> (('n, 'f) arg_tasks \<times> 'w) run" where
  "arg_run S poll drop_fut park =
     executor_run (arg_process_next S poll drop_fut) (arg_is_empty S) park"

subsection \<open>The invariant\<close>

text \<open>
  \<open>arg_ok S t xs\<close>: nothing is borrowed, the queue stands for \<open>xs\<close>, which are the awake tasks,
  a slot of the vector is initialised exactly when a task is stored at its key, and each task's
  waker wakes that task.
\<close>

abbreviation arg_nodes :: "('n, 'f) arg_tasks \<Rightarrow> 'n" where
  "arg_nodes t \<equiv> ad_nodes (cell_data t)"

abbreviation arg_futs :: "('n, 'f) arg_tasks \<Rightarrow> 'f option list" where
  "arg_futs t \<equiv> ad_futs (cell_data t)"

definition arg_ok :: "('n, arg_task node) slab_ops \<Rightarrow> ('n, 'f) arg_tasks \<Rightarrow> nat list \<Rightarrow> bool" where
  "arg_ok S t xs \<longleftrightarrow>
     \<not> cell_borrowed t \<and>
     queue_ok arg_flag S (length (arg_futs t)) (ad_next (cell_data t)) (arg_nodes t) xs \<and>
     (\<forall>k < length (arg_futs t). arg_futs t ! k \<noteq> None \<longleftrightarrow> value_at S (arg_nodes t) k \<noteq> None) \<and>
     (\<forall>k v. value_at S (arg_nodes t) k = Some v \<longrightarrow> ew_task_id (at_waker v) = k)"

text \<open>\<open>arg_keeps S t t'\<close>: no task was removed and no future of one replaced.\<close>

definition arg_keeps ::
  "('n, arg_task node) slab_ops \<Rightarrow> ('n, 'f) arg_tasks \<Rightarrow> ('n, 'f) arg_tasks \<Rightarrow> bool" where
  "arg_keeps S t t' \<longleftrightarrow>
     length (arg_futs t') = length (arg_futs t) \<and>
     (\<forall>k. value_at S (arg_nodes t) k \<noteq> None \<longrightarrow>
        value_at S (arg_nodes t') k \<noteq> None \<and> arg_futs t' ! k = arg_futs t ! k)"

lemma arg_keeps_refl [simp]: "arg_keeps S t t"
  by (simp add: arg_keeps_def)

lemma arg_keeps_trans: "arg_keeps S t t' \<Longrightarrow> arg_keeps S t' t'' \<Longrightarrow> arg_keeps S t t''"
  by (simp add: arg_keeps_def)

lemma arg_ok_new: "slab_ok S \<Longrightarrow> arg_ok S (arg_tasks_new S n) []"
  using queue_ok_new [of S arg_flag n]
  by (simp add: arg_ok_def arg_tasks_new_def value_at_def slab_new)

lemma arg_flag_simps [simp]:
  "awake_of arg_flag v = at_awake v"
  "set_awake arg_flag b v = v\<lparr>at_awake := b\<rparr>"
  by (simp_all add: arg_flag_def)

lemma arg_ok_queue: "arg_ok S t xs \<Longrightarrow>
    queue_ok arg_flag S (length (arg_futs t)) (ad_next (cell_data t)) (arg_nodes t) xs"
  by (simp add: arg_ok_def)

lemma arg_ok_fut: "arg_ok S t xs \<Longrightarrow> k < length (arg_futs t) \<Longrightarrow>
    arg_futs t ! k = None \<longleftrightarrow> value_at S (arg_nodes t) k = None"
  unfolding arg_ok_def by blast

lemma arg_ok_free: "arg_ok S t xs \<Longrightarrow> \<not> cell_borrowed t"
  by (simp add: arg_ok_def)

lemma arg_awake_idem: "at_awake v \<Longrightarrow> v\<lparr>at_awake := True\<rparr> = v"
  by (cases v) simp

subsection \<open>The functions the futures call\<close>

lemma arg_wake_ok:
  assumes ok: "arg_ok S t xs" and k: "value_at S (arg_nodes t) k = Some v"
  shows "\<exists>t'. arg_wake S k t = Inr t' \<and> arg_ok S t' (sched_wake k xs) \<and> arg_keeps S t t' \<and>
    value_at S (arg_nodes t') = (value_at S (arg_nodes t))(k \<mapsto> v\<lparr>at_awake := True\<rparr>)"
proof -
  note q = arg_ok_queue [OF ok]
  obtain nxt' nodes' where w: "wake_nodes arg_flag S k (ad_next (cell_data t)) (arg_nodes t) =
      Inr (nxt', nodes')" "queue_ok arg_flag S (length (arg_futs t)) nxt' nodes' (sched_wake k xs)"
      "value_at S nodes' = (value_at S (arg_nodes t))(k \<mapsto> v\<lparr>at_awake := True\<rparr>)"
    using arg_task.wake_ok [OF q k] by (cases "at_awake v") (auto simp: arg_awake_idem)
  let ?t = "t\<lparr>cell_data := (cell_data t)\<lparr>ad_next := nxt', ad_nodes := nodes'\<rparr>\<rparr>"
  have "arg_wake S k t = Inr ?t"
    using w(1) ok by (simp add: arg_wake_def with_borrow_def arg_ok_def)
  moreover have "arg_ok S ?t (sched_wake k xs)" "arg_keeps S t ?t"
    using ok w(2,3) k by (auto simp: arg_ok_def arg_keeps_def)
  ultimately show ?thesis using w(3) by auto
qed

lemma arg_wake_missing:
  "arg_ok S t xs \<Longrightarrow> value_at S (arg_nodes t) k = None \<Longrightarrow> arg_wake S k t = Inl Index_panic"
  by (simp add: arg_wake_def with_borrow_def wake_nodes_def arg_ok_def value_at_def)

text \<open>The task the next \<open>add\<close> stores its future at.\<close>

definition arg_new_task :: "nat \<Rightarrow> arg_task" where
  "arg_new_task key = \<lparr>at_waker = embed_waker_new key, at_awake = True\<rparr>"

lemma arg_add_ok:
  assumes ok: "arg_ok S t xs" and room: "slab_len S (arg_nodes t) < length (arg_futs t)"
    and g: "\<And>t' f t2 w2. get_fut_fn t' w = Inr (f, t2, w2) \<Longrightarrow> t2 = t'"
    and r: "\<And>t'. cell_borrowed t' \<Longrightarrow> \<exists>f t2 w2. get_fut_fn t' w = Inr (f, t2, w2)"
  shows "\<exists>k f w' t'. arg_add S get_fut_fn t w = Inr (Inr (), t', w') \<and>
    value_at S (arg_nodes t) k = None \<and> arg_ok S t' (xs @ [k]) \<and> arg_keeps S t t' \<and>
    value_at S (arg_nodes t') = (value_at S (arg_nodes t))(k \<mapsto> arg_new_task k) \<and>
    arg_futs t' = (arg_futs t)[k := Some f] \<and> (\<exists>t1. get_fut_fn t1 w = Inr (f, t1, w'))"
proof -
  note q = arg_ok_queue [OF ok]
  obtain k nxt' nodes' where a: "add_nodes S arg_new_task (ad_next (cell_data t)) (arg_nodes t) =
      Inr (Some (k, nxt', nodes'))" "value_at S (arg_nodes t) k = None" "k < length (arg_futs t)"
      "queue_ok arg_flag S (length (arg_futs t)) nxt' nodes' (xs @ [k])"
      "value_at S nodes' = (value_at S (arg_nodes t))(k \<mapsto> arg_new_task k)"
    using arg_task.add_ok [OF q _ room, of arg_new_task] by (auto simp: arg_new_task_def)
  let ?t = "\<lparr>cell_borrowed = True, cell_data = (cell_data t)\<lparr>ad_next := nxt', ad_nodes := nodes'\<rparr>\<rparr>"
  obtain f w' where f: "get_fut_fn ?t w = Inr (f, ?t, w')" using r [of ?t] g [of ?t] by auto
  let ?u = "(put_fut k (Some f) ?t)\<lparr>cell_borrowed := False\<rparr>"
  have "arg_add S get_fut_fn t w = Inr (Inr (), ?u, w')"
    using ok a(1,3) f
    by (simp add: arg_add_def arg_ok_def arg_new_task_def [abs_def] Let_def)
  moreover have "arg_ok S ?u (xs @ [k])"
    using ok a by (auto simp: arg_ok_def put_fut_def nth_list_update arg_new_task_def embed_waker_new_def)
  moreover have "arg_keeps S t ?u" using a(2,5) by (auto simp: arg_keeps_def put_fut_def)
  ultimately show ?thesis using a(2,5) f by (auto simp: put_fut_def)
qed

lemma arg_add_full:
  "arg_ok S t xs \<Longrightarrow> slab_len S (arg_nodes t) = length (arg_futs t) \<Longrightarrow>
     arg_add S get_fut_fn t w = Inr (Inl (), t, w)"
  by (simp add: arg_add_def arg_ok_free arg_task.add_full [OF arg_ok_queue])

text \<open>The wakers are a lawful memory, and what changes only them keeps the rest.\<close>

lemma arg_wakers_get:
  "im_get (arg_wakers S) t k = map_option at_waker (value_at S (arg_nodes t) k)"
  by (simp add: arg_wakers_def value_at_def option.map_comp comp_def)

lemma arg_set_waker:
  assumes ok: "arg_ok S t xs" and v: "value_at S (arg_nodes t) k = Some v" and w: "ew_task_id w = k"
  shows "arg_ok S (im_set (arg_wakers S) t k w) xs \<and>
    arg_keeps S t (im_set (arg_wakers S) t k w) \<and>
    value_at S (arg_nodes (im_set (arg_wakers S) t k w)) =
      (value_at S (arg_nodes t))(k \<mapsto> v\<lparr>at_waker := w\<rparr>)"
proof -
  note q = arg_ok_queue [OF ok]
  obtain n where n: "im_get S (arg_nodes t) k = Some n" "nd_value n = v"
    using v by (auto simp: value_at_Some_iff)
  note put = arg_task.put_ok [OF q n(1), of "v\<lparr>at_waker := w\<rparr>"]
  from put n ok v w show ?thesis by (auto simp: arg_wakers_def arg_ok_def arg_keeps_def)
qed

subsection \<open>The steps the futures can take\<close>

text \<open>
  A future reaches the executor through the spawner, which adds tasks, and through the wakers,
  which wake tasks and are cloned and dropped. \<open>arg_step\<close> is one such call that returned.
\<close>

inductive arg_step ::
  "('n, arg_task node) slab_ops \<Rightarrow> ('n, 'f) arg_tasks \<Rightarrow> ('n, 'f) arg_tasks \<Rightarrow> bool" for S where
  step_wake: "arg_wake S k t = Inr t' \<Longrightarrow> arg_step S t t'"
| step_spawn: "arg_add S (\<lambda>t w. Inr (f, t, w)) t () = Inr (r, t', ()) \<Longrightarrow> arg_step S t t'"
| step_clone: "vt_clone (arg_vtable S) k t = Inr (k, t') \<Longrightarrow> arg_step S t t'"
| step_drop: "vt_drop (arg_vtable S) k t = Inr t' \<Longrightarrow> arg_step S t t'"

text \<open>
  The steps that only count references do not borrow the tasks, and can be taken while they are
  borrowed. They leave the queue and the futures alone.
\<close>

inductive arg_count_step ::
  "('n, arg_task node) slab_ops \<Rightarrow> ('n, 'f) arg_tasks \<Rightarrow> ('n, 'f) arg_tasks \<Rightarrow> bool" for S where
  count_clone: "vt_clone (arg_vtable S) k t = Inr (k, t') \<Longrightarrow> arg_count_step S t t'"
| count_drop: "vt_drop (arg_vtable S) k t = Inr t' \<Longrightarrow> arg_count_step S t t'"

lemma arg_count_stepD:
  assumes "arg_count_step S t t'"
  shows "\<exists>k v r. value_at S (arg_nodes t) k = Some v \<and>
    t' = im_set (arg_wakers S) t k ((at_waker v)\<lparr>ew_refs := r\<rparr>)"
  using assms
  by cases (auto simp: arg_vtable_def embed_vtable_def embed_clone_def embed_drop_def deref_def res_iff
      arg_wakers_get Let_def)

lemma arg_count_step_ok:
  assumes "arg_count_step S t t'" and ok: "arg_ok S t xs"
  shows "arg_ok S t' xs \<and> arg_keeps S t t'"
proof -
  obtain k v r where v: "value_at S (arg_nodes t) k = Some v"
    and t': "t' = im_set (arg_wakers S) t k ((at_waker v)\<lparr>ew_refs := r\<rparr>)"
    using arg_count_stepD [OF assms(1)] by blast
  have "ew_task_id ((at_waker v)\<lparr>ew_refs := r\<rparr>) = k" using ok v by (simp add: arg_ok_def)
  from arg_set_waker [OF ok v this] t' show ?thesis by simp
qed

lemma arg_wakers_borrowed:
  "im_get (arg_wakers S) (t\<lparr>cell_borrowed := b\<rparr>) k = im_get (arg_wakers S) t k"
  "im_set (arg_wakers S) (t\<lparr>cell_borrowed := b\<rparr>) k w = (im_set (arg_wakers S) t k w)\<lparr>cell_borrowed := b\<rparr>"
  by (simp_all add: arg_wakers_def split: option.split)

lemma arg_count_step_borrowed:
  assumes "arg_count_step S t t'"
  shows "arg_count_step S (t\<lparr>cell_borrowed := b\<rparr>) (t'\<lparr>cell_borrowed := b\<rparr>)"
  using assms
proof cases
  case (count_clone k)
  then have "vt_clone (arg_vtable S) k (t\<lparr>cell_borrowed := b\<rparr>) = Inr (k, t'\<lparr>cell_borrowed := b\<rparr>)"
    by (auto simp: arg_vtable_def embed_vtable_def embed_clone_def deref_def res_iff arg_wakers_borrowed)
  then show ?thesis by (rule arg_count_step.count_clone)
next
  case (count_drop k)
  then have "vt_drop (arg_vtable S) k (t\<lparr>cell_borrowed := b\<rparr>) = Inr (t'\<lparr>cell_borrowed := b\<rparr>)"
    by (auto simp: arg_vtable_def embed_vtable_def embed_drop_def deref_def res_iff arg_wakers_borrowed
        Let_def)
  then show ?thesis by (rule arg_count_step.count_drop)
qed

lemma arg_count_steps_ok:
  assumes "(arg_count_step S)\<^sup>*\<^sup>* t t'" and "arg_ok S t xs"
  shows "arg_ok S t' xs \<and> arg_keeps S t t'"
  using assms(1)
proof (induction rule: rtranclp_induct)
  case base
  then show ?case using assms(2) by simp
next
  case (step t1 t2)
  with arg_count_step_ok [OF step.hyps(2)] arg_keeps_trans show ?case by metis
qed

lemma arg_count_steps_borrowed:
  "(arg_count_step S)\<^sup>*\<^sup>* t t' \<Longrightarrow>
     (arg_count_step S)\<^sup>*\<^sup>* (t\<lparr>cell_borrowed := b\<rparr>) (t'\<lparr>cell_borrowed := b\<rparr>)"
  by (induction rule: rtranclp_induct) (auto intro: rtranclp.rtrancl_into_rtrancl arg_count_step_borrowed)

lemma arg_step_ok:
  assumes "arg_step S t t'" and ok: "arg_ok S t xs"
  shows "\<exists>zs. arg_ok S t' (xs @ zs) \<and> arg_keeps S t t'"
  using assms(1)
proof cases
  case (step_wake k)
  then obtain v where v: "value_at S (arg_nodes t) k = Some v"
    using arg_wake_missing [OF ok, of k] by (cases "value_at S (arg_nodes t) k") auto
  from arg_wake_ok [OF ok v] step_wake have "arg_ok S t' (sched_wake k xs)" "arg_keeps S t t'" by auto
  moreover have "\<exists>zs. sched_wake k xs = xs @ zs" by (simp add: sched_wake_def)
  ultimately show ?thesis by auto
next
  case (step_spawn f r)
  have "slab_len S (arg_nodes t) \<le> length (arg_futs t)"
    by (rule queue_ok_len [OF arg_ok_queue [OF ok]])
  then consider "slab_len S (arg_nodes t) = length (arg_futs t)"
    | "slab_len S (arg_nodes t) < length (arg_futs t)" by linarith
  then show ?thesis
  proof cases
    case 1
    have "t' = t" using arg_add_full [OF ok 1, of "\<lambda>t w. Inr (f, t, w)" "()"] step_spawn by simp
    with ok show ?thesis by (auto intro: exI [of _ "[]"])
  next
    case 2
    from arg_add_ok [OF ok 2, of "\<lambda>t w. Inr (f, t, w)" "()"] step_spawn show ?thesis by auto
  qed
next
  case (step_clone k)
  from arg_count_step_ok [OF count_clone [OF this] ok] show ?thesis by (auto intro: exI [of _ "[]"])
next
  case (step_drop k)
  from arg_count_step_ok [OF count_drop [OF this] ok] show ?thesis by (auto intro: exI [of _ "[]"])
qed

lemma arg_steps_ok:
  assumes "(arg_step S)\<^sup>*\<^sup>* t t'" and "arg_ok S t xs"
  shows "\<exists>zs. arg_ok S t' (xs @ zs) \<and> arg_keeps S t t'"
  using assms
proof (induction rule: rtranclp_induct)
  case base
  then show ?case by (auto intro: exI [of _ "[]"])
next
  case (step t1 t2)
  then obtain zs where "arg_ok S t1 (xs @ zs)" "arg_keeps S t t1" by blast
  with arg_step_ok [OF step.hyps(2)] arg_keeps_trans show ?case by (metis append_assoc)
qed

subsection \<open>A turn of the loop\<close>

abbreviation arg_turn ::
  "('n, arg_task node) slab_ops \<Rightarrow> ('n, 'f, 'w) arg_poll \<Rightarrow>
     ('f \<Rightarrow> ('n, 'f) arg_tasks \<Rightarrow> 'w \<Rightarrow> (('n, 'f) arg_tasks \<times> 'w) res) \<Rightarrow>
     nat \<Rightarrow> ('n, 'f) arg_tasks \<Rightarrow> 'w \<Rightarrow> (('n, 'f) arg_tasks \<times> 'w) run" where
  "arg_turn S poll drop_fut \<equiv> turn (arg_poll poll) (arg_complete S drop_fut)"

text \<open>
  \<open>arg_behaved\<close>: the futures act on the executor only through its functions. A future is dropped
  while the tasks are borrowed: it can then release or clone wakers, but neither wake nor spawn.
\<close>

definition arg_behaved ::
  "('n, arg_task node) slab_ops \<Rightarrow> ('n, 'f, 'w) arg_poll \<Rightarrow>
     ('f \<Rightarrow> ('n, 'f) arg_tasks \<Rightarrow> 'w \<Rightarrow> (('n, 'f) arg_tasks \<times> 'w) res) \<Rightarrow> bool" where
  "arg_behaved S poll drop_fut \<longleftrightarrow>
     (\<forall>f k t w d f' t' w'. poll f k t w = Some (Inr (d, f', t', w')) \<longrightarrow> (arg_step S)\<^sup>*\<^sup>* t t') \<and>
     (\<forall>f t w t' w'. drop_fut f t w = Inr (t', w') \<longrightarrow> (arg_count_step S)\<^sup>*\<^sup>* t t')"

lemma arg_begin_empty: "arg_ok S t [] \<Longrightarrow> arg_begin S t = Inr (None, t)"
  by (simp add: arg_begin_def with_borrow_def arg_ok_free arg_task.take_none [OF arg_ok_queue])

lemma arg_begin_front:
  assumes ok: "arg_ok S t (k # xs)"
  shows "\<exists>t1 v. arg_begin S t = Inr (Some k, t1) \<and> arg_ok S t1 xs \<and> k \<notin> set xs \<and>
    k < length (arg_futs t) \<and> arg_futs t1 = arg_futs t \<and> value_at S (arg_nodes t) k = Some v \<and>
    value_at S (arg_nodes t1) = (value_at S (arg_nodes t))(k \<mapsto> v\<lparr>at_awake := False\<rparr>)"
proof -
  note q = arg_ok_queue [OF ok]
  obtain nxt' nodes' v where tk: "take_next arg_flag S (ad_next (cell_data t)) (arg_nodes t) =
      Inr (Some (k, nxt', nodes'))" "value_at S (arg_nodes t) k = Some v"
      "queue_ok arg_flag S (length (arg_futs t)) nxt' nodes' xs"
      "value_at S nodes' = (value_at S (arg_nodes t))(k \<mapsto> v\<lparr>at_awake := False\<rparr>)"
    using arg_task.take_ok [OF q] by auto
  have k: "k \<notin> set xs" "k < length (arg_futs t)"
    using run_queue.rep_distinct [OF queue_ok_rep [OF q]] q tk(2) by (auto simp: queue_ok_def)
  let ?t = "t\<lparr>cell_data := (cell_data t)\<lparr>ad_next := nxt', ad_nodes := nodes'\<rparr>\<rparr>"
  have "arg_begin S t = Inr (Some k, ?t)"
    using tk(1) k(2) by (simp add: arg_begin_def with_borrow_def arg_ok_free [OF ok])
  moreover have "arg_ok S ?t xs"
    using ok tk(2-4) by (auto simp: arg_ok_def)
  ultimately show ?thesis using tk(2,4) k by auto
qed

lemma put_fut_beyond: "\<not> k < length (arg_futs t) \<Longrightarrow> put_fut k f t = t"
  by (simp add: put_fut_def list_update_beyond)

lemma arg_put_fut_ok:
  assumes "arg_ok S t xs" and "arg_futs t ! k = Some f"
  shows "arg_ok S (put_fut k (Some f') t) xs"
proof (cases "k < length (arg_futs t)")
  case True
  with assms have "value_at S (arg_nodes t) k \<noteq> None" using arg_ok_fut by fastforce
  with assms(1) True show ?thesis by (auto simp: arg_ok_def put_fut_def nth_list_update)
qed (use assms(1) in \<open>simp add: put_fut_beyond\<close>)

lemma arg_complete_ok:
  assumes ok: "arg_ok S t (xs @ zs)" and k: "k \<notin> set xs"
    and d: "\<And>f t w t' w'. drop_fut f t w = Inr (t', w') \<Longrightarrow> (arg_count_step S)\<^sup>*\<^sup>* t t'"
    and r: "arg_complete S drop_fut k t w = Inr (t', w')"
  shows "arg_ok S t' (xs @ removeAll k zs)"
proof -
  obtain fut u w1 n nxt' nodes' where kl: "k < length (arg_futs t)"
    and u: "drop_fut fut (t\<lparr>cell_borrowed := True\<rparr>) w = Inr (u, w1)"
    and n: "im_get S (arg_nodes u) k = Some n"
    and f: "free_nodes S k (ad_next (cell_data u)) (arg_nodes u) = Inr (nxt', nodes')"
    and t': "t' = \<lparr>cell_borrowed = False, cell_data = (cell_data u)
      \<lparr>ad_futs := (arg_futs u)[k := None], ad_next := nxt', ad_nodes := nodes'\<rparr>\<rparr>"
    using r by (fastforce simp: arg_complete_def res_iff Let_def put_fut_def)
  let ?u = "u\<lparr>cell_borrowed := False\<rparr>"
  have "t\<lparr>cell_borrowed := False\<rparr> = t" using arg_ok_free [OF ok] by (cases t) simp
  with arg_count_steps_borrowed [OF d [OF u], of False] have "(arg_count_step S)\<^sup>*\<^sup>* t ?u" by simp
  from arg_count_steps_ok [OF this ok] have oku: "arg_ok S ?u (xs @ zs)" and "arg_keeps S t ?u" by auto
  then have kl': "k < length (arg_futs ?u)" using kl by (simp add: arg_keeps_def)
  have v: "value_at S (arg_nodes ?u) k = Some (nd_value n)" using n by (auto simp: value_at_Some_iff)
  from arg_task.free_ok [OF arg_ok_queue [OF oku] v] f
  have "queue_ok arg_flag S (length (arg_futs ?u)) nxt' nodes' (removeAll k (xs @ zs))"
    "value_at S nodes' = (value_at S (arg_nodes ?u))(k := None)" by auto
  with oku k kl' show ?thesis
    unfolding t' by (auto simp: arg_ok_def nth_list_update)
qed

lemma arg_turn_ok:
  assumes b: "arg_behaved S poll drop_fut" and ok: "arg_ok S t xs" and k: "k \<notin> set xs"
    and r: "arg_turn S poll drop_fut k t w = Some (Inr (t', w'))"
  shows "\<exists>zs. arg_ok S t' (xs @ zs)"
proof -
  obtain f d f' t2 w2 where f: "arg_futs t ! k = Some f"
    and p: "poll f k t w = Some (Inr (d, f', t2, w2))"
    and c: "(if d then arg_complete S drop_fut k (put_fut k (Some f') t2) w2
      else Inr (put_fut k (Some f') t2, w2)) = Inr (t', w')"
    using r by (auto simp: turn_def arg_poll_def res_iff)
  from b p have "(arg_step S)\<^sup>*\<^sup>* t t2" unfolding arg_behaved_def by blast
  from arg_steps_ok [OF this ok] obtain zs where t2: "arg_ok S t2 (xs @ zs)" "arg_keeps S t t2"
    by blast
  have "arg_ok S (put_fut k (Some f') t2) (xs @ zs)"
  proof (cases "k < length (arg_futs t)")
    case True
    with arg_ok_fut [OF ok True] f have "value_at S (arg_nodes t) k \<noteq> None" by simp
    with t2(2) f have "arg_futs t2 ! k = Some f" by (simp add: arg_keeps_def)
    from arg_put_fut_ok [OF t2(1) this] show ?thesis .
  next
    case False
    with t2(2) have "put_fut k (Some f') t2 = t2" by (simp add: put_fut_beyond arg_keeps_def)
    with t2 show ?thesis by simp
  qed
  moreover have "(arg_count_step S)\<^sup>*\<^sup>* t t'" if "drop_fut f t w = Inr (t', w')" for f t w t' w'
    using b that unfolding arg_behaved_def by blast
  ultimately show ?thesis
    using c arg_complete_ok [OF _ k, of S "put_fut k (Some f') t2" zs drop_fut w2 t' w']
    by (cases d) auto
qed

text \<open>The loop contract; the invariant includes that the futures behave.\<close>

definition arg_inv ::
  "('n, arg_task node) slab_ops \<Rightarrow> ('n, 'f, 'w) arg_poll \<Rightarrow>
     ('f \<Rightarrow> ('n, 'f) arg_tasks \<Rightarrow> 'w \<Rightarrow> (('n, 'f) arg_tasks \<times> 'w) res) \<Rightarrow>
     ('n, 'f) arg_tasks \<Rightarrow> nat list \<Rightarrow> bool" where
  "arg_inv S poll drop_fut t xs \<longleftrightarrow> arg_behaved S poll drop_fut \<and> arg_ok S t xs"

interpretation arg_loop: poll_loop "arg_begin S" "arg_poll poll" "arg_complete S drop_fut"
  "arg_inv S poll drop_fut" for S poll drop_fut
proof unfold_locales
  show "arg_begin S t = Inr (None, t)" if "arg_inv S poll drop_fut t []" for t
    using that by (simp add: arg_inv_def arg_begin_empty)
  show "\<exists>t1. arg_begin S t = Inr (Some k, t1) \<and> arg_inv S poll drop_fut t1 xs \<and> k \<notin> set xs"
    if "arg_inv S poll drop_fut t (k # xs)" for t k xs
    using that arg_begin_front [of S t k xs] by (auto simp: arg_inv_def)
  show "\<exists>zs. arg_inv S poll drop_fut t' (xs @ zs)"
    if "arg_inv S poll drop_fut t xs" "k \<notin> set xs"
      "arg_turn S poll drop_fut k t w = Some (Inr (t', w'))" for t xs k w t' w'
    using that arg_turn_ok [of S poll drop_fut t xs k w t' w'] by (auto simp: arg_inv_def)
qed

lemmas arg_drains = arg_loop.process_drains [folded arg_process_next_def]
lemmas arg_returns = arg_loop.process_returns [folded arg_process_next_def]
lemmas arg_ends = arg_loop.run_end [folded arg_process_next_def]

subsection \<open>The executor meets the contract\<close>

text \<open>The tasks as the contract sees them: each future with the count of its waker.\<close>

definition arg_view :: "('n, arg_task node) slab_ops \<Rightarrow> ('n, 'f) arg_tasks \<Rightarrow> 'f tasks" where
  "arg_view S t k =
     (case value_at S (arg_nodes t) k of
        None \<Rightarrow> None
      | Some v \<Rightarrow> map_option (\<lambda>f. (f, ew_refs (at_waker v))) (arg_futs t ! k))"

definition arg_rep ::
  "('n, arg_task node) slab_ops \<Rightarrow> nat \<Rightarrow> ('n, 'f) arg_tasks \<Rightarrow> 'f tasks \<Rightarrow> nat list \<Rightarrow> bool" where
  "arg_rep S cap t m xs \<longleftrightarrow> arg_ok S t xs \<and> length (arg_futs t) = cap \<and> m = arg_view S t"

definition arg_give ::
  "('n, arg_task node) slab_ops \<Rightarrow> 'f \<Rightarrow> ('n, 'f) arg_tasks \<Rightarrow> (spawned \<times> ('n, 'f) arg_tasks) res" where
  "arg_give S f t = and_then (arg_add S (\<lambda>t w. Inr (f, t, w)) t ()) (\<lambda>(r, t, _). Inr (r, t))"

lemma arg_repD:
  assumes "arg_rep S cap t m xs"
  shows "arg_ok S t xs" and "length (arg_futs t) = cap" and "m = arg_view S t"
  using assms by (simp_all add: arg_rep_def)

lemma arg_rep_cap: "arg_rep S cap t m xs \<Longrightarrow> value_at S (arg_nodes t) k = Some v \<Longrightarrow> k < cap"
  using arg_ok_queue by (fastforce simp: arg_rep_def queue_ok_def)

lemma arg_rep_Some:
  assumes "arg_rep S cap t m xs" and "m k = Some (f, r)"
  shows "\<exists>v. value_at S (arg_nodes t) k = Some v \<and> arg_futs t ! k = Some f \<and>
    ew_refs (at_waker v) = r \<and> ew_task_id (at_waker v) = k \<and> k < cap"
proof -
  obtain v where v: "value_at S (arg_nodes t) k = Some v" "arg_futs t ! k = Some f"
    "ew_refs (at_waker v) = r"
    using assms by (auto simp: arg_rep_def arg_view_def split: option.splits)
  with arg_rep_cap [OF assms(1) v(1)] assms(1) show ?thesis by (auto simp: arg_rep_def arg_ok_def)
qed

lemma arg_rep_dom:
  assumes "arg_rep S cap t m xs" shows "dom m = dom (value_at S (arg_nodes t))"
proof -
  have "m k \<noteq> None \<longleftrightarrow> value_at S (arg_nodes t) k \<noteq> None" for k
    using arg_ok_fut [OF arg_repD(1) [OF assms], of k] arg_rep_cap [OF assms, of k] arg_repD(2) [OF assms]
    by (cases "value_at S (arg_nodes t) k") (auto simp: arg_repD(3) [OF assms] arg_view_def)
  then show ?thesis by blast
qed

lemma arg_rep_card:
  assumes "arg_rep S cap t m xs" shows "slab_len S (arg_nodes t) = card (dom m)"
  using task_pool.used_view [OF queue_ok_rep [OF arg_ok_queue [OF arg_repD(1) [OF assms]]]]
  by (simp add: arg_rep_dom [OF assms])

lemma arg_rep_set_waker:
  assumes rep: "arg_rep S cap t m xs" and m: "m k = Some (f, r)"
    and v: "value_at S (arg_nodes t) k = Some v"
  shows "arg_rep S cap (im_set (arg_wakers S) t k ((at_waker v)\<lparr>ew_refs := r'\<rparr>)) (m(k \<mapsto> (f, r'))) xs"
proof -
  note k = arg_rep_Some [OF rep m]
  with v have "ew_task_id ((at_waker v)\<lparr>ew_refs := r'\<rparr>) = k" by auto
  note s = arg_set_waker [OF arg_repD(1) [OF rep] v this]
  have "arg_futs (im_set (arg_wakers S) t k w) = arg_futs t" for w
    by (simp add: arg_wakers_def split: option.split)
  moreover from this s k v
  have "arg_view S (im_set (arg_wakers S) t k ((at_waker v)\<lparr>ew_refs := r'\<rparr>)) j = (m(k \<mapsto> (f, r'))) j" for j
    by (cases "value_at S (arg_nodes t) j") (auto simp: arg_repD(3) [OF rep] arg_view_def)
  ultimately show ?thesis using s arg_repD(2) [OF rep] by (auto simp: arg_rep_def fun_eq_iff)
qed

lemma arg_view_wake:
  assumes "arg_keeps S t t'" and "value_at S (arg_nodes t) k = Some v"
    and "value_at S (arg_nodes t') = (value_at S (arg_nodes t))(k \<mapsto> v\<lparr>at_awake := b\<rparr>)"
  shows "arg_view S t' = arg_view S t"
proof
  fix j show "arg_view S t' j = arg_view S t j"
    using assms by (cases "value_at S (arg_nodes t) j") (auto simp: arg_view_def arg_keeps_def)
qed

lemma arg_give_ok:
  assumes rep: "arg_rep S cap t m xs" and room: "card (dom m) < cap"
  shows "\<exists>k t'. arg_give S f t = Inr (Inr (), t') \<and> m k = None \<and>
    arg_rep S cap t' (m(k \<mapsto> (f, 1))) (xs @ [k])"
proof -
  have "slab_len S (arg_nodes t) < length (arg_futs t)"
    using room arg_rep_card [OF rep] arg_repD(2) [OF rep] by simp
  from arg_add_ok [OF arg_repD(1) [OF rep] this, of "\<lambda>t w. Inr (f, t, w)" "()"]
  obtain k t' where a: "arg_add S (\<lambda>t w. Inr (f, t, w)) t () = Inr (Inr (), t', ())"
    "value_at S (arg_nodes t) k = None" "arg_ok S t' (xs @ [k])" "arg_keeps S t t'"
    "value_at S (arg_nodes t') = (value_at S (arg_nodes t))(k \<mapsto> arg_new_task k)"
    "arg_futs t' = (arg_futs t)[k := Some f]" by auto
  have "k < length (arg_futs t)" using arg_ok_queue [OF a(3)] a(5,6) by (auto simp: queue_ok_def)
  then have "arg_view S t' j = (m(k \<mapsto> (f, 1))) j" for j
    using a(5,6) arg_repD(3) [OF rep]
    by (cases "value_at S (arg_nodes t) j") (auto simp: arg_view_def arg_new_task_def embed_waker_new_def)
  then have "arg_view S t' = m(k \<mapsto> (f, 1))" by blast
  moreover have "m k = None" using arg_rep_dom [OF rep] a(2) by auto
  ultimately show ?thesis
    using a(1,3,6) arg_repD(2) [OF rep] by (auto simp: arg_give_def arg_rep_def)
qed

lemma arg_complete_rep:
  assumes rep: "arg_rep S cap t m xs" and m: "m k = Some (f, 1)"
    and d: "\<And>t. drop_fut f t w = Inr (t, w')"
  shows "\<exists>t'. arg_complete S drop_fut k t w = Inr (t', w') \<and>
    arg_rep S cap t' (m(k := None)) (removeAll k xs)"
proof -
  obtain v where v: "value_at S (arg_nodes t) k = Some v" "arg_futs t ! k = Some f"
    "ew_refs (at_waker v) = 1" "k < length (arg_futs t)"
    using arg_rep_Some [OF rep m] arg_repD(2) [OF rep] by auto
  note ok = arg_repD(1) [OF rep]
  obtain n where n: "im_get S (arg_nodes t) k = Some n" "nd_value n = v"
    using v(1) by (auto simp: value_at_Some_iff)
  obtain nxt' nodes' where f: "free_nodes S k (ad_next (cell_data t)) (arg_nodes t) = Inr (nxt', nodes')"
      "queue_ok arg_flag S (length (arg_futs t)) nxt' nodes' (removeAll k xs)"
      "value_at S nodes' = (value_at S (arg_nodes t))(k := None)"
    using arg_task.free_ok [OF arg_ok_queue [OF ok] v(1)] by blast
  let ?t = "\<lparr>cell_borrowed = False, cell_data = (cell_data t)
    \<lparr>ad_futs := (arg_futs t)[k := None], ad_next := nxt', ad_nodes := nodes'\<rparr>\<rparr>"
  have "arg_complete S drop_fut k t w = Inr (?t, w')"
    using n v(2-4) f(1) by (simp add: arg_complete_def arg_ok_free [OF ok] d put_fut_def Let_def ref_count_def)
  moreover have "arg_ok S ?t (removeAll k xs)"
    using ok f(2,3) v(4) by (auto simp: arg_ok_def nth_list_update)
  moreover have "arg_view S ?t j = (m(k := None)) j" for j
    using f(3) v(4) arg_repD(3) [OF rep]
    by (cases "j = k"; cases "value_at S (arg_nodes t) j") (auto simp: arg_view_def)
  ultimately show ?thesis using arg_repD(2) [OF rep] by (auto simp: arg_rep_def fun_eq_iff)
qed

lemma arg_poll_rep:
  assumes rep: "arg_rep S cap t m xs" and m: "m k = Some (f, r)"
    and p: "poll f k t w = Some (Inr (d, f', t2, w2))"
    and rep2: "arg_rep S cap t2 m2 ys" and m2: "m2 k = Some (f2, r2)"
  shows "\<exists>t3. arg_poll poll k t w = Some (Inr (d, t3, w2)) \<and> arg_rep S cap t3 (m2(k \<mapsto> (f', r2))) ys"
proof -
  obtain v2 where v2: "value_at S (arg_nodes t2) k = Some v2" "arg_futs t2 ! k = Some f2"
    "ew_refs (at_waker v2) = r2" "k < length (arg_futs t2)"
    using arg_rep_Some [OF rep2 m2] arg_repD(2) [OF rep2] by auto
  have "arg_poll poll k t w = Some (Inr (d, put_fut k (Some f') t2, w2))"
    using arg_rep_Some [OF rep m] p by (auto simp: arg_poll_def)
  moreover have "arg_view S (put_fut k (Some f') t2) j = (m2(k \<mapsto> (f', r2))) j" for j
    using v2 arg_repD(3) [OF rep2]
    by (auto simp: arg_view_def put_fut_def nth_list_update split: option.splits)
  ultimately show ?thesis
    using arg_put_fut_ok [OF arg_repD(1) [OF rep2] v2(2), of f'] arg_repD(2) [OF rep2]
    by (auto simp: arg_rep_def put_fut_def fun_eq_iff)
qed

interpretation arg_exec: task_executor "arg_vtable S" "\<lambda>k. k" cap "arg_rep S cap" "arg_begin S"
  arg_poll "arg_complete S" "arg_is_empty S" "arg_give S" for S cap
proof unfold_locales
  fix t :: "('a, 'b) arg_tasks" and m xs k f and r :: usize
  assume rep: "arg_rep S cap t m xs"
  show "finite (dom m) \<and> distinct xs \<and> set xs \<subseteq> dom m"
    using task_pool.used_view [OF queue_ok_rep [OF arg_ok_queue [OF arg_repD(1) [OF rep]]]]
      run_queue.rep_distinct [OF queue_ok_rep [OF arg_ok_queue [OF arg_repD(1) [OF rep]]]]
      queue_ok_member [OF arg_ok_queue [OF arg_repD(1) [OF rep]]] arg_rep_dom [OF rep] by auto
  show "arg_is_empty S t = Inr (m = Map.empty)"
    using queue_ok_empty_iff [OF arg_ok_queue [OF arg_repD(1) [OF rep]]] arg_rep_dom [OF rep]
    by (auto simp: arg_is_empty_def arg_ok_free [OF arg_repD(1) [OF rep]])
  show "\<exists>t'. vt_wake_by_ref (arg_vtable S) k t = Inr t' \<and> arg_rep S cap t' m (sched_wake k xs)"
    if "m k = Some a" for a
  proof -
    obtain f r where "a = (f, r)" by (cases a)
    with that obtain v where v: "value_at S (arg_nodes t) k = Some v" "ew_task_id (at_waker v) = k"
      using arg_rep_Some [OF rep, of k f r] by auto
    from arg_wake_ok [OF arg_repD(1) [OF rep] v(1)] obtain t' where t': "arg_wake S k t = Inr t'"
      "arg_ok S t' (sched_wake k xs)" "arg_keeps S t t'"
      "value_at S (arg_nodes t') = (value_at S (arg_nodes t))(k \<mapsto> v\<lparr>at_awake := True\<rparr>)" by blast
    have "vt_wake_by_ref (arg_vtable S) k t = Inr t'"
      using t'(1) v by (simp add: arg_vtable_def embed_vtable_def embed_wake_by_ref_def deref_def
          arg_wakers_get)
    moreover have "length (arg_futs t') = cap" using t'(3) arg_repD(2) [OF rep] by (simp add: arg_keeps_def)
    ultimately show ?thesis
      using t'(2) arg_view_wake [OF t'(3) v(1) t'(4)] arg_repD(3) [OF rep] by (auto simp: arg_rep_def)
  qed
  show "vt_wake (arg_vtable S) k t =
      and_then (vt_wake_by_ref (arg_vtable S) k t) (vt_drop (arg_vtable S) k)"
    by (simp add: arg_vtable_def embed_vtable_def embed_wake_def)
  show "\<exists>t'. vt_clone (arg_vtable S) k t = Inr (k, t') \<and> arg_rep S cap t' (m(k \<mapsto> (f, r + 1))) xs"
    if "m k = Some (f, r)"
    using arg_rep_Some [OF rep that] arg_rep_set_waker [OF rep that]
    by (auto simp: arg_vtable_def embed_vtable_def embed_clone_def deref_def arg_wakers_get)
  show "\<exists>t'. vt_drop (arg_vtable S) k t = Inr t' \<and> arg_rep S cap t' (m(k \<mapsto> (f, r - 1))) xs"
    if "m k = Some (f, r)" "1 < r"
    using arg_rep_Some [OF rep that(1)] arg_rep_set_waker [OF rep that(1)] that(2)
    by (auto simp: arg_vtable_def embed_vtable_def embed_drop_def deref_def arg_wakers_get Let_def)
  show "\<exists>k t'. arg_give S f t = Inr (Inr (), t') \<and> m k = None \<and>
      arg_rep S cap t' (m(k \<mapsto> (f, 1))) (xs @ [k])" if "card (dom m) < cap"
    by (rule arg_give_ok [OF rep that])
  show "arg_give S f t = Inr (Inl (), t)" if "card (dom m) = cap"
    using arg_add_full [OF arg_repD(1) [OF rep], of "\<lambda>t w. Inr (f, t, w)" "()"] that
      arg_rep_card [OF rep] arg_repD(2) [OF rep]
    by (simp add: arg_give_def)
next
  show "arg_begin S t = Inr (None, t)" if "arg_rep S cap t m []" for t :: "('a, 'b) arg_tasks" and m
    by (rule arg_begin_empty [OF arg_repD(1) [OF that]])
  show "\<exists>t1. arg_begin S t = Inr (Some k, t1) \<and> arg_rep S cap t1 m xs"
    if rep: "arg_rep S cap t m (k # xs)" for t :: "('a, 'b) arg_tasks" and m k xs
  proof -
    from arg_begin_front [OF arg_repD(1) [OF rep]] obtain t1 v where b: "arg_begin S t = Inr (Some k, t1)"
      "arg_ok S t1 xs" "arg_futs t1 = arg_futs t" "value_at S (arg_nodes t) k = Some v"
      "value_at S (arg_nodes t1) = (value_at S (arg_nodes t))(k \<mapsto> v\<lparr>at_awake := False\<rparr>)" by blast
    have "arg_keeps S t t1" using b(3-5) by (auto simp: arg_keeps_def)
    from arg_view_wake [OF this b(4,5)] b(1-3) arg_repD(2,3) [OF rep] show ?thesis
      by (auto simp: arg_rep_def)
  qed
qed (rule arg_poll_rep arg_complete_rep; assumption)+

interpretation arg_scripts: scripted_executor "arg_vtable S" "\<lambda>k. k" cap "arg_rep S cap" "arg_begin S"
  arg_poll "arg_complete S" "arg_is_empty S" "arg_give S" for S cap
  by unfold_locales

lemma arg_rep_new: "slab_ok S \<Longrightarrow> arg_rep S n (arg_tasks_new S n) Map.empty []"
  using arg_ok_new [of S n]
  by (simp add: arg_rep_def arg_view_def [abs_def] arg_tasks_new_def value_at_def slab_new)

subsection \<open>Running to the end\<close>

text \<open>Parking delivers events: it acts on the tasks as the futures do.\<close>

lemma arg_run_end:
  assumes b: "arg_behaved S poll drop_fut"
    and park: "\<And>t w r t' w'. park t w = Inr (r, t', w') \<Longrightarrow> (arg_step S)\<^sup>*\<^sup>* t t'"
    and run: "arg_run S poll drop_fut park t w = Some (Inr (t', w'))"
    and ok: "arg_ok S t xs"
  shows "arg_ok S t' [] \<and> value_at S (arg_nodes t') = Map.empty"
proof -
  have i: "arg_inv S poll drop_fut t xs" using b ok by (simp add: arg_inv_def)
  have keep: "\<exists>zs. arg_inv S poll drop_fut t' zs"
    if "arg_inv S poll drop_fut t []" "park t w = Inr (p, t', w')" for t w p t' w'
    using arg_steps_ok [OF park [OF that(2)]] that(1) by (auto simp: arg_inv_def)
  have "arg_inv S poll drop_fut t' [] \<and> arg_is_empty S t' = Inr True"
    by (rule arg_ends [OF run [unfolded arg_run_def] i]) (rule keep)
  then have ok': "arg_ok S t' []" and e: "arg_is_empty S t' = Inr True"
    by (simp_all add: arg_inv_def)
  from e have "slab_empty S (arg_nodes t')" by (auto simp: arg_is_empty_def res_iff)
  with queue_ok_empty_iff [OF arg_ok_queue [OF ok']] ok' show ?thesis by simp
qed

subsection \<open>Properties\<close>

text \<open>
  Futures for the witnesses: one that is done after a number of polls, between which it wakes
  itself, and nothing to do when it is dropped.
\<close>

definition yield_poll :: "('n, arg_task node) slab_ops \<Rightarrow> ('n, nat, unit) arg_poll" where
  "yield_poll S = (\<lambda>n k t w.
     if n = 0 then Some (Inr (True, 0, t, w))
     else run_then (Some (arg_wake S k t)) (\<lambda>t. Some (Inr (False, n - 1, t, w))))"

definition no_drop :: "nat \<Rightarrow> ('n, nat) arg_tasks \<Rightarrow> unit \<Rightarrow> (('n, nat) arg_tasks \<times> unit) res" where
  "no_drop = (\<lambda>_ t w. Inr (t, w))"

lemma yield_behaved: "arg_behaved S (yield_poll S) no_drop"
  unfolding arg_behaved_def
proof (intro conjI allI impI)
  fix f k t w d f' t' w'
  assume "yield_poll S f k t w = Some (Inr (d, f', t', w'))"
  then have "t' = t \<or> arg_wake S k t = Inr t'"
    by (auto simp: yield_poll_def res_iff split: if_splits)
  then show "(arg_step S)\<^sup>*\<^sup>* t t'" by (auto intro: step_wake)
qed (simp add: no_drop_def)

definition arg_weight :: "('f \<Rightarrow> nat) \<Rightarrow> ('n, 'f) arg_tasks \<Rightarrow> nat" where
  "arg_weight left t = sum_list (map (case_option 0 (\<lambda>f. Suc (left f))) (arg_futs t))"

definition arg_unshared :: "('n, arg_task node) slab_ops \<Rightarrow> ('n, 'f) arg_tasks \<Rightarrow> bool" where
  "arg_unshared S t \<longleftrightarrow> (\<forall>k v. value_at S (arg_nodes t) k = Some v \<longrightarrow> ew_refs (at_waker v) = 1)"

definition arg_all_awake :: "('n, arg_task node) slab_ops \<Rightarrow> ('n, 'f) arg_tasks \<Rightarrow> bool" where
  "arg_all_awake S t \<longleftrightarrow> (\<forall>k v. value_at S (arg_nodes t) k = Some v \<longrightarrow> at_awake v)"

lemma arg_weight_update:
  assumes "k < length (arg_futs t)" and "arg_futs t ! k = Some f"
  shows "arg_weight left (put_fut k g t) + Suc (left f) =
    arg_weight left t + (case g of None \<Rightarrow> 0 | Some f' \<Rightarrow> Suc (left f'))"
proof -
  let ?h = "case_option 0 (\<lambda>f. Suc (left f))"
  have "map ?h (arg_futs t) ! k = Suc (left f)" using assms by simp
  moreover have "map ?h (arg_futs t) ! k \<le> sum_list (map ?h (arg_futs t))"
    by (rule elem_le_sum_list) (simp add: assms(1))
  ultimately show ?thesis
    using assms(1) sum_list_update [of k "map ?h (arg_futs t)" "?h g"]
    by (simp add: arg_weight_def put_fut_def map_update)
qed

lemma arg_weight_cong: "arg_futs t' = arg_futs t \<Longrightarrow> arg_weight left t' = arg_weight left t"
  by (simp add: arg_weight_def)

lemma arg_complete_returns:
  assumes ok: "arg_ok S t xs" and k: "k < length (arg_futs t)" and f: "arg_futs t ! k = Some f"
    and d: "drop_fut f (t\<lparr>cell_borrowed := True\<rparr>) w = Inr (t\<lparr>cell_borrowed := True\<rparr>, w2)"
    and v: "value_at S (arg_nodes t) k = Some v" and one: "ew_refs (at_waker v) = 1"
  shows "\<exists>t'. arg_complete S drop_fut k t w = Inr (t', w2) \<and> arg_futs t' = (arg_futs t)[k := None] \<and>
    value_at S (arg_nodes t') = (value_at S (arg_nodes t))(k := None)"
proof -
  obtain n where n: "im_get S (arg_nodes t) k = Some n" "nd_value n = v"
    using v by (auto simp: value_at_Some_iff)
  obtain nxt' nodes' where "free_nodes S k (ad_next (cell_data t)) (arg_nodes t) = Inr (nxt', nodes')"
      "value_at S nodes' = (value_at S (arg_nodes t))(k := None)"
    using arg_task.free_ok [OF arg_ok_queue [OF ok] v] by blast
  with n k f d one show ?thesis
    by (simp add: arg_complete_def arg_ok_free [OF ok] put_fut_def Let_def ref_count_def)
qed

lemma yield_turn:
  assumes ok: "arg_ok S t (k # xs)" and u: "arg_unshared S t" and aw: "arg_all_awake S t"
    and b: "arg_begin S t = Inr (Some k, t1)"
  shows "\<exists>t2. arg_turn S (yield_poll S) no_drop k t1 w = Some (Inr (t2, w)) \<and> arg_unshared S t2 \<and>
    arg_all_awake S t2 \<and>
    arg_weight id t2 < arg_weight id t"
proof -
  from arg_begin_front [OF ok] b obtain v where ok1: "arg_ok S t1 xs"
    and k: "k < length (arg_futs t1)" and futs: "arg_futs t1 = arg_futs t"
    and v: "value_at S (arg_nodes t) k = Some v"
    and v1: "value_at S (arg_nodes t1) = (value_at S (arg_nodes t))(k \<mapsto> v\<lparr>at_awake := False\<rparr>)"
    by auto
  obtain n where n: "arg_futs t1 ! k = Some n" using arg_ok_fut [OF ok1 k] v1 by auto
  have u1: "arg_unshared S t1" using u v v1 by (auto simp: arg_unshared_def)
  show ?thesis
  proof (cases n)
    case 0
    let ?t = "put_fut k (Some 0) t1"
    have ok2: "arg_ok S ?t xs" by (rule arg_put_fut_ok [OF ok1 n])
    have t: "arg_nodes ?t = arg_nodes t1" "k < length (arg_futs ?t)" "arg_futs ?t ! k = Some 0"
      using k by (simp_all add: put_fut_def)
    have v1k: "value_at S (arg_nodes ?t) k = Some (v\<lparr>at_awake := False\<rparr>)" using v1 t(1) by simp
    have "ew_refs (at_waker (v\<lparr>at_awake := False\<rparr>)) = 1" using u v by (simp add: arg_unshared_def)
    from arg_complete_returns [OF ok2 t(2,3) _ v1k this, of no_drop w w] obtain t2
      where c: "arg_complete S no_drop k ?t w = Inr (t2, w)"
        "arg_futs t2 = (arg_futs ?t)[k := None]"
        "value_at S (arg_nodes t2) = (value_at S (arg_nodes ?t))(k := None)"
      by (auto simp: no_drop_def)
    have "arg_futs t2 = arg_futs (put_fut k None t1)" using c(2) by (simp add: put_fut_def)
    from arg_weight_cong [OF this, of id] arg_weight_update [OF k n, of id None]
    have "arg_weight id t2 < arg_weight id t"
      using arg_weight_cong [OF futs, of id] by simp
    moreover have "arg_unshared S t2" using u1 c(3) t(1) by (auto simp: arg_unshared_def)
    moreover have "arg_all_awake S t2"
      using aw c(3) t(1) v1 by (auto simp: arg_all_awake_def split: if_splits)
    ultimately show ?thesis
      using c(1) n 0 by (simp add: turn_def arg_poll_def yield_poll_def)
  next
    case (Suc m)
    from arg_wake_ok [OF ok1, of k] v1 obtain t2 where w: "arg_wake S k t1 = Inr t2"
      "arg_keeps S t1 t2"
      "value_at S (arg_nodes t2) = (value_at S (arg_nodes t1))(k \<mapsto> v\<lparr>at_awake := True\<rparr>)"
      by auto
    have f2: "arg_futs t2 = arg_futs t1"
      using w(1) by (auto simp: arg_wake_def with_borrow_def res_iff)
    have "arg_unshared S t2" using u1 u v w(3) by (auto simp: arg_unshared_def)
    then have "arg_unshared S (put_fut k (Some m) t2)" by (simp add: arg_unshared_def put_fut_def)
    moreover have "arg_all_awake S (put_fut k (Some m) t2)"
      using aw v1 w(3) by (auto simp: arg_all_awake_def put_fut_def split: if_splits)
    moreover have "arg_weight id (put_fut k (Some m) t2) < arg_weight id t"
      using arg_weight_update [of k t2 n id "Some m"] k n f2 futs Suc
        arg_weight_cong [OF f2, of id] arg_weight_cong [OF futs, of id] by simp
    ultimately show ?thesis
      using w(1) n Suc by (auto simp: turn_def arg_poll_def yield_poll_def)
  qed
qed

lemma yield_returns:
  assumes "arg_ok S t xs" and "arg_unshared S t" and "arg_all_awake S t"
  shows "\<exists>t'. arg_process_next S (yield_poll S) no_drop t () = Some (Inr (t', ())) \<and> arg_ok S t' [] \<and>
    value_at S (arg_nodes t') = Map.empty"
proof -
  let ?G = "\<lambda>t (_ :: unit). arg_unshared S t \<and> arg_all_awake S t"
  have i: "arg_inv S (yield_poll S) no_drop t xs"
    using assms(1) by (simp add: arg_inv_def yield_behaved)
  have g: "?G t ()" using assms(2,3) by simp
  have "\<exists>t' w'. arg_process_next S (yield_poll S) no_drop t () = Some (Inr (t', w')) \<and> ?G t' w' \<and>
      arg_inv S (yield_poll S) no_drop t' []"
  proof (rule arg_returns [where G = ?G and m = "\<lambda>t _. arg_weight id t", OF i g])
    fix t w k xs t1
    assume "arg_inv S (yield_poll S) no_drop t (k # xs)" "?G t w"
      "arg_begin S t = Inr (Some k, t1)"
    with yield_turn [of S t k xs t1 w]
    show "\<exists>t2 w2. arg_turn S (yield_poll S) no_drop k t1 w = Some (Inr (t2, w2)) \<and> ?G t2 w2 \<and>
        arg_weight id t2 < arg_weight id t"
      by (auto simp: arg_inv_def)
  qed
  then obtain t' where p: "arg_process_next S (yield_poll S) no_drop t () = Some (Inr (t', ()))"
    "arg_all_awake S t'" "arg_ok S t' []" by (auto simp: arg_inv_def)
  have "value_at S (arg_nodes t') k = None" for k
    using p(2) arg_ok_queue [OF p(3)] by (cases "value_at S (arg_nodes t') k")
      (auto simp: arg_all_awake_def queue_ok_def)
  then have "value_at S (arg_nodes t') = Map.empty" by (rule ext)
  with p show ?thesis by blast
qed

text \<open>An executor of two slots with one task that yields three times.\<close>

definition two_slots :: "(arg_task node vslab, nat) arg_tasks" where
  "two_slots = arg_tasks_new vec_slab 2"

lemma arg_one_task:
  "\<exists>t. arg_add vec_slab (\<lambda>t w. Inr (3 :: nat, t, w)) two_slots () = Inr (Inr (), t, ()) \<and>
     arg_ok vec_slab t [0] \<and> arg_unshared vec_slab t \<and> arg_all_awake vec_slab t \<and>
     value_at vec_slab (arg_nodes t) = [0 \<mapsto> arg_new_task 0]"
proof -
  let ?t = two_slots
  have n: "value_at vec_slab (arg_nodes ?t) = Map.empty" "slab_len vec_slab (arg_nodes ?t) = 0"
    "length (arg_futs ?t) = 2" "vacant_key vec_slab (arg_nodes ?t) = 0"
    by (auto simp: two_slots_def arg_tasks_new_def value_at_def vec_slab_def slot_def)
  have "arg_ok vec_slab ?t []" by (simp add: two_slots_def arg_ok_new)
  from arg_add_ok [OF this, of "\<lambda>t w. Inr (3 :: nat, t, w)" "()"] n
  obtain k t where a: "arg_add vec_slab (\<lambda>t w. Inr (3 :: nat, t, w)) ?t () = Inr (Inr (), t, ())"
      "arg_ok vec_slab t [k]" "value_at vec_slab (arg_nodes t) = [k \<mapsto> arg_new_task k]"
    by auto
  have "k = 0"
  proof -
    have "\<exists>v. value_at vec_slab (arg_nodes t) 0 = Some v"
      using a(1) n(4)
      by (auto simp: two_slots_def arg_add_def arg_tasks_new_def add_nodes_def vec_slab_def fill_slot_def
          list_push_back_def list_insert_def list_default_def Let_def slot_def res_iff put_fut_def
          value_at_def)
    then show ?thesis using a(3) by (auto split: if_splits)
  qed
  with a show ?thesis
    by (auto simp: arg_unshared_def arg_all_awake_def arg_new_task_def embed_waker_new_def)
qed

lemma arg_two_tasks:
  "\<exists>t :: (arg_task node vslab, nat) arg_tasks. arg_ok vec_slab t [0, 1] \<and> arg_unshared vec_slab t \<and> arg_all_awake vec_slab t \<and>
     length (arg_futs t) = 2"
proof -
  obtain t :: "(arg_task node vslab, nat) arg_tasks"
    where t: "arg_ok vec_slab t [0]" "arg_unshared vec_slab t" "arg_all_awake vec_slab t"
      "value_at vec_slab (arg_nodes t) = [0 \<mapsto> arg_new_task 0]" "length (arg_futs t) = 2"
    and one: "arg_add vec_slab (\<lambda>t w. Inr (3, t, w)) two_slots () = Inr (Inr (), t, ())"
    using arg_one_task
    by (fastforce simp: arg_add_def two_slots_def arg_tasks_new_def res_iff put_fut_def Let_def
        split: option.splits)
  have "slab_len vec_slab (arg_nodes t) = 1"
    using task_pool.used_view [OF queue_ok_rep [OF arg_ok_queue [OF t(1)]]] t(4) by simp
  with t(5) arg_add_ok [OF t(1), of "\<lambda>t w. Inr (3 :: nat, t, w)" "()"]
  obtain k and t' :: "(arg_task node vslab, nat) arg_tasks"
    where a: "arg_ok vec_slab t' [0, k]"
      "value_at vec_slab (arg_nodes t') = [0 \<mapsto> arg_new_task 0, k \<mapsto> arg_new_task k]"
      "length (arg_futs t') = 2" "value_at vec_slab (arg_nodes t) k = None"
    using t(4) by auto
  have "k < 2" using arg_ok_queue [OF a(1)] a(2,3) by (auto simp: queue_ok_def)
  moreover have "k \<noteq> 0" using a(4) t(4) by (auto split: if_splits)
  ultimately have "k = 1" by simp
  with a show ?thesis
    by (intro exI [of _ t'])
      (auto simp: arg_unshared_def arg_all_awake_def arg_new_task_def embed_waker_new_def
        split: if_splits)
qed

text \<open>
  C12. When \<open>process_next\<close> of the executor without boxes returns, the run queue is empty and no
  stored task is awake, whatever the futures did meanwhile: no wakeup is lost.
\<close>

theorem arg_no_lost_wakeup:
  assumes "arg_behaved S poll drop_fut" and "arg_ok S t xs"
    and "arg_process_next S poll drop_fut t w = Some (Inr (t', w'))"
  shows "arg_ok S t' [] \<and> l_head (ad_next (cell_data t')) = None \<and>
    (\<forall>k v. value_at S (arg_nodes t') k = Some v \<longrightarrow> \<not> at_awake v)"
proof -
  have ok: "arg_ok S t' []"
    using arg_drains [OF assms(3), of xs] assms(1,2) by (simp add: arg_inv_def)
  have "l_head (ad_next (cell_data t')) = None"
    using run_queue.front_rep [OF queue_ok_rep [OF arg_ok_queue [OF ok]]] by simp
  moreover have "\<not> at_awake v" if "value_at S (arg_nodes t') k = Some v" for k v
    using arg_ok_queue [OF ok] that by (simp add: queue_ok_def)
  ultimately show ?thesis using ok by blast
qed

theorem arg_no_lost_wakeup_witness:
  "\<exists>t t'. arg_add vec_slab (\<lambda>t w. Inr (3, t, w)) two_slots () = Inr (Inr (), t, ()) \<and>
    arg_process_next vec_slab (yield_poll vec_slab) no_drop t () = Some (Inr (t', ())) \<and>
    l_head (ad_next (cell_data t')) = None"
proof -
  from arg_one_task obtain t where t: "arg_add vec_slab (\<lambda>t w. Inr (3, t, w)) two_slots () =
      Inr (Inr (), t, ())" "arg_ok vec_slab t [0]" "arg_unshared vec_slab t" "arg_all_awake vec_slab t"
    by blast
  from yield_returns [OF t(2-4)] obtain t'
    where "arg_process_next vec_slab (yield_poll vec_slab) no_drop t () = Some (Inr (t', ()))" by blast
  with arg_no_lost_wakeup [OF yield_behaved t(2) this] t(1) show ?thesis by blast
qed

text \<open>
  C13. When \<open>run\<close> of the executor without boxes returns, every task was completed: none is
  stored, its slot in the vector is uninitialised again and nothing is borrowed.
\<close>

theorem arg_run_completes:
  assumes "arg_behaved S poll drop_fut"
    and "\<And>t w r t' w'. park t w = Inr (r, t', w') \<Longrightarrow> (arg_step S)\<^sup>*\<^sup>* t t'"
    and "arg_ok S t xs" and "arg_run S poll drop_fut park t w = Some (Inr (t', w'))"
  shows "arg_is_empty S t' = Inr True \<and> set (arg_futs t') \<subseteq> {None}"
proof -
  from arg_run_end [OF assms(1,2,4,3)] have ok: "arg_ok S t' []"
    and e: "value_at S (arg_nodes t') = Map.empty" by auto
  from queue_ok_empty_iff [OF arg_ok_queue [OF ok]] e have "arg_is_empty S t' = Inr True"
    by (simp add: arg_is_empty_def arg_ok_free [OF ok])
  moreover have "arg_futs t' ! i = None" if "i < length (arg_futs t')" for i
    using arg_ok_fut [OF ok that] e by simp
  ultimately show ?thesis by (auto simp: in_set_conv_nth)
qed

theorem arg_run_completes_witness:
  "\<exists>t t'. arg_add vec_slab (\<lambda>t w. Inr (3, t, w)) two_slots () = Inr (Inr (), t, ()) \<and>
    arg_run vec_slab (yield_poll vec_slab) no_drop (\<lambda>t w. Inr (Inr () :: unit + unit, t, w)) t () =
      Some (Inr (t', ())) \<and> set (arg_futs t') \<subseteq> {None}"
proof -
  let ?park = "\<lambda>t w. Inr (Inr () :: unit + unit, t, w)"
  from arg_one_task obtain t where t: "arg_add vec_slab (\<lambda>t w. Inr (3, t, w)) two_slots () =
      Inr (Inr (), t, ())" "arg_ok vec_slab t [0]" "arg_unshared vec_slab t" "arg_all_awake vec_slab t"
    by blast
  from yield_returns [OF t(2-4)] obtain t'
    where p: "arg_process_next vec_slab (yield_poll vec_slab) no_drop t () = Some (Inr (t', ()))"
      "arg_ok vec_slab t' []" "value_at vec_slab (arg_nodes t') = Map.empty" by blast
  have "arg_is_empty vec_slab t' = Inr True"
    using queue_ok_empty_iff [OF arg_ok_queue [OF p(2)]] p(3)
    by (simp add: arg_is_empty_def arg_ok_free [OF p(2)])
  with p(1) have r: "arg_run vec_slab (yield_poll vec_slab) no_drop ?park t () = Some (Inr (t', ()))"
    by (simp add: arg_run_def executor_run.simps)
  from arg_run_completes [OF yield_behaved _ t(2) r] t(1) r show ?thesis by auto
qed

text \<open>
  C19. \<open>process_next\<close> returns, and polls in rounds. From a queue of futures whose scripts are
  known it polls them in the order of the queue, one that woke itself again after all the others
  and one that did not wake itself not at all until somebody does; each is dropped once, right
  after the poll that finished it. What is left are the tasks that sleep.
\<close>

theorem arg_process_rounds:
  assumes "arg_rep S cap t (s ++ queued q) (map fst q)" and "dom s \<inter> fst ` set q = {}"
  shows "case rounds q s log of (s', log') \<Rightarrow> \<exists>t'.
    arg_process_next S (scripted_poll (arg_vtable S)) scripted_drop t log = Some (Inr (t', log')) \<and>
    arg_rep S cap t' s' []"
  unfolding arg_process_next_def by (rule arg_scripts.process_rounds [OF assms])

theorem arg_process_rounds_witness:
  "\<exists>t1 t2 t3. arg_give vec_slab (''a'', [True]) (arg_tasks_new vec_slab 2) = Inr (Inr (), t1) \<and>
    arg_give vec_slab (''b'', []) t1 = Inr (Inr (), t2) \<and>
    arg_process_next vec_slab (scripted_poll (arg_vtable vec_slab)) scripted_drop t2 [] =
      Some (Inr (t3, [Polled ''a'', Polled ''b'', Dropped ''b'', Polled ''a'', Dropped ''a'']))"
proof -
  obtain k j t1 t2 where g: "arg_give vec_slab (''a'', [True]) (arg_tasks_new vec_slab 2) = Inr (Inr (), t1)"
    "arg_give vec_slab (''b'', []) t1 = Inr (Inr (), t2)"
    and r: "arg_rep vec_slab 2 t2 (queued [(k, ''a'', [True]), (j, ''b'', [])]) [k, j]"
    using arg_exec.spawn_two [OF arg_rep_new [OF vec_slab_ok], of 2 "(''a'', [True])" "(''b'', [])"]
    by auto
  from arg_process_rounds [of vec_slab 2 t2 Map.empty "[(k, ''a'', [True]), (j, ''b'', [])]" "[]"] r g
  show ?thesis by auto
qed

text \<open>
  C21. Waking a stored task puts it at the end of the queue unless it is queued already, so that
  any number of wakes before its next poll polls it once; the other tasks keep their places,
  and no future is touched. Waking a task that is not stored panics.
\<close>

theorem arg_wake_schedules:
  assumes "arg_ok S t xs"
  shows "case value_at S (arg_nodes t) k of
     None \<Rightarrow> arg_wake S k t = Inl Index_panic
   | Some v \<Rightarrow> \<exists>t'. arg_wake S k t = Inr t' \<and> arg_ok S t' (if k \<in> set xs then xs else xs @ [k]) \<and>
       arg_futs t' = arg_futs t \<and> (\<exists>t''. arg_wake S k t' = Inr t'' \<and> arg_ok S t'' (sched_wake k xs))"
proof (cases "value_at S (arg_nodes t) k")
  case None
  with arg_wake_missing [OF assms] show ?thesis by simp
next
  case (Some v)
  obtain t' where t': "arg_wake S k t = Inr t'" "arg_ok S t' (sched_wake k xs)"
      "value_at S (arg_nodes t') k = Some (v\<lparr>at_awake := True\<rparr>)"
    using arg_wake_ok [OF assms Some] by auto
  have "arg_futs t' = arg_futs t"
    using t'(1) by (auto simp: arg_wake_def with_borrow_def res_iff)
  with t' arg_wake_ok [OF t'(2,3)] Some show ?thesis by (auto simp: sched_wake_def)
qed

theorem arg_wake_schedules_witness:
  "arg_wake vec_slab 1 two_slots = Inl Index_panic \<and>
   (\<exists>(t :: (arg_task node vslab, nat) arg_tasks) t1 t2. arg_ok vec_slab t [0, 1] \<and> arg_begin vec_slab t = Inr (Some 0, t1) \<and>
      arg_wake vec_slab 0 t1 = Inr t2 \<and> arg_ok vec_slab t2 [1, 0])"
proof
  have "arg_ok vec_slab two_slots []" by (simp add: two_slots_def arg_ok_new)
  moreover have "value_at vec_slab (arg_nodes two_slots) 1 = None"
    by (simp add: two_slots_def arg_tasks_new_def value_at_def vec_slab_def slot_def)
  ultimately show "arg_wake vec_slab 1 two_slots = Inl Index_panic"
    using arg_wake_schedules [of vec_slab two_slots "[]" 1] by simp
next
  obtain t :: "(arg_task node vslab, nat) arg_tasks" where t: "arg_ok vec_slab t [0, 1]"
    using arg_two_tasks by blast
  from arg_begin_front [OF this] obtain t1 v where "arg_begin vec_slab t = Inr (Some 0, t1)"
    "arg_ok vec_slab t1 [1]" "value_at vec_slab (arg_nodes t1) 0 = Some v" by auto
  with t arg_wake_schedules [of vec_slab t1 "[1]" 0]
  show "\<exists>(t :: (arg_task node vslab, nat) arg_tasks) t1 t2. arg_ok vec_slab t [0, 1] \<and>
      arg_begin vec_slab t = Inr (Some 0, t1) \<and> arg_wake vec_slab 0 t1 = Inr t2 \<and> arg_ok vec_slab t2 [1, 0]" by auto
qed

text \<open>
  C22. Spawning on the executor without boxes fails exactly when all its slots are taken, and
  then changes nothing; otherwise the new task is stored at a free slot below the capacity,
  awake and last in the queue.
\<close>

theorem arg_spawn_capacity:
  assumes "arg_ok S t xs" and "\<And>a t w. spawn_fn a t w = Inr (mk a, t, w)"
  shows "if slab_len S (arg_nodes t) = length (arg_futs t)
     then arg_spawn S spawn_fn a t w = Inr (Inl (), t, w)
     else \<exists>k t'. arg_spawn S spawn_fn a t w = Inr (Inr (), t', w) \<and> k < length (arg_futs t) \<and>
       arg_futs t ! k = None \<and> arg_futs t' = (arg_futs t)[k := Some (mk a)] \<and> arg_ok S t' (xs @ [k])"
proof (cases "slab_len S (arg_nodes t) = length (arg_futs t)")
  case True
  with arg_add_full [OF assms(1) True] show ?thesis by (simp add: arg_spawn_def)
next
  case False
  with queue_ok_len [OF arg_ok_queue [OF assms(1)]]
  have "slab_len S (arg_nodes t) < length (arg_futs t)" by simp
  from arg_add_ok [OF assms(1) this, of "spawn_fn a" w] assms(2) obtain k f w' t'
    where a: "arg_add S (spawn_fn a) t w = Inr (Inr (), t', w')"
      "value_at S (arg_nodes t) k = None" "arg_ok S t' (xs @ [k])"
      "value_at S (arg_nodes t') = (value_at S (arg_nodes t))(k \<mapsto> arg_new_task k)"
      "arg_futs t' = (arg_futs t)[k := Some f]" "w' = w" "f = mk a"
    by auto
  have k: "k < length (arg_futs t)"
    using arg_ok_queue [OF a(3)] a(4,5) by (auto simp: queue_ok_def)
  with a k arg_ok_fut [OF assms(1) k] False show ?thesis by (auto simp: arg_spawn_def)
qed

theorem arg_spawn_capacity_witness:
  "\<exists>t'. arg_spawn vec_slab (\<lambda>a t w. Inr (a + 1, t, w)) 2 two_slots () = Inr (Inr (), t', ()) \<and>
    Some 3 \<in> set (arg_futs t')"
proof -
  have ok: "arg_ok vec_slab two_slots []" by (simp add: two_slots_def arg_ok_new)
  have "slab_len vec_slab (arg_nodes two_slots) \<noteq> length (arg_futs two_slots)"
    by (simp add: two_slots_def arg_tasks_new_def vec_slab_def)
  with arg_spawn_capacity [OF ok, of "\<lambda>a t w. Inr (a + 1, t, w)" "\<lambda>a. a + 1" 2 "()"]
  obtain k t' where "arg_spawn vec_slab (\<lambda>a t w. Inr (a + 1, t, w)) 2 two_slots () =
      Inr (Inr (), t', ())" "k < length (arg_futs two_slots)"
      "arg_futs t' = (arg_futs two_slots)[k := Some 3]" by auto
  then show ?thesis using set_update_memI [of k "arg_futs two_slots" "Some 3"] by auto
qed

text \<open>
  C23. The tasks are polled in the order of the queue: whatever the task in front does in its
  turn, the one behind it is next, and the rest of the queue follows in its order.
\<close>

theorem arg_polls_in_order:
  assumes "arg_behaved S poll drop_fut" and "arg_ok S t (k # j # xs)"
    and "arg_begin S t = Inr (Some k, t1)"
    and "arg_turn S poll drop_fut k t1 w = Some (Inr (t2, w2))"
  shows "\<exists>t3 zs. arg_begin S t2 = Inr (Some j, t3) \<and> arg_ok S t3 (xs @ zs)"
  using arg_loop.next_turn [OF _ assms(3,4), of j xs] assms(1,2) by (simp add: arg_inv_def)

theorem arg_polls_in_order_witness:
  "\<exists>t t1 t2 t3. arg_ok vec_slab t [0, 1] \<and> arg_begin vec_slab t = Inr (Some 0, t1) \<and>
    arg_turn vec_slab (yield_poll vec_slab) no_drop 0 t1 () = Some (Inr (t2, ())) \<and>
    arg_begin vec_slab t2 = Inr (Some 1, t3)"
proof -
  obtain t :: "(arg_task node vslab, nat) arg_tasks" where t: "arg_ok vec_slab t [0, 1]" "arg_unshared vec_slab t" "arg_all_awake vec_slab t"
    using arg_two_tasks by blast
  obtain t1 where b: "arg_begin vec_slab t = Inr (Some 0, t1)" using arg_begin_front [OF t(1)] by auto
  from yield_turn [OF t b, of "()"] obtain t2
    where tn: "arg_turn vec_slab (yield_poll vec_slab) no_drop 0 t1 () = Some (Inr (t2, ()))" by blast
  from arg_polls_in_order [OF yield_behaved t(1) b tn] t(1) b tn show ?thesis by blast
qed

text \<open>
  C24. The executor without boxes runs foreign code while its tasks are borrowed: a spawn
  function that wakes or spawns a task, and a future that wakes or spawns a task when it is
  dropped after its completion, panic in the \<open>RefCell\<close>.
\<close>

theorem arg_reentry_panics:
  assumes "arg_ok S t xs"
  shows "(slab_len S (arg_nodes t) < length (arg_futs t) \<longrightarrow>
      arg_spawn S (\<lambda>a t w. and_then (arg_wake S j t) (\<lambda>t. Inr (a, t, w))) f t w = Inl Borrow_panic \<and>
      arg_spawn S (\<lambda>a t w. and_then (arg_add S (\<lambda>t w. Inr (a, t, w)) t w) (\<lambda>(_, t, w). Inr (a, t, w)))
        f t w = Inl Borrow_panic) \<and>
    (value_at S (arg_nodes t) k \<noteq> None \<longrightarrow>
      arg_complete S (\<lambda>f t w. and_then (arg_wake S j t) (\<lambda>t. Inr (t, w))) k t w = Inl Borrow_panic \<and>
      arg_complete S (\<lambda>f t w. and_then (arg_spawn S (\<lambda>a t w. Inr (a, t, w)) g t w) (\<lambda>(_, t, w). Inr (t, w)))
        k t w = Inl Borrow_panic)"
proof (intro conjI impI)
  assume room: "slab_len S (arg_nodes t) < length (arg_futs t)"
  from arg_task.add_ok [OF arg_ok_queue [OF assms] _ room,
      of "\<lambda>key. \<lparr>at_waker = embed_waker_new key, at_awake = True\<rparr>"]
  obtain key nxt nodes where add: "add_nodes S (\<lambda>key. \<lparr>at_waker = embed_waker_new key, at_awake = True\<rparr>)
      (ad_next (cell_data t)) (arg_nodes t) = Inr (Some (key, nxt, nodes))" "key < length (arg_futs t)"
    by auto
  then show "arg_spawn S (\<lambda>a t w. and_then (arg_wake S j t) (\<lambda>t. Inr (a, t, w))) f t w = Inl Borrow_panic"
    by (simp add: arg_spawn_def arg_add_def arg_ok_free [OF assms] Let_def arg_wake_def with_borrow_def)
  show "arg_spawn S (\<lambda>a t w. and_then (arg_add S (\<lambda>t w. Inr (a, t, w)) t w) (\<lambda>(_, t, w). Inr (a, t, w)))
      f t w = Inl Borrow_panic"
    unfolding arg_spawn_def
    by (subst arg_add_def) (simp add: add arg_ok_free [OF assms] Let_def, simp add: arg_add_def)
next
  assume stored: "value_at S (arg_nodes t) k \<noteq> None"
  have k: "k < length (arg_futs t)"
    using arg_ok_queue [OF assms] stored by (auto simp: queue_ok_def)
  then obtain h where "arg_futs t ! k = Some h" using arg_ok_fut [OF assms k] stored by auto
  note drop = arg_complete_def arg_ok_free [OF assms] k this
  show "arg_complete S (\<lambda>f t w. and_then (arg_wake S j t) (\<lambda>t. Inr (t, w))) k t w = Inl Borrow_panic"
    by (simp add: drop arg_wake_def with_borrow_def)
  show "arg_complete S (\<lambda>f t w. and_then (arg_spawn S (\<lambda>a t w. Inr (a, t, w)) g t w) (\<lambda>(_, t, w). Inr (t, w)))
      k t w = Inl Borrow_panic"
    by (simp add: drop arg_spawn_def arg_add_def)
qed

theorem arg_reentry_panics_witness:
  "arg_spawn vec_slab (\<lambda>a t w. and_then (arg_wake vec_slab 0 t) (\<lambda>t. Inr (a, t, w))) (3 :: nat)
     two_slots () = Inl Borrow_panic \<and>
   (\<exists>t. arg_ok vec_slab t [0, 1] \<and>
     arg_complete vec_slab (\<lambda>f t w. and_then (arg_wake vec_slab 1 t) (\<lambda>t. Inr (t, w))) 0 t () =
       Inl Borrow_panic \<and>
     arg_complete vec_slab (\<lambda>f t w. and_then (arg_spawn vec_slab (\<lambda>a t w. Inr (a, t, w)) (3 :: nat) t w)
       (\<lambda>(_, t, w). Inr (t, w))) 0 t () = Inl Borrow_panic)"
proof
  have ok: "arg_ok vec_slab two_slots []" by (simp add: two_slots_def arg_ok_new)
  have room: "slab_len vec_slab (arg_nodes two_slots) < length (arg_futs two_slots)"
    by (simp add: two_slots_def arg_tasks_new_def vec_slab_def)
  show "arg_spawn vec_slab (\<lambda>a t w. and_then (arg_wake vec_slab 0 t) (\<lambda>t. Inr (a, t, w))) (3 :: nat)
     two_slots () = Inl Borrow_panic"
    by (rule arg_reentry_panics [OF ok, THEN conjunct1, rule_format, OF room, THEN conjunct1])
next
  obtain t :: "(arg_task node vslab, nat) arg_tasks" where t: "arg_ok vec_slab t [0, 1]"
    using arg_two_tasks by blast
  have "value_at vec_slab (arg_nodes t) 0 \<noteq> None"
    using queue_ok_member [OF arg_ok_queue [OF t], of 0] by auto
  note drops = arg_reentry_panics [OF t, THEN conjunct2, rule_format, OF this, of 1 "()" 3]
  show "\<exists>t. arg_ok vec_slab t [0, 1] \<and>
     arg_complete vec_slab (\<lambda>f t w. and_then (arg_wake vec_slab 1 t) (\<lambda>t. Inr (t, w))) 0 t () =
       Inl Borrow_panic \<and>
     arg_complete vec_slab (\<lambda>f t w. and_then (arg_spawn vec_slab (\<lambda>a t w. Inr (a, t, w)) (3 :: nat) t w)
       (\<lambda>(_, t, w). Inr (t, w))) 0 t () = Inl Borrow_panic"
    by (rule exI [of _ t], rule conjI [OF t drops])
qed

text \<open>
  C20. A completed task is freed only when nobody holds a clone of its waker: \<open>process_next\<close>
  panics otherwise, so that no waker ever points to a task that is gone. When it is freed, its
  slot is free again and it is out of the queue, even if it woke itself before it was done.
\<close>

theorem arg_complete_checks_wakers:
  assumes "arg_ok S t xs" and "value_at S (arg_nodes t) k = Some v"
    and "\<And>f t w. drop_fut f t w = Inr (t, w)"
  shows "if ew_refs (at_waker v) = 1
     then \<exists>t'. arg_complete S drop_fut k t w = Inr (t', w) \<and> arg_ok S t' (removeAll k xs) \<and>
       arg_futs t' = (arg_futs t)[k := None] \<and>
       value_at S (arg_nodes t') = (value_at S (arg_nodes t))(k := None)
     else arg_complete S drop_fut k t w = Inl Assert_panic"
proof -
  have k: "k < length (arg_futs t)"
    using arg_ok_queue [OF assms(1)] assms(2) by (auto simp: queue_ok_def)
  then obtain f where f: "arg_futs t ! k = Some f" using arg_ok_fut [OF assms(1) k] assms(2) by auto
  obtain n where n: "im_get S (arg_nodes t) k = Some n" "nd_value n = v"
    using assms(2) by (auto simp: value_at_Some_iff)
  show ?thesis
  proof (cases "ew_refs (at_waker v) = 1")
    case True
    from arg_complete_returns [where drop_fut = drop_fut and w = w and ?w2.0 = w,
        OF assms(1) k f assms(3) assms(2) True] obtain t'
      where c: "arg_complete S drop_fut k t w = Inr (t', w)" "arg_futs t' = (arg_futs t)[k := None]"
        "value_at S (arg_nodes t') = (value_at S (arg_nodes t))(k := None)" by blast
    have "arg_ok S t' ([] @ removeAll k xs)"
      by (rule arg_complete_ok [OF _ _ _ c(1)]) (use assms(1,3) in auto)
    with c True show ?thesis by simp
  next
    case False
    with n k f assms(3) show ?thesis
      by (simp add: arg_complete_def arg_ok_free [OF assms(1)] put_fut_def Let_def ref_count_def)
  qed
qed

theorem arg_complete_checks_wakers_witness:
  "\<exists>t t'. arg_ok vec_slab t [0, 1] \<and> arg_complete vec_slab no_drop 1 t () = Inr (t', ()) \<and>
    arg_ok vec_slab t' [0]"
proof -
  obtain t :: "(arg_task node vslab, nat) arg_tasks"
    where t: "arg_ok vec_slab t [0, 1]" "arg_unshared vec_slab t" using arg_two_tasks by blast
  obtain v where v: "value_at vec_slab (arg_nodes t) 1 = Some v"
    using queue_ok_member [OF arg_ok_queue [OF t(1)], of 1] by auto
  with t(2) have "ew_refs (at_waker v) = 1" by (simp add: arg_unshared_def)
  with arg_complete_checks_wakers [OF t(1) v, of no_drop "()"] t(1) show ?thesis
    by (auto simp: no_drop_def)
qed

end
