(* ===== verification/Spawner.thy ===== *)
theory Spawner
  imports Arg_Executor
begin

section \<open>Spawners and their executors (src/src/executor.rs)\<close>

text \<open>
  A spawner is created before the executor and refers to it by a raw pointer, which
  \<open>set_spawner\<close> writes and the executor's destructor clears. The memory has the executors and
  the spawners by address: an executor that was dropped is no longer there, and a pointer to it
  is dangling. An executor remembers one spawner, the last that was set. The modules \<open>arg\<close> and
  \<open>bx\<close> have the same code over their own \<open>tasks\<close>; what \<open>spawn\<close> does to the tasks is a parameter.

  The \<open>RefCell\<close>s around the pointer in a spawner and around the spawner in an executor are
  modelled without their borrow flags. They are borrowed for a call of \<open>spawn\<close>, \<open>set_spawner\<close> or
  the destructor only; while \<open>spawn\<close> borrows the pointer, shared, nothing that it calls sets it.
\<close>

record 't executor_cell =
  ex_tasks :: 't
  ex_spawner :: "nat option"

record 't spawn_memory =
  sm_executors :: "nat \<Rightarrow> 't executor_cell option"
  sm_spawners :: "nat \<Rightarrow> nat option option"

definition spawner_new :: "nat \<Rightarrow> 't spawn_memory \<Rightarrow> 't spawn_memory" where
  "spawner_new sp m = m\<lparr>sm_spawners := (sm_spawners m)(sp \<mapsto> None)\<rparr>"

definition executor_new :: "nat \<Rightarrow> 't \<Rightarrow> 't spawn_memory \<Rightarrow> 't spawn_memory" where
  "executor_new self tasks m =
     m\<lparr>sm_executors := (sm_executors m)(self \<mapsto> \<lparr>ex_tasks = tasks, ex_spawner = None\<rparr>)\<rparr>"

definition set_spawner :: "nat \<Rightarrow> nat \<Rightarrow> 't spawn_memory \<Rightarrow> 't spawn_memory res" where
  "set_spawner self spawner m =
     and_then (expect Dangling (sm_executors m self)) (\<lambda>ex.
     let m = m\<lparr>sm_executors := (sm_executors m)(self \<mapsto> ex\<lparr>ex_spawner := Some spawner\<rparr>)\<rparr> in
     and_then (expect Dangling (sm_spawners m spawner)) (\<lambda>_.
     Inr (m\<lparr>sm_spawners := (sm_spawners m)(spawner \<mapsto> Some self)\<rparr>)))"

definition spawn_by_ctx ::
  "('a \<Rightarrow> 't \<Rightarrow> 'w \<Rightarrow> (spawned \<times> 't \<times> 'w) res) \<Rightarrow> nat \<Rightarrow> 'a \<Rightarrow> 't spawn_memory \<Rightarrow> 'w \<Rightarrow>
     (spawned \<times> 't spawn_memory \<times> 'w) res" where
  "spawn_by_ctx spawn ctx arg m w =
     and_then (expect Dangling (sm_executors m ctx)) (\<lambda>ex.
     and_then (spawn arg (ex_tasks ex) w) (\<lambda>(r, tasks, w).
     Inr (r, m\<lparr>sm_executors := (sm_executors m)(ctx \<mapsto> ex\<lparr>ex_tasks := tasks\<rparr>)\<rparr>, w)))"

definition spawner_spawn ::
  "('a \<Rightarrow> 't \<Rightarrow> 'w \<Rightarrow> (spawned \<times> 't \<times> 'w) res) \<Rightarrow> nat \<Rightarrow> 'a \<Rightarrow> 't spawn_memory \<Rightarrow> 'w \<Rightarrow>
     (spawned \<times> 't spawn_memory \<times> 'w) res" where
  "spawner_spawn spawn self arg m w =
     and_then (expect Dangling (sm_spawners m self)) (\<lambda>data.
     case data of
       Some ctx \<Rightarrow> spawn_by_ctx spawn ctx arg m w
     | None \<Rightarrow> Inr (Inl (), m, w))"

definition executor_drop :: "nat \<Rightarrow> 't spawn_memory \<Rightarrow> 't spawn_memory res" where
  "executor_drop self m =
     and_then (expect Dangling (sm_executors m self)) (\<lambda>ex.
     and_then
       (case ex_spawner ex of
          Some spawner \<Rightarrow>
            and_then (expect Dangling (sm_spawners m spawner)) (\<lambda>_.
            Inr (m\<lparr>sm_spawners := (sm_spawners m)(spawner \<mapsto> None)\<rparr>))
        | None \<Rightarrow> Inr m) (\<lambda>m.
     Inr (m\<lparr>sm_executors := (sm_executors m)(self := None)\<rparr>)))"

subsection \<open>Histories\<close>

text \<open>
  \<open>linked_step\<close>: one action of a program that calls \<open>set_spawner\<close> at most once on an executor,
  does not move it and keeps its spawners alive. Several executors may share a spawner.
\<close>

inductive linked_step :: "'t spawn_memory \<Rightarrow> 't spawn_memory \<Rightarrow> bool" where
  step_spawner: "sm_spawners m sp = None \<Longrightarrow> linked_step m (spawner_new sp m)"
| step_executor: "sm_executors m ex = None \<Longrightarrow> linked_step m (executor_new ex tasks m)"
| step_set:
    "sm_executors m ex = Some e \<Longrightarrow> ex_spawner e = None \<Longrightarrow> set_spawner ex sp m = Inr m' \<Longrightarrow>
       linked_step m m'"
| step_use:
    "sm_executors m ex = Some e \<Longrightarrow>
       linked_step m (m\<lparr>sm_executors := (sm_executors m)(ex \<mapsto> e\<lparr>ex_tasks := tasks\<rparr>)\<rparr>)"
| step_drop: "executor_drop ex m = Inr m' \<Longrightarrow> linked_step m m'"

definition linked_ok :: "'t spawn_memory \<Rightarrow> bool" where
  "linked_ok m \<longleftrightarrow>
     (\<forall>sp ctx. sm_spawners m sp = Some (Some ctx) \<longrightarrow>
        (\<exists>e. sm_executors m ctx = Some e \<and> ex_spawner e = Some sp))"

lemma linked_step_ok: "linked_step m m' \<Longrightarrow> linked_ok m \<Longrightarrow> linked_ok m'"
proof (induction rule: linked_step.induct)
  case (step_spawner m sp)
  then show ?case by (auto simp: linked_ok_def spawner_new_def)
next
  case (step_executor m ex tasks)
  then show ?case by (fastforce simp: linked_ok_def executor_new_def)
next
  case (step_set m ex e sp m')
  then show ?case
    by (auto simp: linked_ok_def set_spawner_def res_iff Let_def split: if_splits)
      (metis option.distinct(1) option.inject)+
next
  case (step_use m ex e tasks)
  then show ?case by (fastforce simp: linked_ok_def)
next
  case (step_drop ex m m')
  then obtain e where e: "sm_executors m ex = Some e" by (auto simp: executor_drop_def res_iff)
  show ?case
    unfolding linked_ok_def
  proof (intro allI impI)
    fix sp ctx assume s: "sm_spawners m' sp = Some (Some ctx)"
    have m: "sm_spawners m sp = Some (Some ctx)" "ex_spawner e \<noteq> Some sp"
      "sm_executors m' = (sm_executors m)(ex := None)"
      using s step_drop.hyps e
      by (auto simp: executor_drop_def res_iff split: option.splits if_splits)
    then obtain e' where "sm_executors m ctx = Some e'" "ex_spawner e' = Some sp"
      using step_drop.prems unfolding linked_ok_def by blast
    with m(2,3) e show "\<exists>e. sm_executors m' ctx = Some e \<and> ex_spawner e = Some sp" by auto
  qed
qed

lemma linked_steps_ok: "linked_step\<^sup>*\<^sup>* m m' \<Longrightarrow> linked_ok m \<Longrightarrow> linked_ok m'"
  by (induction rule: rtranclp_induct) (auto intro: linked_step_ok)

definition no_memory :: "'t spawn_memory" where
  "no_memory = \<lparr>sm_executors = (\<lambda>_. None), sm_spawners = (\<lambda>_. None)\<rparr>"

text \<open>
  C18. In a program that sets the spawner of an executor at most once and does not move the
  executor, a spawner never follows a dangling pointer: it hands the task to an executor that is alive, or answers with an error
  when none was set or it was dropped.
\<close>

theorem spawner_never_dangles:
  assumes "linked_step\<^sup>*\<^sup>* no_memory m" and "sm_spawners m sp = Some data"
  shows "(case data of
     None \<Rightarrow> spawner_spawn spawn sp arg m w = Inr (Inl (), m, w)
   | Some ctx \<Rightarrow> \<exists>e. sm_executors m ctx = Some e \<and> ex_spawner e = Some sp \<and>
       spawner_spawn spawn sp arg m w =
         and_then (spawn arg (ex_tasks e) w) (\<lambda>(r, tasks, w).
         Inr (r, m\<lparr>sm_executors := (sm_executors m)(ctx \<mapsto> e\<lparr>ex_tasks := tasks\<rparr>)\<rparr>, w)))"
proof (cases data)
  case None
  with assms(2) show ?thesis by (simp add: spawner_spawn_def)
next
  case (Some ctx)
  have "linked_ok m"
    by (rule linked_steps_ok [OF assms(1)]) (simp add: linked_ok_def no_memory_def)
  with assms(2) Some obtain e where "sm_executors m ctx = Some e" "ex_spawner e = Some sp"
    unfolding linked_ok_def by blast
  with assms(2) Some show ?thesis by (simp add: spawner_spawn_def spawn_by_ctx_def)
qed

definition one_spawner :: "nat \<Rightarrow> nat spawn_memory" where
  "one_spawner tasks = executor_new 1 tasks (spawner_new 0 no_memory)"

lemma one_spawner_simps [simp]:
  "sm_executors (one_spawner tasks) = [1 \<mapsto> \<lparr>ex_tasks = tasks, ex_spawner = None\<rparr>]"
  "sm_spawners (one_spawner tasks) = [0 \<mapsto> None]"
  by (simp_all add: one_spawner_def executor_new_def spawner_new_def no_memory_def)

theorem spawner_never_dangles_witness:
  "spawner_spawn (\<lambda>a t w. Inr (Inr (), t + a, w)) 0 (5 :: nat) (one_spawner 7) () =
     Inr (Inl (), one_spawner 7, ())"
proof -
  have "linked_step no_memory (spawner_new 0 no_memory :: nat spawn_memory)"
    by (rule step_spawner) (simp add: no_memory_def)
  moreover have "linked_step (spawner_new 0 no_memory) (one_spawner 7)"
    unfolding one_spawner_def by (rule step_executor) (simp add: spawner_new_def no_memory_def)
  ultimately have "linked_step\<^sup>*\<^sup>* no_memory (one_spawner 7)" by simp
  from spawner_never_dangles [OF this, of 0 None "\<lambda>a t w. Inr (Inr (), t + a, w)" 5 "()"]
  show ?thesis by simp
qed

text \<open>
  C38. After the executor was dropped its spawner answers with an error; a task spawned while it
  is alive goes to that executor.
\<close>

theorem spawner_after_drop:
  assumes "sm_executors m ex = Some e" and "sm_spawners m sp = Some data"
    and "set_spawner ex sp m = Inr m1"
  shows "spawner_spawn spawn sp arg m1 w =
      and_then (spawn arg (ex_tasks e) w) (\<lambda>(r, tasks, w).
      Inr (r, m1\<lparr>sm_executors := (sm_executors m1)
        (ex \<mapsto> e\<lparr>ex_spawner := Some sp, ex_tasks := tasks\<rparr>)\<rparr>, w)) \<and>
    (\<exists>m2. executor_drop ex m1 = Inr m2 \<and> sm_executors m2 ex = None \<and>
       spawner_spawn spawn sp arg m2 w = Inr (Inl (), m2, w))"
  using assms
  by (auto simp: set_spawner_def Let_def spawner_spawn_def spawn_by_ctx_def executor_drop_def)

theorem spawner_after_drop_witness:
  "\<exists>m1 m2. set_spawner 1 0 (one_spawner 7) = Inr m1 \<and> executor_drop 1 m1 = Inr m2 \<and>
     spawner_spawn (\<lambda>a t w. Inr (Inr (), t + a, w)) 0 (5 :: nat) m2 () = Inr (Inl (), m2, ())"
proof -
  obtain m1 where m1: "set_spawner 1 0 (one_spawner 7) = Inr m1"
    by (simp add: set_spawner_def Let_def)
  from spawner_after_drop [OF _ _ m1, of "\<lparr>ex_tasks = 7, ex_spawner = None\<rparr>" None
      "\<lambda>a t w. Inr (Inr (), t + a, w)" 5 "()"] m1
  show ?thesis by auto
qed

text \<open>
  C39. The executor remembers only its last spawner. Set on two spawners and dropped, it leaves
  the first with a pointer to memory that is gone, and the next spawn through it follows it.
\<close>

theorem second_spawner_dangles:
  assumes "sm_executors m ex = Some e" and "sm_spawners m sp1 = Some d1"
    and "sm_spawners m sp2 = Some d2" and "sp1 \<noteq> sp2"
  shows "\<exists>m1 m2 m3. set_spawner ex sp1 m = Inr m1 \<and> set_spawner ex sp2 m1 = Inr m2 \<and>
    executor_drop ex m2 = Inr m3 \<and> spawner_spawn spawn sp1 arg m3 w = Inl Dangling"
  using assms
  by (simp add: set_spawner_def Let_def spawner_spawn_def spawn_by_ctx_def executor_drop_def)

theorem second_spawner_dangles_witness:
  "\<exists>m1 m2 m3. set_spawner 1 0 (spawner_new 2 (one_spawner 7)) = Inr m1 \<and>
    set_spawner 1 2 m1 = Inr m2 \<and> executor_drop 1 m2 = Inr m3 \<and>
    spawner_spawn (\<lambda>a t w. Inr (Inr (), t + a, w)) 0 (5 :: nat) m3 () = Inl Dangling"
  by (rule second_spawner_dangles [of _ _ "\<lparr>ex_tasks = 7, ex_spawner = None\<rparr>" _ None _ None])
    (simp_all add: spawner_new_def)

text \<open>
  C40. Two executors that share a spawner: dropping the one that was set first clears the
  spawner, which then refuses tasks although the other executor is alive.
\<close>

theorem shared_spawner_cleared:
  assumes "sm_executors m ex1 = Some e1" and "sm_executors m ex2 = Some e2" and "ex1 \<noteq> ex2"
    and "sm_spawners m sp = Some d"
  shows "\<exists>m1 m2 m3. set_spawner ex1 sp m = Inr m1 \<and> set_spawner ex2 sp m1 = Inr m2 \<and>
    executor_drop ex1 m2 = Inr m3 \<and> sm_executors m3 ex2 \<noteq> None \<and>
    spawner_spawn spawn sp arg m3 w = Inr (Inl (), m3, w)"
  using assms
  by (simp add: set_spawner_def Let_def spawner_spawn_def executor_drop_def)

theorem shared_spawner_cleared_witness:
  "\<exists>m1 m2 m3. set_spawner 1 0 (executor_new 2 8 (one_spawner 7)) = Inr m1 \<and>
    set_spawner 2 0 m1 = Inr m2 \<and> executor_drop 1 m2 = Inr m3 \<and> sm_executors m3 2 \<noteq> None \<and>
    spawner_spawn (\<lambda>a t w. Inr (Inr (), t + a, w)) 0 (5 :: nat) m3 () = Inr (Inl (), m3, ())"
  by (rule shared_spawner_cleared [of _ _ "\<lparr>ex_tasks = 7, ex_spawner = None\<rparr>" _
        "\<lparr>ex_tasks = 8, ex_spawner = None\<rparr>" _ None])
    (simp_all add: executor_new_def)

text \<open>
  \<open>set_spawner\<close> borrows the executor only for the call, so that safe code can move it to another
  address afterwards. The spawner keeps the old one, and the next spawn follows it.
\<close>

definition executor_move :: "nat \<Rightarrow> nat \<Rightarrow> 't spawn_memory \<Rightarrow> 't spawn_memory" where
  "executor_move self dest m =
     m\<lparr>sm_executors := (sm_executors m)(self := None, dest := sm_executors m self)\<rparr>"

lemma moved_executor_dangles:
  assumes "sm_executors m ex = Some e" and "sm_spawners m sp = Some d" and "ex \<noteq> dest"
  shows "\<exists>m1. set_spawner ex sp m = Inr m1 \<and> sm_executors (executor_move ex dest m1) dest \<noteq> None \<and>
    spawner_spawn spawn sp arg (executor_move ex dest m1) w = Inl Dangling"
  using assms
  by (simp add: set_spawner_def executor_move_def Let_def spawner_spawn_def spawn_by_ctx_def)

end
