(* ===== verification/Box_Executor.thy ===== *)
theory Box_Executor
  imports Spawner
begin

section \<open>The boxing executor (src/src/executor.rs, mod bx)\<close>

text \<open>
  \<open>BoxExecutor\<close> stores each future, boxed, inside its task, beside the embedded waker.
  \<open>process_next\<close> polls and completes the task through a raw pointer while nothing is borrowed;
  the pointer is the key, and following it to a task that was removed is \<open>Dangling\<close>. The
  finished future is dropped before the tasks are borrowed again, so dropping it may wake or
  spawn tasks. As for the executor without boxes, \<open>poll\<close>, \<open>drop_fut\<close> and \<open>park\<close> are parameters.
\<close>

record 'f bx_task =
  bt_fut :: "'f option"
  bt_waker :: embed_waker
  bt_awake :: bool

record 'n bx_data =
  bd_nodes :: 'n
  bd_next :: dlist

type_synonym 'n bx_tasks = "'n bx_data ref_cell"

definition bx_flag :: "'f bx_task task_ops" where
  "bx_flag = \<lparr>awake_of = bt_awake, set_awake = (\<lambda>b task. task\<lparr>bt_awake := b\<rparr>)\<rparr>"

interpretation bx_task: task_flag bx_flag
  by unfold_locales (simp add: bx_flag_def)

subsection \<open>Tasks\<close>

definition bx_tasks_new :: "('n, 'f bx_task node) slab_ops \<Rightarrow> nat \<Rightarrow> 'n bx_tasks" where
  "bx_tasks_new S tasks_max =
     ref_cell_new \<lparr>bd_nodes = with_capacity S tasks_max, bd_next = list_default\<rparr>"

definition bx_is_empty :: "('n, 'f bx_task node) slab_ops \<Rightarrow> 'n bx_tasks \<Rightarrow> bool res" where
  "bx_is_empty S t = and_then (borrow t) (\<lambda>data. Inr (slab_empty S (bd_nodes data)))"

definition bx_add ::
  "('n, 'f bx_task node) slab_ops \<Rightarrow> 'f \<Rightarrow> 'n bx_tasks \<Rightarrow> (spawned \<times> 'n bx_tasks) res" where
  "bx_add S f t =
     with_borrow t (\<lambda>data.
       and_then
         (add_nodes S
            (\<lambda>key. \<lparr>bt_fut = Some f, bt_waker = embed_waker_new key, bt_awake = True\<rparr>)
            (bd_next data) (bd_nodes data)) (\<lambda>added.
       case added of
         None \<Rightarrow> Inr (Inl (), data)
       | Some (key, nxt, nodes) \<Rightarrow> Inr (Inr (), data\<lparr>bd_next := nxt, bd_nodes := nodes\<rparr>)))"

definition bx_wake :: "('n, 'f bx_task node) slab_ops \<Rightarrow> nat \<Rightarrow> 'n bx_tasks \<Rightarrow> 'n bx_tasks res" where
  "bx_wake S task_id t =
     and_then
       (with_borrow t (\<lambda>data.
          and_then (wake_nodes bx_flag S task_id (bd_next data) (bd_nodes data)) (\<lambda>(nxt, nodes).
          Inr ((), data\<lparr>bd_next := nxt, bd_nodes := nodes\<rparr>)))) (\<lambda>(_, t).
     Inr t)"

text \<open>The task a raw pointer leads to, read and overwritten.\<close>

definition bx_task_at :: "('n, 'f bx_task node) slab_ops \<Rightarrow> nat \<Rightarrow> 'n bx_tasks \<Rightarrow> 'f bx_task res" where
  "bx_task_at S ptr t =
     and_then (expect Dangling (im_get S (bd_nodes (cell_data t)) ptr)) (\<lambda>n. Inr (nd_value n))"

definition bx_put_task ::
  "('n, 'f bx_task node) slab_ops \<Rightarrow> nat \<Rightarrow> ('f bx_task \<Rightarrow> 'f bx_task) \<Rightarrow> 'n bx_tasks \<Rightarrow> 'n bx_tasks res"
  where
  "bx_put_task S ptr g t =
     and_then (expect Dangling (im_get S (bd_nodes (cell_data t)) ptr)) (\<lambda>n.
     Inr (t\<lparr>cell_data := (cell_data t)
       \<lparr>bd_nodes := im_set S (bd_nodes (cell_data t)) ptr (n\<lparr>nd_value := g (nd_value n)\<rparr>)\<rparr>\<rparr>))"

definition bx_wakers :: "('n, 'f bx_task node) slab_ops \<Rightarrow> ('n bx_tasks, embed_waker) index_mut" where
  "bx_wakers S =
     \<lparr>im_get = (\<lambda>t k.
        map_option (\<lambda>n. bt_waker (nd_value n)) (im_get S (bd_nodes (cell_data t)) k)),
      im_set = (\<lambda>t k w.
        case bx_put_task S k (\<lambda>task. task\<lparr>bt_waker := w\<rparr>) t of Inl _ \<Rightarrow> t | Inr t \<Rightarrow> t)\<rparr>"

definition bx_vtable :: "('n, 'f bx_task node) slab_ops \<Rightarrow> (nat, 'n bx_tasks) raw_vtable" where
  "bx_vtable S = embed_vtable (bx_wakers S) (bx_wake S)"

subsection \<open>Polling\<close>

definition bx_begin ::
  "('n, 'f bx_task node) slab_ops \<Rightarrow> 'n bx_tasks \<Rightarrow> (nat option \<times> 'n bx_tasks) res" where
  "bx_begin S t =
     with_borrow t (\<lambda>tasks.
       and_then (take_next bx_flag S (bd_next tasks) (bd_nodes tasks)) (\<lambda>taken.
       case taken of
         None \<Rightarrow> Inr (None, tasks)
       | Some (nkey, nxt, nodes) \<Rightarrow> Inr (Some nkey, tasks\<lparr>bd_next := nxt, bd_nodes := nodes\<rparr>)))"

type_synonym ('n, 'f, 'w) bx_poll =
  "'f \<Rightarrow> nat \<Rightarrow> 'n bx_tasks \<Rightarrow> 'w \<Rightarrow> (bool \<times> 'f \<times> 'n bx_tasks \<times> 'w) run"

definition bx_poll ::
  "('n, 'f bx_task node) slab_ops \<Rightarrow> ('n, 'f, 'w) bx_poll \<Rightarrow> nat \<Rightarrow> 'n bx_tasks \<Rightarrow> 'w \<Rightarrow>
     (bool \<times> 'n bx_tasks \<times> 'w) run" where
  "bx_poll S poll nkey t w =
     run_then (Some (bx_task_at S nkey t)) (\<lambda>task.
     run_then (Some (expect Unwrap_panic (bt_fut task))) (\<lambda>fut.
     run_then (poll fut nkey t w) (\<lambda>(done, fut, t, w).
     run_then (Some (bx_put_task S nkey (\<lambda>task. task\<lparr>bt_fut := Some fut\<rparr>) t)) (\<lambda>t.
     Some (Inr (done, t, w))))))"

definition bx_complete ::
  "('n, 'f bx_task node) slab_ops \<Rightarrow> ('f \<Rightarrow> 'n bx_tasks \<Rightarrow> 'w \<Rightarrow> ('n bx_tasks \<times> 'w) res) \<Rightarrow>
     nat \<Rightarrow> 'n bx_tasks \<Rightarrow> 'w \<Rightarrow> ('n bx_tasks \<times> 'w) res" where
  "bx_complete S drop_fut nkey t w =
     and_then (bx_task_at S nkey t) (\<lambda>task.
     and_then
       (case bt_fut task of
          Some fut \<Rightarrow> drop_fut fut t w
        | None \<Rightarrow> Inr (t, w)) (\<lambda>(t, w).
     and_then (bx_put_task S nkey (\<lambda>task. task\<lparr>bt_fut := None\<rparr>) t) (\<lambda>t.
     and_then (bx_task_at S nkey t) (\<lambda>task.
     and_then (ensure Assert_panic (ref_count (bt_waker task) = 1)) (\<lambda>_.
     and_then
       (with_borrow t (\<lambda>tasks.
          and_then (free_nodes S nkey (bd_next tasks) (bd_nodes tasks)) (\<lambda>(nxt, nodes).
          Inr ((), tasks\<lparr>bd_next := nxt, bd_nodes := nodes\<rparr>)))) (\<lambda>(_, t).
     Inr (t, w)))))))"

definition bx_process_next ::
  "('n, 'f bx_task node) slab_ops \<Rightarrow> ('n, 'f, 'w) bx_poll \<Rightarrow>
     ('f \<Rightarrow> 'n bx_tasks \<Rightarrow> 'w \<Rightarrow> ('n bx_tasks \<times> 'w) res) \<Rightarrow> 'n bx_tasks \<Rightarrow> 'w \<Rightarrow>
     ('n bx_tasks \<times> 'w) run" where
  "bx_process_next S poll drop_fut =
     process_loop (bx_begin S) (bx_poll S poll) (bx_complete S drop_fut)"

subsection \<open>The executor\<close>

definition bx_spawn ::
  "('n, 'f bx_task node) slab_ops \<Rightarrow> 'f \<Rightarrow> 'n bx_tasks \<Rightarrow> 'w \<Rightarrow> (spawned \<times> 'n bx_tasks \<times> 'w) res" where
  "bx_spawn S f t w = and_then (bx_add S f t) (\<lambda>(r, t). Inr (r, t, w))"

definition bx_run ::
  "('n, 'f bx_task node) slab_ops \<Rightarrow> ('n, 'f, 'w) bx_poll \<Rightarrow>
     ('f \<Rightarrow> 'n bx_tasks \<Rightarrow> 'w \<Rightarrow> ('n bx_tasks \<times> 'w) res) \<Rightarrow> ('n bx_tasks, 'w, 'e) parking \<Rightarrow>
     'n bx_tasks \<Rightarrow> 'w \<Rightarrow> ('n bx_tasks \<times> 'w) run" where
  "bx_run S poll drop_fut park =
     executor_run (bx_process_next S poll drop_fut) (bx_is_empty S) park"

text \<open>
  \<open>BoxSpawner\<close>, \<open>set_spawner\<close> and the destructor are those of the module \<open>arg\<close>, over the tasks
  of this module; the pointer to the spawn function leads to \<open>spawn_fn\<close>.
\<close>

definition bx_spawn_fn ::
  "('n, 'f bx_task node) slab_ops \<Rightarrow> nat \<Rightarrow> 'f \<Rightarrow> 'n bx_tasks spawn_memory \<Rightarrow> 'w \<Rightarrow>
     (spawned \<times> 'n bx_tasks spawn_memory \<times> 'w) res" where
  "bx_spawn_fn S = spawn_by_ctx (bx_spawn S)"

definition bx_spawn_boxed ::
  "('n, 'f bx_task node) slab_ops \<Rightarrow> nat \<Rightarrow> 'f \<Rightarrow> 'n bx_tasks spawn_memory \<Rightarrow> 'w \<Rightarrow>
     (spawned \<times> 'n bx_tasks spawn_memory \<times> 'w) res" where
  "bx_spawn_boxed S = spawner_spawn (bx_spawn S)"

definition bx_executor_new ::
  "('n, 'f bx_task node) slab_ops \<Rightarrow> nat \<Rightarrow> nat \<Rightarrow> 'n bx_tasks spawn_memory \<Rightarrow>
     'n bx_tasks spawn_memory" where
  "bx_executor_new S tasks_max self = executor_new self (bx_tasks_new S tasks_max)"

definition bx_set_spawner ::
  "nat \<Rightarrow> nat \<Rightarrow> 'n bx_tasks spawn_memory \<Rightarrow> 'n bx_tasks spawn_memory res" where
  "bx_set_spawner = set_spawner"

definition bx_executor_drop ::
  "nat \<Rightarrow> 'n bx_tasks spawn_memory \<Rightarrow> 'n bx_tasks spawn_memory res" where
  "bx_executor_drop = executor_drop"

subsection \<open>The invariant\<close>

text \<open>
  \<open>bx_ok S cap t xs\<close>: nothing is borrowed, the queue stands for \<open>xs\<close>, which are the awake
  tasks, every task between two turns has its future, and its waker wakes it.
\<close>

abbreviation bx_nodes :: "'n bx_tasks \<Rightarrow> 'n" where
  "bx_nodes t \<equiv> bd_nodes (cell_data t)"

definition bx_task_ok :: "nat \<Rightarrow> 'f bx_task \<Rightarrow> bool" where
  "bx_task_ok k task \<longleftrightarrow> bt_fut task \<noteq> None \<and> ew_task_id (bt_waker task) = k"

definition bx_ok ::
  "('n, 'f bx_task node) slab_ops \<Rightarrow> nat \<Rightarrow> 'n bx_tasks \<Rightarrow> nat list \<Rightarrow> bool" where
  "bx_ok S cap t xs \<longleftrightarrow>
     \<not> cell_borrowed t \<and> queue_ok bx_flag S cap (bd_next (cell_data t)) (bx_nodes t) xs \<and>
     (\<forall>k v. value_at S (bx_nodes t) k = Some v \<longrightarrow> bx_task_ok k v)"

text \<open>\<open>bx_keeps S t t'\<close>: no task was removed.\<close>

definition bx_keeps ::
  "('n, 'f bx_task node) slab_ops \<Rightarrow> 'n bx_tasks \<Rightarrow> 'n bx_tasks \<Rightarrow> bool" where
  "bx_keeps S t t' \<longleftrightarrow>
     (\<forall>k. value_at S (bx_nodes t) k \<noteq> None \<longrightarrow> value_at S (bx_nodes t') k \<noteq> None)"

lemma bx_keeps_refl [simp]: "bx_keeps S t t"
  by (simp add: bx_keeps_def)

lemma bx_keeps_trans: "bx_keeps S t t' \<Longrightarrow> bx_keeps S t' t'' \<Longrightarrow> bx_keeps S t t''"
  by (simp add: bx_keeps_def)

lemma bx_ok_new: "slab_ok S \<Longrightarrow> bx_ok S n (bx_tasks_new S n) []"
  using queue_ok_new [of S bx_flag n]
  by (simp add: bx_ok_def bx_tasks_new_def value_at_def slab_new)

lemma bx_flag_simps [simp]:
  "awake_of bx_flag v = bt_awake v"
  "set_awake bx_flag b v = v\<lparr>bt_awake := b\<rparr>"
  by (simp_all add: bx_flag_def)

lemma bx_task_ok_simps [simp]:
  "bx_task_ok k (v\<lparr>bt_awake := b\<rparr>) = bx_task_ok k v"
  "bx_task_ok k (v\<lparr>bt_fut := Some f\<rparr>) \<longleftrightarrow> ew_task_id (bt_waker v) = k"
  "bx_task_ok k (v\<lparr>bt_waker := w\<rparr>) \<longleftrightarrow> bt_fut v \<noteq> None \<and> ew_task_id w = k"
  by (simp_all add: bx_task_ok_def)

lemma bx_ok_queue: "bx_ok S cap t xs \<Longrightarrow>
    queue_ok bx_flag S cap (bd_next (cell_data t)) (bx_nodes t) xs"
  by (simp add: bx_ok_def)

lemma bx_ok_free: "bx_ok S cap t xs \<Longrightarrow> \<not> cell_borrowed t"
  by (simp add: bx_ok_def)

lemma bx_ok_task: "bx_ok S cap t xs \<Longrightarrow> value_at S (bx_nodes t) k = Some v \<Longrightarrow> bx_task_ok k v"
  by (simp add: bx_ok_def)

lemma bx_awake_idem: "bt_awake v \<Longrightarrow> v\<lparr>bt_awake := True\<rparr> = v"
  by (cases v) simp

subsection \<open>The functions the futures call\<close>

lemma bx_wake_ok:
  assumes ok: "bx_ok S cap t xs" and k: "value_at S (bx_nodes t) k = Some v"
  shows "\<exists>t'. bx_wake S k t = Inr t' \<and> bx_ok S cap t' (sched_wake k xs) \<and> bx_keeps S t t' \<and>
    value_at S (bx_nodes t') = (value_at S (bx_nodes t))(k \<mapsto> v\<lparr>bt_awake := True\<rparr>)"
proof -
  note q = bx_ok_queue [OF ok]
  obtain nxt' nodes' where w: "wake_nodes bx_flag S k (bd_next (cell_data t)) (bx_nodes t) =
      Inr (nxt', nodes')" "queue_ok bx_flag S cap nxt' nodes' (sched_wake k xs)"
      "value_at S nodes' = (value_at S (bx_nodes t))(k \<mapsto> v\<lparr>bt_awake := True\<rparr>)"
    using bx_task.wake_ok [OF q k] by (cases "bt_awake v") (auto simp: bx_awake_idem)
  let ?t = "t\<lparr>cell_data := (cell_data t)\<lparr>bd_next := nxt', bd_nodes := nodes'\<rparr>\<rparr>"
  have "bx_wake S k t = Inr ?t"
    using w(1) ok by (simp add: bx_wake_def with_borrow_def bx_ok_def)
  moreover have "bx_ok S cap ?t (sched_wake k xs)" "bx_keeps S t ?t"
    using ok w(2,3) k by (auto simp: bx_ok_def bx_keeps_def)
  ultimately show ?thesis using w(3) by auto
qed

lemma bx_wake_missing:
  "bx_ok S cap t xs \<Longrightarrow> value_at S (bx_nodes t) k = None \<Longrightarrow> bx_wake S k t = Inl Index_panic"
  by (simp add: bx_wake_def with_borrow_def wake_nodes_def bx_ok_def value_at_def)

definition bx_new_task :: "'f \<Rightarrow> nat \<Rightarrow> 'f bx_task" where
  "bx_new_task f key = \<lparr>bt_fut = Some f, bt_waker = embed_waker_new key, bt_awake = True\<rparr>"

lemma bx_add_ok:
  assumes ok: "bx_ok S cap t xs" and room: "slab_len S (bx_nodes t) < cap"
  shows "\<exists>k t'. bx_add S f t = Inr (Inr (), t') \<and> value_at S (bx_nodes t) k = None \<and> k < cap \<and>
    bx_ok S cap t' (xs @ [k]) \<and> bx_keeps S t t' \<and>
    value_at S (bx_nodes t') = (value_at S (bx_nodes t))(k \<mapsto> bx_new_task f k)"
proof -
  note q = bx_ok_queue [OF ok]
  obtain k nxt' nodes' where a: "add_nodes S (bx_new_task f) (bd_next (cell_data t)) (bx_nodes t) =
      Inr (Some (k, nxt', nodes'))" "value_at S (bx_nodes t) k = None" "k < cap"
      "queue_ok bx_flag S cap nxt' nodes' (xs @ [k])"
      "value_at S nodes' = (value_at S (bx_nodes t))(k \<mapsto> bx_new_task f k)"
    using bx_task.add_ok [OF q _ room, of "bx_new_task f"] by (auto simp: bx_new_task_def)
  let ?t = "t\<lparr>cell_data := (cell_data t)\<lparr>bd_next := nxt', bd_nodes := nodes'\<rparr>\<rparr>"
  have "bx_add S f t = Inr (Inr (), ?t)"
    using ok a(1) by (simp add: bx_add_def with_borrow_def bx_ok_def bx_new_task_def [abs_def])
  moreover have "bx_ok S cap ?t (xs @ [k])"
    using ok a by (auto simp: bx_ok_def bx_task_ok_def bx_new_task_def embed_waker_new_def
        split: if_splits)
  moreover have "bx_keeps S t ?t" using a(5) by (auto simp: bx_keeps_def)
  ultimately show ?thesis using a(2,3,5) by auto
qed

lemma bx_add_full:
  "bx_ok S cap t xs \<Longrightarrow> slab_len S (bx_nodes t) = cap \<Longrightarrow> bx_add S f t = Inr (Inl (), t)"
  by (simp add: bx_add_def with_borrow_def bx_ok_free bx_task.add_full [OF bx_ok_queue])

text \<open>Writing a task without touching its flag.\<close>

lemma bx_put_ok:
  assumes ok: "bx_ok S cap t xs" and v: "value_at S (bx_nodes t) k = Some v"
    and aw: "bt_awake (g v) = bt_awake v"
  shows "\<exists>t'. bx_put_task S k g t = Inr t' \<and> \<not> cell_borrowed t' \<and>
    queue_ok bx_flag S cap (bd_next (cell_data t')) (bx_nodes t') xs \<and>
    value_at S (bx_nodes t') = (value_at S (bx_nodes t))(k \<mapsto> g v)"
proof -
  obtain n where n: "im_get S (bx_nodes t) k = Some n" "nd_value n = v"
    using v by (auto simp: value_at_Some_iff)
  with bx_task.put_ok [OF bx_ok_queue [OF ok] n(1), of "g v"] aw ok show ?thesis
    by (simp add: bx_put_task_def bx_ok_def)
qed

lemma bx_put_keeps:
  assumes ok: "bx_ok S cap t xs" and v: "value_at S (bx_nodes t) k = Some v"
    and g: "bt_awake (g v) = bt_awake v" "bx_task_ok k (g v)"
  shows "\<exists>t'. bx_put_task S k g t = Inr t' \<and> bx_ok S cap t' xs \<and> bx_keeps S t t' \<and>
    value_at S (bx_nodes t') = (value_at S (bx_nodes t))(k \<mapsto> g v)"
  using bx_put_ok [OF ok v, of g] g ok by (auto simp: bx_ok_def bx_keeps_def)

lemma bx_wakers_get:
  "im_get (bx_wakers S) t k = map_option bt_waker (value_at S (bx_nodes t) k)"
  by (simp add: bx_wakers_def value_at_def option.map_comp comp_def)

lemma bx_set_waker:
  assumes ok: "bx_ok S cap t xs" and v: "value_at S (bx_nodes t) k = Some v" and w: "ew_task_id w = k"
  shows "bx_ok S cap (im_set (bx_wakers S) t k w) xs \<and> bx_keeps S t (im_set (bx_wakers S) t k w) \<and>
    value_at S (bx_nodes (im_set (bx_wakers S) t k w)) =
      (value_at S (bx_nodes t))(k \<mapsto> v\<lparr>bt_waker := w\<rparr>)"
  using bx_put_keeps [OF ok v, of "\<lambda>task. task\<lparr>bt_waker := w\<rparr>"] bx_ok_task [OF ok v] w
  by (auto simp: bx_wakers_def bx_task_ok_def)

subsection \<open>The steps the futures can take\<close>

inductive bx_step ::
  "('n, 'f bx_task node) slab_ops \<Rightarrow> 'n bx_tasks \<Rightarrow> 'n bx_tasks \<Rightarrow> bool" for S where
  bx_step_wake: "bx_wake S k t = Inr t' \<Longrightarrow> bx_step S t t'"
| bx_step_spawn: "bx_add S f t = Inr (r, t') \<Longrightarrow> bx_step S t t'"
| bx_step_clone: "vt_clone (bx_vtable S) k t = Inr (k, t') \<Longrightarrow> bx_step S t t'"
| bx_step_drop: "vt_drop (bx_vtable S) k t = Inr t' \<Longrightarrow> bx_step S t t'"

lemma bx_step_ok:
  assumes "bx_step S t t'" and ok: "bx_ok S cap t xs"
  shows "\<exists>zs. bx_ok S cap t' (xs @ zs) \<and> bx_keeps S t t'"
  using assms(1)
proof cases
  case (bx_step_wake k)
  then obtain v where v: "value_at S (bx_nodes t) k = Some v"
    using bx_wake_missing [OF ok, of k] by (cases "value_at S (bx_nodes t) k") auto
  from bx_wake_ok [OF ok v] bx_step_wake have "bx_ok S cap t' (sched_wake k xs)" "bx_keeps S t t'"
    by auto
  moreover have "\<exists>zs. sched_wake k xs = xs @ zs" by (simp add: sched_wake_def)
  ultimately show ?thesis by auto
next
  case (bx_step_spawn f r)
  from queue_ok_len [OF bx_ok_queue [OF ok]] consider "slab_len S (bx_nodes t) = cap"
    | "slab_len S (bx_nodes t) < cap" by linarith
  then show ?thesis
  proof cases
    case 1
    have "t' = t" using bx_add_full [OF ok 1, of f] bx_step_spawn by simp
    with ok show ?thesis by (auto intro: exI [of _ "[]"])
  next
    case 2
    from bx_add_ok [OF ok 2, of f] bx_step_spawn show ?thesis by auto
  qed
next
  case (bx_step_clone k)
  then obtain v where v: "value_at S (bx_nodes t) k = Some v"
    and t': "t' = im_set (bx_wakers S) t k ((bt_waker v)\<lparr>ew_refs := ew_refs (bt_waker v) + 1\<rparr>)"
    by (auto simp: bx_vtable_def embed_vtable_def embed_clone_def deref_def res_iff bx_wakers_get)
  have "ew_task_id (bt_waker v) = k" using bx_ok_task [OF ok v] by (simp add: bx_task_ok_def)
  with bx_set_waker [OF ok v] t' show ?thesis by (auto intro: exI [of _ "[]"])
next
  case (bx_step_drop k)
  then obtain v where v: "value_at S (bx_nodes t) k = Some v"
    and t': "t' = im_set (bx_wakers S) t k ((bt_waker v)\<lparr>ew_refs := ew_refs (bt_waker v) - 1\<rparr>)"
    by (auto simp: bx_vtable_def embed_vtable_def embed_drop_def deref_def res_iff bx_wakers_get
        Let_def)
  have "ew_task_id (bt_waker v) = k" using bx_ok_task [OF ok v] by (simp add: bx_task_ok_def)
  with bx_set_waker [OF ok v] t' show ?thesis by (auto intro: exI [of _ "[]"])
qed

lemma bx_steps_ok:
  assumes "(bx_step S)\<^sup>*\<^sup>* t t'" and "bx_ok S cap t xs"
  shows "\<exists>zs. bx_ok S cap t' (xs @ zs) \<and> bx_keeps S t t'"
  using assms
proof (induction rule: rtranclp_induct)
  case base
  then show ?case by (auto intro: exI [of _ "[]"])
next
  case (step t1 t2)
  then obtain zs where "bx_ok S cap t1 (xs @ zs)" "bx_keeps S t t1" by blast
  with bx_step_ok [OF step.hyps(2)] bx_keeps_trans show ?case by (metis append_assoc)
qed

subsection \<open>A turn of the loop\<close>

abbreviation bx_turn ::
  "('n, 'f bx_task node) slab_ops \<Rightarrow> ('n, 'f, 'w) bx_poll \<Rightarrow>
     ('f \<Rightarrow> 'n bx_tasks \<Rightarrow> 'w \<Rightarrow> ('n bx_tasks \<times> 'w) res) \<Rightarrow>
     nat \<Rightarrow> 'n bx_tasks \<Rightarrow> 'w \<Rightarrow> ('n bx_tasks \<times> 'w) run" where
  "bx_turn S poll drop_fut \<equiv> turn (bx_poll S poll) (bx_complete S drop_fut)"

text \<open>
  \<open>bx_behaved\<close>: the futures act on the executor only through its functions, also when they are
  dropped.
\<close>

definition bx_behaved ::
  "('n, 'f bx_task node) slab_ops \<Rightarrow> ('n, 'f, 'w) bx_poll \<Rightarrow>
     ('f \<Rightarrow> 'n bx_tasks \<Rightarrow> 'w \<Rightarrow> ('n bx_tasks \<times> 'w) res) \<Rightarrow> bool" where
  "bx_behaved S poll drop_fut \<longleftrightarrow>
     (\<forall>f k t w d f' t' w'. poll f k t w = Some (Inr (d, f', t', w')) \<longrightarrow> (bx_step S)\<^sup>*\<^sup>* t t') \<and>
     (\<forall>f t w t' w'. drop_fut f t w = Inr (t', w') \<longrightarrow> (bx_step S)\<^sup>*\<^sup>* t t')"

lemma bx_begin_empty: "bx_ok S cap t [] \<Longrightarrow> bx_begin S t = Inr (None, t)"
  by (simp add: bx_begin_def with_borrow_def bx_ok_free bx_task.take_none [OF bx_ok_queue])

lemma bx_begin_front:
  assumes ok: "bx_ok S cap t (k # xs)"
  shows "\<exists>t1 v. bx_begin S t = Inr (Some k, t1) \<and> bx_ok S cap t1 xs \<and> k \<notin> set xs \<and>
    value_at S (bx_nodes t) k = Some v \<and>
    value_at S (bx_nodes t1) = (value_at S (bx_nodes t))(k \<mapsto> v\<lparr>bt_awake := False\<rparr>)"
proof -
  note q = bx_ok_queue [OF ok]
  obtain nxt' nodes' v where tk: "take_next bx_flag S (bd_next (cell_data t)) (bx_nodes t) =
      Inr (Some (k, nxt', nodes'))" "value_at S (bx_nodes t) k = Some v"
      "queue_ok bx_flag S cap nxt' nodes' xs"
      "value_at S nodes' = (value_at S (bx_nodes t))(k \<mapsto> v\<lparr>bt_awake := False\<rparr>)"
    using bx_task.take_ok [OF q] by auto
  let ?t = "t\<lparr>cell_data := (cell_data t)\<lparr>bd_next := nxt', bd_nodes := nodes'\<rparr>\<rparr>"
  have "bx_begin S t = Inr (Some k, ?t)"
    using tk(1) by (simp add: bx_begin_def with_borrow_def bx_ok_free [OF ok])
  moreover have "bx_ok S cap ?t xs" using ok tk(2-4) by (auto simp: bx_ok_def)
  moreover have "k \<notin> set xs" using run_queue.rep_distinct [OF queue_ok_rep [OF q]] by simp
  ultimately show ?thesis using tk(2,4) by auto
qed

lemma bx_task_at_iff:
  "bx_task_at S k t = Inr v \<longleftrightarrow> value_at S (bx_nodes t) k = Some v"
  by (auto simp: bx_task_at_def res_iff value_at_Some_iff split: option.splits)

text \<open>The end of a task, in one step.\<close>

lemma bx_complete_eq:
  assumes v: "value_at S (bx_nodes t) k = Some v" "bt_fut v = Some f"
    and d: "drop_fut f t w = Inr (t1, w1)" and ok: "bx_ok S cap t1 xs"
    and v1: "value_at S (bx_nodes t1) k = Some v1"
  shows "if ew_refs (bt_waker v1) = 1
     then \<exists>t'. bx_complete S drop_fut k t w = Inr (t', w1) \<and> bx_ok S cap t' (removeAll k xs) \<and>
       value_at S (bx_nodes t') = (value_at S (bx_nodes t1))(k := None)
     else bx_complete S drop_fut k t w = Inl Assert_panic"
proof -
  let ?g = "\<lambda>task :: 'a bx_task. task\<lparr>bt_fut := None\<rparr>"
  obtain t2 where t2: "bx_put_task S k ?g t1 = Inr t2" "\<not> cell_borrowed t2"
    "queue_ok bx_flag S cap (bd_next (cell_data t2)) (bx_nodes t2) xs"
    "value_at S (bx_nodes t2) = (value_at S (bx_nodes t1))(k \<mapsto> ?g v1)"
    using bx_put_ok [OF ok v1, of ?g] by auto
  have at: "bx_task_at S k t = Inr v" "bx_task_at S k t2 = Inr (?g v1)"
    using v(1) t2(4) by (simp_all add: bx_task_at_iff)
  show ?thesis
  proof (cases "ew_refs (bt_waker v1) = 1")
    case True
    have "value_at S (bx_nodes t2) k = Some (?g v1)" using t2(4) by simp
    from bx_task.free_ok [OF t2(3) this] obtain nxt' nodes'
      where f: "free_nodes S k (bd_next (cell_data t2)) (bx_nodes t2) = Inr (nxt', nodes')"
        "queue_ok bx_flag S cap nxt' nodes' (removeAll k xs)"
        "value_at S nodes' = (value_at S (bx_nodes t1))(k := None)"
      using t2(4) by auto
    let ?t = "t2\<lparr>cell_data := (cell_data t2)\<lparr>bd_next := nxt', bd_nodes := nodes'\<rparr>\<rparr>"
    have "bx_complete S drop_fut k t w = Inr (?t, w1)"
      using at v(2) d t2(1,2) f(1) True by (simp add: bx_complete_def with_borrow_def ref_count_def)
    moreover have "bx_ok S cap ?t (removeAll k xs)"
      using t2(2) f ok by (auto simp: bx_ok_def)
    ultimately show ?thesis using True f(3) by auto
  next
    case False
    with at v(2) d t2(1) show ?thesis by (simp add: bx_complete_def ref_count_def)
  qed
qed

lemma bx_complete_ok:
  assumes b: "bx_behaved S poll drop_fut" and ok: "bx_ok S cap t (xs @ zs)" and k: "k \<notin> set xs"
    and r: "bx_complete S drop_fut k t w = Inr (t', w')"
  shows "\<exists>zs. bx_ok S cap t' (xs @ zs)"
proof -
  obtain v where v: "value_at S (bx_nodes t) k = Some v"
    using r by (auto simp: bx_complete_def res_iff bx_task_at_iff)
  with bx_ok_task [OF ok v] obtain f where f: "bt_fut v = Some f" by (auto simp: bx_task_ok_def)
  from v have at: "bx_task_at S k t = Inr v" by (simp add: bx_task_at_iff)
  obtain t1 w1 where d: "drop_fut f t w = Inr (t1, w1)"
    using r at f by (auto simp: bx_complete_def res_iff)
  with b have "(bx_step S)\<^sup>*\<^sup>* t t1" unfolding bx_behaved_def by blast
  from bx_steps_ok [OF this ok] obtain ys where t1: "bx_ok S cap t1 (xs @ ys)" "bx_keeps S t t1"
    by auto
  with v obtain v1 where v1: "value_at S (bx_nodes t1) k = Some v1" by (auto simp: bx_keeps_def)
  from bx_complete_eq [where drop_fut = drop_fut, OF v f d t1(1) v1] r k show ?thesis
    by (auto split: if_splits)
qed

lemma bx_turn_ok:
  assumes b: "bx_behaved S poll drop_fut" and ok: "bx_ok S cap t xs" and k: "k \<notin> set xs"
    and r: "bx_turn S poll drop_fut k t w = Some (Inr (t', w'))"
  shows "\<exists>zs. bx_ok S cap t' (xs @ zs)"
proof -
  let ?g = "\<lambda>f' task. task\<lparr>bt_fut := Some f'\<rparr>"
  obtain v f d f' t2 w2 t3 where v: "value_at S (bx_nodes t) k = Some v"
    and p: "poll f k t w = Some (Inr (d, f', t2, w2))"
    and put: "bx_put_task S k (?g f') t2 = Inr t3"
    and c: "(if d then bx_complete S drop_fut k t3 w2 else Inr (t3, w2)) = Inr (t', w')"
    using r by (auto simp: turn_def bx_poll_def res_iff bx_task_at_iff)
  from b p have "(bx_step S)\<^sup>*\<^sup>* t t2" unfolding bx_behaved_def by blast
  from bx_steps_ok [OF this ok] obtain zs where t2: "bx_ok S cap t2 (xs @ zs)" "bx_keeps S t t2"
    by blast
  with v obtain v2 where v2: "value_at S (bx_nodes t2) k = Some v2" by (auto simp: bx_keeps_def)
  have "bx_task_ok k (?g f' v2)" using bx_ok_task [OF t2(1) v2] by (simp add: bx_task_ok_def)
  with bx_put_keeps [OF t2(1) v2, of "?g f'"] put have "bx_ok S cap t3 (xs @ zs)" by auto
  with c bx_complete_ok [OF b this k, of w2 t' w'] show ?thesis by (cases d) auto
qed

text \<open>The loop contract; the invariant includes that the futures behave.\<close>

definition bx_inv ::
  "('n, 'f bx_task node) slab_ops \<Rightarrow> ('n, 'f, 'w) bx_poll \<Rightarrow>
     ('f \<Rightarrow> 'n bx_tasks \<Rightarrow> 'w \<Rightarrow> ('n bx_tasks \<times> 'w) res) \<Rightarrow> nat \<Rightarrow> 'n bx_tasks \<Rightarrow> nat list \<Rightarrow> bool" where
  "bx_inv S poll drop_fut cap t xs \<longleftrightarrow> bx_behaved S poll drop_fut \<and> bx_ok S cap t xs"

interpretation bx_loop: poll_loop "bx_begin S" "bx_poll S poll" "bx_complete S drop_fut"
  "bx_inv S poll drop_fut cap" for S poll drop_fut cap
proof unfold_locales
  show "bx_begin S t = Inr (None, t)" if "bx_inv S poll drop_fut cap t []" for t
    using that by (auto simp: bx_inv_def intro: bx_begin_empty)
  show "\<exists>t1. bx_begin S t = Inr (Some k, t1) \<and> bx_inv S poll drop_fut cap t1 xs \<and> k \<notin> set xs"
    if "bx_inv S poll drop_fut cap t (k # xs)" for t k xs
    using that bx_begin_front [of S cap t k xs] by (auto simp: bx_inv_def)
  show "\<exists>zs. bx_inv S poll drop_fut cap t' (xs @ zs)"
    if "bx_inv S poll drop_fut cap t xs" "k \<notin> set xs"
      "bx_turn S poll drop_fut k t w = Some (Inr (t', w'))" for t xs k w t' w'
    using that bx_turn_ok [of S poll drop_fut cap t xs k w t' w'] by (auto simp: bx_inv_def)
qed

lemmas bx_drains = bx_loop.process_drains [folded bx_process_next_def]
lemmas bx_process_eq = process_loop_eq [of "bx_begin S" "bx_poll S poll" "bx_complete S drop_fut",
    folded bx_process_next_def] for S poll drop_fut

subsection \<open>The executor meets the contract\<close>

definition bx_entry :: "'f bx_task \<Rightarrow> ('f \<times> usize) option" where
  "bx_entry v = map_option (\<lambda>f. (f, ew_refs (bt_waker v))) (bt_fut v)"

definition bx_view :: "('n, 'f bx_task node) slab_ops \<Rightarrow> 'n bx_tasks \<Rightarrow> 'f tasks" where
  "bx_view S t k = Option.bind (value_at S (bx_nodes t) k) bx_entry"

definition bx_rep ::
  "('n, 'f bx_task node) slab_ops \<Rightarrow> nat \<Rightarrow> 'n bx_tasks \<Rightarrow> 'f tasks \<Rightarrow> nat list \<Rightarrow> bool" where
  "bx_rep S cap t m xs \<longleftrightarrow> bx_ok S cap t xs \<and> m = bx_view S t"

lemma bx_repD:
  assumes "bx_rep S cap t m xs" shows "bx_ok S cap t xs" and "m = bx_view S t"
  using assms by (simp_all add: bx_rep_def)

lemma bx_entry_simps [simp]:
  "bx_entry (v\<lparr>bt_awake := b\<rparr>) = bx_entry v"
  "bx_entry (v\<lparr>bt_fut := Some f\<rparr>) = Some (f, ew_refs (bt_waker v))"
  "bx_entry (bx_new_task f k) = Some (f, 1)"
  by (simp_all add: bx_entry_def bx_new_task_def embed_waker_new_def)

lemma bx_view_upd:
  "value_at S (bx_nodes t') = (value_at S (bx_nodes t))(k := x) \<Longrightarrow>
     bx_view S t' = (bx_view S t)(k := Option.bind x bx_entry)"
  by (auto simp: bx_view_def fun_eq_iff)

lemma bx_view_awake:
  "value_at S (bx_nodes t) k = Some v \<Longrightarrow>
     value_at S (bx_nodes t') = (value_at S (bx_nodes t))(k \<mapsto> v\<lparr>bt_awake := b\<rparr>) \<Longrightarrow> bx_view S t' = bx_view S t"
  by (auto simp: bx_view_def fun_eq_iff)

lemma bx_rep_Some:
  assumes "bx_rep S cap t m xs" and "m k = Some (f, r)"
  shows "\<exists>v. value_at S (bx_nodes t) k = Some v \<and> bt_fut v = Some f \<and> ew_refs (bt_waker v) = r \<and>
    ew_task_id (bt_waker v) = k"
proof -
  obtain v where v: "value_at S (bx_nodes t) k = Some v" "bt_fut v = Some f" "ew_refs (bt_waker v) = r"
    using assms by (cases "value_at S (bx_nodes t) k") (auto simp: bx_rep_def bx_view_def bx_entry_def)
  with bx_ok_task [OF bx_repD(1) [OF assms(1)] v(1)] show ?thesis by (simp add: bx_task_ok_def)
qed

lemma bx_rep_dom:
  assumes "bx_rep S cap t m xs" shows "dom m = dom (value_at S (bx_nodes t))"
proof -
  have "m k \<noteq> None \<longleftrightarrow> value_at S (bx_nodes t) k \<noteq> None" for k
    using bx_ok_task [OF bx_repD(1) [OF assms], of k]
    by (cases "value_at S (bx_nodes t) k") (auto simp: bx_repD(2) [OF assms] bx_view_def bx_task_ok_def bx_entry_def)
  then show ?thesis by blast
qed

lemma bx_rep_card:
  assumes "bx_rep S cap t m xs" shows "slab_len S (bx_nodes t) = card (dom m)"
  using task_pool.used_view [OF queue_ok_rep [OF bx_ok_queue [OF bx_repD(1) [OF assms]]]]
  by (simp add: bx_rep_dom [OF assms])

lemma bx_rep_set_waker:
  assumes rep: "bx_rep S cap t m xs" and m: "m k = Some (f, r)"
    and v: "value_at S (bx_nodes t) k = Some v"
  shows "bx_rep S cap (im_set (bx_wakers S) t k ((bt_waker v)\<lparr>ew_refs := r'\<rparr>)) (m(k \<mapsto> (f, r'))) xs"
proof -
  have vk: "bt_fut v = Some f" "ew_task_id (bt_waker v) = k"
    using bx_rep_Some [OF rep m] v by auto
  then have "ew_task_id ((bt_waker v)\<lparr>ew_refs := r'\<rparr>) = k" by simp
  from bx_set_waker [OF bx_repD(1) [OF rep] v this] show ?thesis
    using vk(1) bx_repD(2) [OF rep] by (auto simp: bx_rep_def bx_view_upd bx_entry_def)
qed

lemma bx_poll_rep:
  assumes rep: "bx_rep S cap t m xs" and m: "m k = Some (f, r)"
    and p: "poll f k t w = Some (Inr (d, f', t2, w2))"
    and rep2: "bx_rep S cap t2 m2 ys" and m2: "m2 k = Some (f2, r2)"
  shows "\<exists>t3. bx_poll S poll k t w = Some (Inr (d, t3, w2)) \<and> bx_rep S cap t3 (m2(k \<mapsto> (f', r2))) ys"
proof -
  obtain v where v: "value_at S (bx_nodes t) k = Some v" "bt_fut v = Some f"
    using bx_rep_Some [OF rep m] by blast
  obtain v2 where v2: "value_at S (bx_nodes t2) k = Some v2" "ew_refs (bt_waker v2) = r2"
    "ew_task_id (bt_waker v2) = k"
    using bx_rep_Some [OF rep2 m2] by blast
  obtain t3 where t3: "bx_put_task S k (\<lambda>task. task\<lparr>bt_fut := Some f'\<rparr>) t2 = Inr t3" "bx_ok S cap t3 ys"
    "value_at S (bx_nodes t3) = (value_at S (bx_nodes t2))(k \<mapsto> v2\<lparr>bt_fut := Some f'\<rparr>)"
    using bx_put_keeps [OF bx_repD(1) [OF rep2] v2(1), of "\<lambda>task. task\<lparr>bt_fut := Some f'\<rparr>"] v2(3) by auto
  from t3(1) have "bx_poll S poll k t w = Some (Inr (d, t3, w2))"
    using v p by (simp add: bx_poll_def iffD2 [OF bx_task_at_iff])
  with t3 v2(2) show ?thesis by (auto simp: bx_rep_def bx_view_upd bx_repD(2) [OF rep2])
qed

lemma bx_complete_rep:
  assumes rep: "bx_rep S cap t m xs" and m: "m k = Some (f, 1)" and d: "\<And>t. drop_fut f t w = Inr (t, w')"
  shows "\<exists>t'. bx_complete S drop_fut k t w = Inr (t', w') \<and> bx_rep S cap t' (m(k := None)) (removeAll k xs)"
proof -
  obtain v where v: "value_at S (bx_nodes t) k = Some v" "bt_fut v = Some f" "ew_refs (bt_waker v) = 1"
    using bx_rep_Some [OF rep m] by blast
  from bx_complete_eq [where drop_fut = drop_fut, OF v(1,2) d bx_repD(1) [OF rep] v(1)] v(3)
  show ?thesis by (auto simp: bx_rep_def bx_view_upd bx_repD(2) [OF rep])
qed

interpretation bx_exec: task_executor "bx_vtable S" "\<lambda>k. k" cap "bx_rep S cap" "bx_begin S"
  "bx_poll S" "bx_complete S" "bx_is_empty S" "bx_add S" for S cap
proof unfold_locales
  fix t :: "'a bx_tasks" and m xs k f and r :: usize
  assume rep: "bx_rep S cap t m xs"
  note ok = bx_repD(1) [OF rep]
  show "finite (dom m) \<and> distinct xs \<and> set xs \<subseteq> dom m"
    using task_pool.used_view [OF queue_ok_rep [OF bx_ok_queue [OF ok]]]
      run_queue.rep_distinct [OF queue_ok_rep [OF bx_ok_queue [OF ok]]]
      queue_ok_member [OF bx_ok_queue [OF ok]] bx_rep_dom [OF rep] by auto
  show "bx_is_empty S t = Inr (m = Map.empty)"
    using queue_ok_empty_iff [OF bx_ok_queue [OF ok]] bx_rep_dom [OF rep]
    by (auto simp: bx_is_empty_def bx_ok_free [OF ok])
  show "\<exists>t'. vt_wake_by_ref (bx_vtable S) k t = Inr t' \<and> bx_rep S cap t' m (sched_wake k xs)"
    if "m k = Some a" for a
  proof -
    obtain f r where "a = (f, r)" by (cases a)
    with that obtain v where v: "value_at S (bx_nodes t) k = Some v" "ew_task_id (bt_waker v) = k"
      using bx_rep_Some [OF rep, of k f r] by auto
    from bx_wake_ok [OF ok v(1)] obtain t' where t': "bx_wake S k t = Inr t'"
      "bx_ok S cap t' (sched_wake k xs)"
      "value_at S (bx_nodes t') = (value_at S (bx_nodes t))(k \<mapsto> v\<lparr>bt_awake := True\<rparr>)" by blast
    have "vt_wake_by_ref (bx_vtable S) k t = Inr t'"
      using t'(1) v by (simp add: bx_vtable_def embed_vtable_def embed_wake_by_ref_def deref_def
          bx_wakers_get)
    with t'(2) bx_view_awake [OF v(1) t'(3)] bx_repD(2) [OF rep] show ?thesis by (auto simp: bx_rep_def)
  qed
  show "vt_wake (bx_vtable S) k t =
      and_then (vt_wake_by_ref (bx_vtable S) k t) (vt_drop (bx_vtable S) k)"
    by (simp add: bx_vtable_def embed_vtable_def embed_wake_def)
  show "\<exists>t'. vt_clone (bx_vtable S) k t = Inr (k, t') \<and> bx_rep S cap t' (m(k \<mapsto> (f, r + 1))) xs"
    if "m k = Some (f, r)"
    using bx_rep_Some [OF rep that] bx_rep_set_waker [OF rep that]
    by (auto simp: bx_vtable_def embed_vtable_def embed_clone_def deref_def bx_wakers_get)
  show "\<exists>t'. vt_drop (bx_vtable S) k t = Inr t' \<and> bx_rep S cap t' (m(k \<mapsto> (f, r - 1))) xs"
    if "m k = Some (f, r)" "1 < r"
    using bx_rep_Some [OF rep that(1)] bx_rep_set_waker [OF rep that(1)] that(2)
    by (auto simp: bx_vtable_def embed_vtable_def embed_drop_def deref_def bx_wakers_get Let_def)
  show "\<exists>k t'. bx_add S f t = Inr (Inr (), t') \<and> m k = None \<and>
      bx_rep S cap t' (m(k \<mapsto> (f, 1))) (xs @ [k])" if "card (dom m) < cap"
  proof -
    have "slab_len S (bx_nodes t) < cap" using that bx_rep_card [OF rep] by simp
    from bx_add_ok [OF ok this, of f] obtain k t' where a: "bx_add S f t = Inr (Inr (), t')"
      "value_at S (bx_nodes t) k = None" "bx_ok S cap t' (xs @ [k])"
      "value_at S (bx_nodes t') = (value_at S (bx_nodes t))(k \<mapsto> bx_new_task f k)" by blast
    have "m k = None" using bx_rep_dom [OF rep] a(2) by auto
    with a(1,3) bx_view_upd [OF a(4)] show ?thesis by (auto simp: bx_rep_def bx_repD(2) [OF rep])
  qed
  show "bx_add S f t = Inr (Inl (), t)" if "card (dom m) = cap"
    using bx_add_full [OF ok] that bx_rep_card [OF rep] by simp
next
  show "bx_begin S t = Inr (None, t)" if "bx_rep S cap t m []" for t m
    by (rule bx_begin_empty [OF bx_repD(1) [OF that]])
  show "\<exists>t1. bx_begin S t = Inr (Some k, t1) \<and> bx_rep S cap t1 m xs"
    if rep: "bx_rep S cap t m (k # xs)" for t m k xs
    using bx_begin_front [OF bx_repD(1) [OF rep]] bx_view_awake bx_repD(2) [OF rep]
    by (fastforce simp: bx_rep_def)
qed (rule bx_poll_rep bx_complete_rep; assumption)+

interpretation bx_scripts: scripted_executor "bx_vtable S" "\<lambda>k. k" cap "bx_rep S cap" "bx_begin S"
  "bx_poll S" "bx_complete S" "bx_is_empty S" "bx_add S" for S cap
  by unfold_locales

lemma bx_rep_new: "slab_ok S \<Longrightarrow> bx_rep S n (bx_tasks_new S n) Map.empty []"
  using bx_ok_new [of S n]
  by (simp add: bx_rep_def bx_view_def [abs_def] bx_tasks_new_def value_at_def slab_new)

subsection \<open>Properties\<close>

text \<open>
  A future for the witnesses: it counts the polls left, wakes itself between them, and its
  executor has two slots.
\<close>

definition bx_yield :: "('n, nat bx_task node) slab_ops \<Rightarrow> ('n, nat, unit) bx_poll" where
  "bx_yield S = (\<lambda>n p t w.
     if n = 0 then Some (Inr (True, n, t, w))
     else run_then (Some (vt_wake_by_ref (bx_vtable S) p t)) (\<lambda>t. Some (Inr (False, n - 1, t, w))))"

definition bx_no_drop :: "nat \<Rightarrow> 'n bx_tasks \<Rightarrow> unit \<Rightarrow> ('n bx_tasks \<times> unit) res" where
  "bx_no_drop = (\<lambda>_ t w. Inr (t, w))"

definition bx_two_slots :: "(nat bx_task node) vslab bx_tasks" where
  "bx_two_slots = bx_tasks_new vec_slab 2"

lemma bx_yield_behaved: "bx_behaved S (bx_yield S) bx_no_drop"
  unfolding bx_behaved_def
proof (intro conjI allI impI)
  fix f k t w d f' t' w'
  assume "bx_yield S f k t w = Some (Inr (d, f', t', w'))"
  then have "t' = t \<or> (\<exists>j. bx_wake S j t = Inr t')"
    by (auto simp: bx_yield_def res_iff bx_vtable_def embed_vtable_def embed_wake_by_ref_def
        split: if_splits)
  then show "(bx_step S)\<^sup>*\<^sup>* t t'" by (auto intro: bx_step_wake)
qed (simp add: bx_no_drop_def)

text \<open>
  C14. When \<open>process_next\<close> of the boxing executor returns, the run queue is empty and every stored
  task sleeps with its future in place, whatever the futures did when they were polled and when
  they were dropped.
\<close>

theorem bx_no_lost_wakeup:
  assumes "bx_behaved S poll drop_fut" and "bx_ok S cap t xs"
    and "bx_process_next S poll drop_fut t w = Some (Inr (t', w'))"
  shows "bx_ok S cap t' [] \<and> l_head (bd_next (cell_data t')) = None \<and>
    (\<forall>k v. value_at S (bx_nodes t') k = Some v \<longrightarrow> \<not> bt_awake v \<and> bt_fut v \<noteq> None)"
proof -
  have ok: "bx_ok S cap t' []"
    using bx_drains [OF assms(3), of cap xs] assms(1,2) by (simp add: bx_inv_def)
  have "l_head (bd_next (cell_data t')) = None"
    using run_queue.front_rep [OF queue_ok_rep [OF bx_ok_queue [OF ok]]] by simp
  moreover have "\<not> bt_awake v \<and> bt_fut v \<noteq> None" if "value_at S (bx_nodes t') k = Some v" for k v
    using bx_ok_queue [OF ok] bx_ok_task [OF ok that] that by (simp add: queue_ok_def bx_task_ok_def)
  ultimately show ?thesis using ok by blast
qed

lemma bx_one_task:
  "\<exists>t t'. bx_add vec_slab 3 bx_two_slots = Inr (Inr (), t) \<and> (\<exists>k. bx_ok vec_slab 2 t [k]) \<and>
     bx_process_next vec_slab (bx_yield vec_slab) bx_no_drop t () = Some (Inr (t', ())) \<and>
     bx_ok vec_slab 2 t' [] \<and> bx_is_empty vec_slab t' = Inr True"
proof -
  have ok: "bx_ok vec_slab 2 bx_two_slots []" by (simp add: bx_two_slots_def bx_ok_new)
  have e: "bx_view vec_slab bx_two_slots = Map.empty"
    by (auto simp: bx_view_def bx_two_slots_def bx_tasks_new_def value_at_def vec_slab_def slot_def)
  have "bx_rep vec_slab 2 bx_two_slots Map.empty []" using ok e by (simp add: bx_rep_def)
  from bx_exec.spawn_room [OF this, of 3] obtain k t
    where t: "bx_add vec_slab 3 bx_two_slots = Inr (Inr (), t)" "bx_rep vec_slab 2 t [k \<mapsto> (3, 1)] [k]"
    by (auto simp del: fun_upd_apply)
  have y: "bx_yield vec_slab = bx_exec.yielding vec_slab id (\<lambda>n. n - 1)"
    by (simp add: bx_yield_def bx_exec.yielding_def fun_eq_iff)
  have d: "bx_no_drop = (\<lambda>_ t w. Inr (t, ()))" by (simp add: bx_no_drop_def fun_eq_iff)
  from bx_exec.lone_task_returns [OF t(2), of id "\<lambda>n. n - 1" "()"] obtain t'
    where "bx_process_next vec_slab (bx_yield vec_slab) bx_no_drop t () = Some (Inr (t', ()))"
      and r: "bx_rep vec_slab 2 t' Map.empty []"
    by (auto simp: bx_process_next_def y d)
  then show ?thesis
    using t bx_exec.empty_iff [OF r] by (auto simp: bx_rep_def)
qed

theorem bx_no_lost_wakeup_witness:
  "\<exists>t t'. bx_add vec_slab 3 bx_two_slots = Inr (Inr (), t) \<and>
     bx_process_next vec_slab (bx_yield vec_slab) bx_no_drop t () = Some (Inr (t', ())) \<and>
     l_head (bd_next (cell_data t')) = None"
proof -
  from bx_one_task obtain t t' k where t: "bx_add vec_slab 3 bx_two_slots = Inr (Inr (), t)"
      "bx_ok vec_slab 2 t [k]"
      "bx_process_next vec_slab (bx_yield vec_slab) bx_no_drop t () = Some (Inr (t', ()))" by blast
  with bx_no_lost_wakeup [OF bx_yield_behaved t(2,3)] show ?thesis by blast
qed

text \<open>
  C15. \<open>run\<close> of the boxing executor carries out a whole program of futures whose scripts are known,
  in an environment that wakes tasks as it likes: the log of its polls, drops and waits is the one
  of \<open>lives\<close>. It waits exactly when no task is ready and some sleep, polls the tasks that were
  woken meanwhile and no others, returns when every task was completed, and panics when a wait
  fails.
\<close>

theorem bx_run_lives:
  assumes "lives wakes q Map.empty log r" and "bx_rep S cap t (queued q) (map fst q)"
  shows "case r of
      Inl e \<Rightarrow> bx_run S (scripted_poll (bx_vtable S)) scripted_drop
        (scripted_park (bx_vtable S) (\<lambda>k. k) wakes) t log = Some (Inl e)
    | Inr log' \<Rightarrow> \<exists>t'. bx_run S (scripted_poll (bx_vtable S)) scripted_drop
        (scripted_park (bx_vtable S) (\<lambda>k. k) wakes) t log = Some (Inr (t', log')) \<and>
        bx_rep S cap t' Map.empty []"
  unfolding bx_run_def
  by (rule bx_scripts.run_lives [OF assms(1)]) (simp_all add: assms(2) bx_process_next_def)

theorem bx_run_lives_witness:
  "\<exists>j t1 t2 t3. bx_add vec_slab (''a'', [True]) (bx_tasks_new vec_slab 2) = Inr (Inr (), t1) \<and>
    bx_add vec_slab (''b'', [False]) t1 = Inr (Inr (), t2) \<and>
    bx_run vec_slab (scripted_poll (bx_vtable vec_slab)) scripted_drop
      (scripted_park (bx_vtable vec_slab) (\<lambda>k. k) (\<lambda>_. Some [j, j])) t2 [] =
      Some (Inr (t3, [Polled ''a'', Polled ''b'', Polled ''a'', Dropped ''a'', Parked,
        Polled ''b'', Dropped ''b'']))"
proof -
  obtain k j t1 t2 where g: "bx_add vec_slab (''a'', [True]) (bx_tasks_new vec_slab 2) = Inr (Inr (), t1)"
    "bx_add vec_slab (''b'', [False]) t1 = Inr (Inr (), t2)"
    and r: "bx_rep vec_slab 2 t2 (queued [(k, ''a'', [True]), (j, ''b'', [False])]) [k, j]"
    using bx_exec.spawn_two [OF bx_rep_new [OF vec_slab_ok], of 2 "(''a'', [True])" "(''b'', [False])"]
    by auto
  let ?first = "[Polled ''a'', Polled ''b'', Polled ''a'', Dropped ''a'']"
  have first: "rounds [(k, ''a'', [True]), (j, ''b'', [False])] Map.empty [] = ([j \<mapsto> ((''b'', []), 1)], ?first)"
    by simp
  have "lives (\<lambda>_. Some [j, j]) [(j, ''b'', [])] Map.empty (?first @ [Parked])
      (Inr (?first @ [Parked, Polled ''b'', Dropped ''b'']))"
    by (rule lives_end) simp_all
  then have "lives (\<lambda>_. Some [j, j]) [(k, ''a'', [True]), (j, ''b'', [False])] Map.empty []
      (Inr (?first @ [Parked, Polled ''b'', Dropped ''b'']))"
    by (intro lives_wait [OF first, where ks = "[j, j]"]) (simp_all add: woken_def sched_wake_def)
  from bx_run_lives [OF this, of vec_slab 2 t2] r g show ?thesis by auto
qed

text \<open>
  C25. Unlike the executor without boxes, the boxing executor drops a finished future while
  nothing is borrowed: a future that wakes another task when it is dropped queues that task, and
  the finished task is freed, provided no clone of its waker is left.
\<close>

theorem bx_drop_may_wake:
  assumes "bx_ok S cap t xs" and "value_at S (bx_nodes t) k = Some v"
    and "value_at S (bx_nodes t) j \<noteq> None" and "j \<noteq> k" and "ew_refs (bt_waker v) = 1"
  shows "\<exists>t'. bx_complete S (\<lambda>f t w. and_then (bx_wake S j t) (\<lambda>t. Inr (t, w))) k t w = Inr (t', w) \<and>
    bx_ok S cap t' (removeAll k (sched_wake j xs)) \<and> j \<in> set (removeAll k (sched_wake j xs)) \<and>
    value_at S (bx_nodes t') k = None"
proof -
  let ?drop = "\<lambda>f t w. and_then (bx_wake S j t) (\<lambda>t. Inr (t, w))"
  obtain f where f: "bt_fut v = Some f" using bx_ok_task [OF assms(1,2)] by (auto simp: bx_task_ok_def)
  obtain u where u: "value_at S (bx_nodes t) j = Some u" using assms(3) by auto
  from bx_wake_ok [OF assms(1) u] obtain t1 where t1: "bx_wake S j t = Inr t1"
      "bx_ok S cap t1 (sched_wake j xs)"
      "value_at S (bx_nodes t1) = (value_at S (bx_nodes t))(j \<mapsto> u\<lparr>bt_awake := True\<rparr>)" by auto
  have "?drop f t w = Inr (t1, w)" using t1(1) by simp
  moreover have "value_at S (bx_nodes t1) k = Some v" using t1(3) assms(2,4) by simp
  ultimately show ?thesis
    using bx_complete_eq [of S t k v f ?drop w t1 w cap "sched_wake j xs" v] assms(2,4,5) f t1(2)
    by auto
qed

lemma bx_two_tasks:
  "\<exists>t j k. bx_ok vec_slab 2 t [j, k] \<and> j \<noteq> k \<and>
     value_at vec_slab (bx_nodes t) = [j \<mapsto> bx_new_task (0 :: nat) j, k \<mapsto> bx_new_task 0 k]"
proof -
  have ok: "bx_ok vec_slab 2 bx_two_slots []" by (simp add: bx_two_slots_def bx_ok_new)
  have e: "slab_len vec_slab (bx_nodes bx_two_slots) = 0"
    "value_at vec_slab (bx_nodes bx_two_slots) = Map.empty"
    by (auto simp: bx_two_slots_def bx_tasks_new_def value_at_def vec_slab_def slot_def)
  from bx_add_ok [OF ok, of 0] e obtain j t where t: "bx_ok vec_slab 2 t [j]"
      "value_at vec_slab (bx_nodes t) = [j \<mapsto> bx_new_task (0 :: nat) j]" by auto
  have "slab_len vec_slab (bx_nodes t) = 1"
    using task_pool.used_view [OF queue_ok_rep [OF bx_ok_queue [OF t(1)]]] t(2) by simp
  with bx_add_ok [OF t(1), of 0] obtain k t' where a: "bx_ok vec_slab 2 t' [j, k]"
      "value_at vec_slab (bx_nodes t) k = None"
      "value_at vec_slab (bx_nodes t') = (value_at vec_slab (bx_nodes t))(k \<mapsto> bx_new_task 0 k)"
    by auto
  then have "j \<noteq> k" using t(2) by auto
  with a t(2) show ?thesis by (intro exI [of _ t'] exI [of _ j] exI [of _ k]) simp
qed

theorem bx_drop_may_wake_witness:
  "\<exists>t t' j k. bx_complete vec_slab (\<lambda>f :: nat. \<lambda>t w. and_then (bx_wake vec_slab j t) (\<lambda>t. Inr (t, w)))
     k t () = Inr (t', ()) \<and> bx_ok vec_slab 2 t' [j :: nat]"
proof -
  from bx_two_tasks obtain t j k where t: "bx_ok vec_slab 2 t [j, k]" "j \<noteq> k"
    "value_at vec_slab (bx_nodes t) = [j \<mapsto> bx_new_task (0 :: nat) j, k \<mapsto> bx_new_task 0 k]" by blast
  have "value_at vec_slab (bx_nodes t) k = Some (bx_new_task 0 k)"
    "value_at vec_slab (bx_nodes t) j \<noteq> None" "ew_refs (bt_waker (bx_new_task (0 :: nat) k)) = 1"
    using t(2,3) by (simp_all add: bx_new_task_def embed_waker_new_def)
  from bx_drop_may_wake [OF t(1) this(1,2) t(2) this(3), of "()"] t(2) obtain t'
    where "bx_complete vec_slab (\<lambda>f t w. and_then (bx_wake vec_slab j t) (\<lambda>t. Inr (t, w))) k t () =
      Inr (t', ())" "bx_ok vec_slab 2 t' [j]"
    by (auto simp: sched_wake_def)
  then show ?thesis by blast
qed

end
