(* ===== verification/Task_Waker.thy ===== *)
theory Task_Waker
  imports Waker
begin

section \<open>The reference-counted wakers of tasks (src/src/executor.rs, boxrc)\<close>

text \<open>
  \<open>TaskWaker\<close> is what \<open>BoxRcExecutor\<close> wraps in its wakers: a weak pointer to the tasks of the
  executor, the id of a task and the thread it was made on. It implements the three traits
  \<open>LocalWake\<close>, \<open>CheckedLocalWake\<close> and \<open>Wake\<close> with the same two functions. \<open>upgrade\<close> tells
  whether the weak pointer still leads to tasks; \<open>wake\<close> is \<open>Tasks::wake\<close> on them.
\<close>

record task_waker =
  tw_tasks :: nat
  tw_task_id :: nat
  tw_thread_id :: nat

definition task_wake_by_ref ::
  "('x, task_waker rc_box, 'z) index_mut_scheme \<Rightarrow> (nat \<Rightarrow> 'x \<Rightarrow> bool) \<Rightarrow>
     (nat \<Rightarrow> nat \<Rightarrow> 'x \<Rightarrow> 'x res) \<Rightarrow> nat \<Rightarrow> 'x \<Rightarrow> 'x res" where
  "task_wake_by_ref M upgrade wake ptr x =
     and_then (rc_deref M ptr x) (\<lambda>b.
     let s = rc_value b in
     if upgrade (tw_tasks s) x then wake (tw_tasks s) (tw_task_id s) x else Inr x)"

text \<open>\<open>wake\<close> takes its \<open>Rc\<close> by value and drops it when it returns.\<close>

definition task_wake ::
  "('x, task_waker rc_box, 'z) index_mut_scheme \<Rightarrow> (nat \<Rightarrow> 'x \<Rightarrow> bool) \<Rightarrow>
     (nat \<Rightarrow> nat \<Rightarrow> 'x \<Rightarrow> 'x res) \<Rightarrow> nat \<Rightarrow> 'x \<Rightarrow> 'x res" where
  "task_wake M upgrade wake ptr x =
     and_then (task_wake_by_ref M upgrade wake ptr x) (rc_drop M ptr)"

definition task_local_wake ::
  "('x, task_waker rc_box, 'z) index_mut_scheme \<Rightarrow> (nat \<Rightarrow> 'x \<Rightarrow> bool) \<Rightarrow>
     (nat \<Rightarrow> nat \<Rightarrow> 'x \<Rightarrow> 'x res) \<Rightarrow> (task_waker, 'x) local_wake" where
  "task_local_wake M upgrade wake =
     \<lparr>lw_wake = task_wake M upgrade wake, lw_wake_by_ref = task_wake_by_ref M upgrade wake,
      lw_thread_id = tw_thread_id\<rparr>"

subsection \<open>The contract\<close>

text \<open>
  The memory a waker lives in and what its notifications do, as one record. A task waker is
  live while its box has owners and waking tasks leaves the boxes alone; with the thread check
  it is also used on the thread it was made on.
\<close>

record 'x waker_world =
  ww_mem :: "('x, task_waker rc_box) index_mut"
  ww_upgrade :: "nat \<Rightarrow> 'x \<Rightarrow> bool"
  ww_wake :: "nat \<Rightarrow> nat \<Rightarrow> 'x \<Rightarrow> 'x res"
  ww_thread :: nat

definition rc_live :: "'x waker_world \<Rightarrow> 'x \<Rightarrow> nat \<Rightarrow> bool" where
  "rc_live V x p \<longleftrightarrow>
     index_mut_ok (ww_mem V) \<and>
     (\<exists>b. im_get (ww_mem V) x p = Some b \<and> rc_strong b \<noteq> 0 \<and>
        tw_thread_id (rc_value b) = ww_thread V) \<and>
     (\<forall>t k y y'. ww_wake V t k y = Inr y' \<longrightarrow> im_get (ww_mem V) y' = im_get (ww_mem V) y)"

definition rc_notify :: "'x waker_world \<Rightarrow> nat \<Rightarrow> 'x \<Rightarrow> 'x res" where
  "rc_notify V p x = task_wake_by_ref (ww_mem V) (ww_upgrade V) (ww_wake V) p x"

definition rc_table :: "'x waker_world \<Rightarrow> (nat, 'x) raw_vtable" where
  "rc_table V = raw_waker (ww_mem V) (task_local_wake (ww_mem V) (ww_upgrade V) (ww_wake V))"

definition checked_table :: "'x waker_world \<Rightarrow> (nat, 'x) raw_vtable" where
  "checked_table V = checked_raw_waker (ww_mem V)
     (task_local_wake (ww_mem V) (ww_upgrade V) (ww_wake V)) (ww_thread V)"

lemma rc_live_deref:
  "rc_live V x p \<Longrightarrow> \<exists>b. rc_deref (ww_mem V) p x = Inr b \<and> im_get (ww_mem V) x p = Some b \<and>
     rc_strong b \<noteq> 0 \<and> tw_thread_id (rc_value b) = ww_thread V"
  by (auto simp: rc_live_def rc_deref_def deref_def)

lemma rc_live_set:
  assumes "rc_live V x p" and "rc_strong b' \<noteq> 0" and "tw_thread_id (rc_value b') = ww_thread V"
  shows "rc_live V (im_set (ww_mem V) x p b') p"
    and "weak_strong_count (ww_mem V) q (im_set (ww_mem V) x p b') =
      ((\<lambda>q. weak_strong_count (ww_mem V) q x)(p := rc_strong b')) q"
proof -
  have "im_get (ww_mem V) (im_set (ww_mem V) x p b') = (im_get (ww_mem V) x)(p \<mapsto> b')"
    using assms(1) by (auto simp: rc_live_def im_get_set)
  with assms show "rc_live V (im_set (ww_mem V) x p b') p"
    "weak_strong_count (ww_mem V) q (im_set (ww_mem V) x p b') =
      ((\<lambda>q. weak_strong_count (ww_mem V) q x)(p := rc_strong b')) q"
    by (auto simp: rc_live_def weak_strong_count_def)
qed

lemma rc_live_notify:
  assumes "rc_live V x p" and "rc_notify V p x = Inr x'"
  shows "rc_live V x' p \<and> (\<lambda>q. weak_strong_count (ww_mem V) q x') = (\<lambda>q. weak_strong_count (ww_mem V) q x)"
proof -
  have "im_get (ww_mem V) x' = im_get (ww_mem V) x"
    using assms by (auto simp: rc_notify_def task_wake_by_ref_def rc_live_def res_iff Let_def
        split: if_splits)
  with assms(1) show ?thesis by (auto simp: rc_live_def weak_strong_count_def)
qed

lemma check_thread_live:
  "rc_live V x p \<Longrightarrow>
     check_thread (ww_mem V) (task_local_wake (ww_mem V) u w) (ww_thread V) p x = Inr ()"
  using rc_live_deref [of V x p]
  by (force simp: check_thread_def task_local_wake_def is_current_thread_def)

lemmas rc_table_defs = rc_table_def raw_waker_def rc_clone_def rc_drop_def task_local_wake_def
  task_wake_def rc_notify_def

interpretation plain_rc: waker_contract rc_table rc_live
  "\<lambda>V x p. weak_strong_count (ww_mem V) p x" rc_notify
proof unfold_locales
  fix V :: "'a waker_world" and x x' :: 'a and p :: nat
  assume l: "rc_live V x p"
  from rc_live_deref [OF l] obtain b
    where b: "rc_deref (ww_mem V) p x = Inr b" "im_get (ww_mem V) x p = Some b"
      "rc_strong b \<noteq> 0" "tw_thread_id (rc_value b) = ww_thread V"
    by blast
  show "\<exists>x'. vt_clone (rc_table V) p x = Inr (p, x') \<and> rc_live V x' p \<and>
      (\<lambda>p. weak_strong_count (ww_mem V) p x') =
        (\<lambda>p. weak_strong_count (ww_mem V) p x)(p := weak_strong_count (ww_mem V) p x + 1)"
    if "weak_strong_count (ww_mem V) p x \<noteq> -1"
    using that b rc_live_set [OF l] usize_succ_nonzero
    by (simp add: rc_table_defs weak_strong_count_def fun_eq_iff)
  show "\<exists>x'. vt_drop (rc_table V) p x = Inr x' \<and> rc_live V x' p \<and>
      (\<lambda>p. weak_strong_count (ww_mem V) p x') =
        (\<lambda>p. weak_strong_count (ww_mem V) p x)(p := weak_strong_count (ww_mem V) p x - 1)"
    if "1 < weak_strong_count (ww_mem V) p x"
    using that b rc_live_set [OF l] usize_pred_nonzero
    by (simp add: rc_table_defs weak_strong_count_def fun_eq_iff)
  show "vt_wake_by_ref (rc_table V) p x = rc_notify V p x"
    and "vt_wake (rc_table V) p x = and_then (rc_notify V p x) (vt_drop (rc_table V) p)"
    using b by (simp_all add: rc_table_defs)
qed (rule rc_live_notify)

text \<open>On its own thread the table with the thread check behaves as the one without.\<close>

lemma checked_table_live:
  assumes "rc_live V x p"
  shows "vt_clone (checked_table V) p x = vt_clone (rc_table V) p x"
    and "vt_wake (checked_table V) p x = vt_wake (rc_table V) p x"
    and "vt_wake_by_ref (checked_table V) p x = vt_wake_by_ref (rc_table V) p x"
    and "vt_drop (checked_table V) p x = vt_drop (rc_table V) p x"
  using check_thread_live [OF assms] rc_live_deref [OF assms]
  by (auto simp: checked_table_def checked_raw_waker_def rc_table_def raw_waker_def)

interpretation checked_rc: waker_contract checked_table rc_live
  "\<lambda>V x p. weak_strong_count (ww_mem V) p x" rc_notify
proof unfold_locales
  fix V :: "'a waker_world" and x x' :: 'a and p :: nat
  assume l: "rc_live V x p"
  note eqs = checked_table_live [OF l]
  show "\<exists>x'. vt_clone (checked_table V) p x = Inr (p, x') \<and> rc_live V x' p \<and>
      (\<lambda>p. weak_strong_count (ww_mem V) p x') =
        (\<lambda>p. weak_strong_count (ww_mem V) p x)(p := weak_strong_count (ww_mem V) p x + 1)"
    if "weak_strong_count (ww_mem V) p x \<noteq> -1"
    unfolding eqs by (rule plain_rc.clone_adds [OF l that])
  show "\<exists>x'. vt_drop (checked_table V) p x = Inr x' \<and> rc_live V x' p \<and>
      (\<lambda>p. weak_strong_count (ww_mem V) p x') =
        (\<lambda>p. weak_strong_count (ww_mem V) p x)(p := weak_strong_count (ww_mem V) p x - 1)"
    if "1 < weak_strong_count (ww_mem V) p x"
    unfolding eqs by (rule plain_rc.drop_takes [OF l that])
  show "vt_wake_by_ref (checked_table V) p x = rc_notify V p x"
    unfolding eqs by (rule plain_rc.wake_ref_notifies [OF l])
  show "vt_wake (checked_table V) p x = and_then (rc_notify V p x) (vt_drop (checked_table V) p)"
    unfolding eqs(2) plain_rc.wake_notifies [OF l]
    by (cases "rc_notify V p x") (auto dest: rc_live_notify [OF l] simp: checked_table_live)
qed (rule rc_live_notify)

subsection \<open>Properties\<close>

text \<open>The waker of task 5 of executor 0, made on thread 7, in a box at address 0.\<close>

definition task5 :: task_waker where
  "task5 = \<lparr>tw_tasks = 0, tw_task_id = 5, tw_thread_id = 7\<rparr>"

definition task5_memory :: "nat \<Rightarrow> task_waker rc_box option" where
  "task5_memory = [0 \<mapsto> rc_new task5]"

abbreviation idle_wake :: "nat \<Rightarrow> nat \<Rightarrow> 'x \<Rightarrow> 'x res" where
  "idle_wake \<equiv> \<lambda>_ _ x. Inr x"

abbreviation task5_wake :: "(task_waker, nat \<Rightarrow> task_waker rc_box option) local_wake" where
  "task5_wake \<equiv> task_local_wake map_store (\<lambda>_ _. True) idle_wake"

text \<open>
  C36. Used on another thread than its own, a checked waker panics in each of its four
  functions before it touches the count or wakes anything.
\<close>

theorem checked_waker_panics:
  assumes "im_get M x p = Some b" and "rc_strong b \<noteq> 0"
    and "lw_thread_id W (rc_value b) \<noteq> current"
  shows "vt_clone (checked_raw_waker M W current) p x = Inl Thread_panic \<and>
    vt_wake (checked_raw_waker M W current) p x = Inl Thread_panic \<and>
    vt_wake_by_ref (checked_raw_waker M W current) p x = Inl Thread_panic \<and>
    vt_drop (checked_raw_waker M W current) p x = Inl Thread_panic"
  using assms
  by (simp_all add: checked_raw_waker_def check_thread_def rc_deref_def deref_def is_current_thread_def)

theorem checked_waker_panics_witness:
  "vt_wake (checked_raw_waker map_store task5_wake 8) 0 task5_memory = Inl Thread_panic"
  using checked_waker_panics [of map_store task5_memory 0 "rc_new task5" task5_wake 8]
  by (simp add: task5_memory_def rc_new_def task5_def task_local_wake_def)

text \<open>
  C37. On its own thread a checked waker does exactly what the unchecked one does.
\<close>

theorem checked_waker_agrees:
  assumes "im_get M x p = Some b" and "rc_strong b \<noteq> 0"
    and "lw_thread_id W (rc_value b) = current"
  shows "vt_clone (checked_raw_waker M W current) p x = vt_clone (raw_waker M W) p x \<and>
    vt_wake (checked_raw_waker M W current) p x = vt_wake (raw_waker M W) p x \<and>
    vt_wake_by_ref (checked_raw_waker M W current) p x = vt_wake_by_ref (raw_waker M W) p x \<and>
    vt_drop (checked_raw_waker M W current) p x = vt_drop (raw_waker M W) p x"
  using assms
  by (simp_all add: checked_raw_waker_def raw_waker_def check_thread_def rc_deref_def deref_def
      is_current_thread_def)

theorem checked_waker_agrees_witness:
  "vt_clone (checked_raw_waker map_store task5_wake 7) 0 task5_memory =
    vt_clone (raw_waker map_store task5_wake) 0 task5_memory"
  using checked_waker_agrees [of map_store task5_memory 0 "rc_new task5" task5_wake 7]
  by (simp add: task5_memory_def rc_new_def task5_def task_local_wake_def)

text \<open>
  C30. Each of the three factories returns a waker whose count is one and a function that reads
  the count: after any uses it is one plus the clones less the drops and the wakes by value,
  as long as the executor keeps its own reference and the waker stays on its thread.
\<close>

theorem factory_waker_counts:
  fixes M :: "('x, task_waker rc_box) index_mut"
  assumes "index_mut_ok M" and "im_get M (place ptr (rc_new inner) x) ptr = Some (rc_new inner)"
    and "tw_thread_id inner = current"
    and "\<And>t k y. \<exists>y'. wake t k y = Inr y' \<and> im_get M y' = im_get M y"
    and "uses_within 1 us"
    and "new_waker M place ptr inner x = (p, strong_count, x0)"
  shows "strong_count x0 = 1 \<and>
    (\<exists>x'. waker_uses (factory_vtable f M (task_local_wake M upgrade wake) current) p us x0 = Inr x' \<and>
       unat (strong_count x') = uses_count 1 us)"
proof -
  let ?V = "\<lparr>ww_mem = M, ww_upgrade = upgrade, ww_wake = wake, ww_thread = current\<rparr>"
  have new: "p = ptr" "strong_count = weak_strong_count M ptr" "x0 = place ptr (rc_new inner) x"
    using assms(6) by (auto simp: new_waker_def)
  have keep: "im_get M y' = im_get M y" if "wake t k y = Inr y'" for t k y y'
    using assms(4) [of t k y] that by auto
  have live: "rc_live ?V x0 p"
    using assms(1-3) keep new by (auto simp: rc_live_def rc_new_def)
  have one: "weak_strong_count M p x0 = 1"
    using assms(2) new by (simp add: weak_strong_count_def rc_new_def)
  have notify: "\<exists>x2. rc_notify ?V p x1 = Inr x2" if l1: "rc_live ?V x1 p" for x1
  proof -
    obtain b where "rc_deref M p x1 = Inr b" using rc_live_deref [OF l1] by auto
    then show ?thesis
      using assms(4) [of "tw_tasks (rc_value b)" "tw_task_id (rc_value b)" x1]
      by (auto simp: rc_notify_def task_wake_by_ref_def Let_def)
  qed
  have "\<exists>x'. waker_uses (rc_table ?V) p us x0 = Inr x' \<and>
      unat (weak_strong_count M p x') = uses_count 1 us"
    using plain_rc.uses_balance [OF live _ _ notify, of us] one assms(5) by auto
  moreover have "\<exists>x'. waker_uses (checked_table ?V) p us x0 = Inr x' \<and>
      unat (weak_strong_count M p x') = uses_count 1 us"
    using checked_rc.uses_balance [OF live _ _ notify, of us] one assms(5) by auto
  ultimately show ?thesis
    using one new
    by (cases f) (simp_all add: factory_vtable_def rc_table_def checked_table_def)
qed

theorem factory_waker_counts_witness:
  "\<exists>x'. waker_uses (factory_vtable Checked_rc_waker_factory map_store task5_wake 7) 0
      [Use_clone, Use_clone, Use_wake, Use_drop, Use_clone] task5_memory = Inr x' \<and>
    unat (weak_strong_count map_store 0 x') = 2"
  using factory_waker_counts [of map_store "\<lambda>p b x. x(p \<mapsto> b)" 0 task5 Map.empty 7 idle_wake
      "[Use_clone, Use_clone, Use_wake, Use_drop, Use_clone]" 0 "weak_strong_count map_store 0"
      task5_memory Checked_rc_waker_factory "\<lambda>_ _. True"]
  by (auto simp: new_waker_def task5_memory_def task5_def)

end
