(* ===== verification/Box_Rc_Executor.thy ===== *)
theory Box_Rc_Executor
  imports Task_Waker Executor_Contract
begin

section \<open>The reference-counting executor (src/src/executor.rs, mod boxrc)\<close>

text \<open>
  \<open>BoxRcExecutor\<close> boxes its futures as \<open>BoxExecutor\<close> does, but makes the wakers of all its keys
  when it is created, through a waker factory, each in a counted box of its own that refers back
  to the tasks by a weak pointer. The wakers outlive the executor when they were cloned.

  \<open>rcx_world\<close> is the memory of one executor: the \<open>Rc<Tasks>\<close> it owns, with the strong count
  \<open>rw_strong\<close>, and the boxes of its wakers by address. A \<open>Waker\<close> is the address of its box, a
  function that reads a strong count is the address its weak pointer holds, and the weak pointer
  to the tasks can be upgraded while \<open>rw_strong\<close> is not zero. The capacity of the vectors is the
  one asked for, as it is for slabs.
\<close>

record 'f rcx_task =
  rt_fut :: "'f option"
  rt_awake :: bool

record 'n rcx_data =
  rd_nodes :: 'n
  rd_next :: dlist

record 'n rcx_world =
  rw_strong :: usize
  rw_data :: "'n rcx_data ref_cell"
  rw_wakers :: "nat list"
  rw_strong_counts :: "nat list"
  rw_boxes :: "nat \<Rightarrow> task_waker rc_box option"

definition rcx_flag :: "'f rcx_task task_ops" where
  "rcx_flag = \<lparr>awake_of = rt_awake, set_awake = (\<lambda>b task. task\<lparr>rt_awake := b\<rparr>)\<rparr>"

interpretation rcx_task: task_flag rcx_flag
  by unfold_locales (simp add: rcx_flag_def)

subsection \<open>Tasks\<close>

definition rcx_borrow ::
  "'n rcx_world \<Rightarrow> ('n rcx_data \<Rightarrow> ('r \<times> 'n rcx_data) res) \<Rightarrow> ('r \<times> 'n rcx_world) res" where
  "rcx_borrow x f =
     and_then (with_borrow (rw_data x) f) (\<lambda>(r, data). Inr (r, x\<lparr>rw_data := data\<rparr>))"

definition rcx_is_empty :: "('n, 'f rcx_task node) slab_ops \<Rightarrow> 'n rcx_world \<Rightarrow> bool res" where
  "rcx_is_empty S x = and_then (borrow (rw_data x)) (\<lambda>data. Inr (slab_empty S (rd_nodes data)))"

definition rcx_add ::
  "('n, 'f rcx_task node) slab_ops \<Rightarrow> 'f \<Rightarrow> 'n rcx_world \<Rightarrow> ((unit + unit) \<times> 'n rcx_world) res" where
  "rcx_add S f x =
     rcx_borrow x (\<lambda>data.
       and_then
         (add_nodes S (\<lambda>_. \<lparr>rt_fut = Some f, rt_awake = True\<rparr>) (rd_next data) (rd_nodes data)) (\<lambda>added.
       case added of
         None \<Rightarrow> Inr (Inl (), data)
       | Some (key, nxt, nodes) \<Rightarrow> Inr (Inr (), data\<lparr>rd_next := nxt, rd_nodes := nodes\<rparr>)))"

definition rcx_wake :: "('n, 'f rcx_task node) slab_ops \<Rightarrow> nat \<Rightarrow> 'n rcx_world \<Rightarrow> 'n rcx_world res" where
  "rcx_wake S task_id x =
     and_then
       (rcx_borrow x (\<lambda>data.
          and_then (wake_nodes rcx_flag S task_id (rd_next data) (rd_nodes data)) (\<lambda>(nxt, nodes).
          Inr ((), data\<lparr>rd_next := nxt, rd_nodes := nodes\<rparr>)))) (\<lambda>(_, x).
     Inr x)"

subsection \<open>The wakers\<close>

definition rcx_boxes :: "('n rcx_world, task_waker rc_box) index_mut" where
  "rcx_boxes =
     \<lparr>im_get = rw_boxes, im_set = (\<lambda>x p b. x\<lparr>rw_boxes := (rw_boxes x)(p \<mapsto> b)\<rparr>)\<rparr>"

definition rcx_upgrade :: "nat \<Rightarrow> 'n rcx_world \<Rightarrow> bool" where
  "rcx_upgrade tasks x \<longleftrightarrow> rw_strong x \<noteq> 0"

definition rcx_local_wake ::
  "('n, 'f rcx_task node) slab_ops \<Rightarrow> (task_waker, 'n rcx_world) local_wake" where
  "rcx_local_wake S = task_local_wake rcx_boxes rcx_upgrade (\<lambda>_. rcx_wake S)"

definition rcx_vtable ::
  "waker_factory \<Rightarrow> ('n, 'f rcx_task node) slab_ops \<Rightarrow> nat \<Rightarrow> (nat, 'n rcx_world) raw_vtable" where
  "rcx_vtable F S current = factory_vtable F rcx_boxes (rcx_local_wake S) current"

text \<open>The loop over the keys; the allocator puts the box of a key at the address \<open>addr\<close> gives.\<close>

fun make_wakers ::
  "(nat \<Rightarrow> nat) \<Rightarrow> nat \<Rightarrow> nat list \<Rightarrow> 'n rcx_world \<Rightarrow> nat list \<times> nat list \<times> 'n rcx_world" where
  "make_wakers addr current [] x = ([], [], x)"
| "make_wakers addr current (task_id # ids) x =
     (let (waker, _, x) = new_waker rcx_boxes (\<lambda>p b x. x\<lparr>rw_boxes := (rw_boxes x)(p \<mapsto> b)\<rparr>)
            (addr task_id) \<lparr>tw_tasks = 0, tw_task_id = task_id, tw_thread_id = current\<rparr> x;
          (wakers, strong_counts, x) = make_wakers addr current ids x
      in (waker # wakers, waker # strong_counts, x))"

definition rcx_new ::
  "('n, 'f rcx_task node) slab_ops \<Rightarrow> (nat \<Rightarrow> nat) \<Rightarrow> nat \<Rightarrow> nat \<Rightarrow> 'n rcx_world" where
  "rcx_new S addr current tasks_max =
     (let data = \<lparr>rd_nodes = with_capacity S tasks_max, rd_next = list_default\<rparr>;
          tasks = \<lparr>rw_strong = 1, rw_data = ref_cell_new data, rw_wakers = [],
            rw_strong_counts = [], rw_boxes = Map.empty\<rparr>;
          (wakers, strong_counts, tasks) = make_wakers addr current [0..<tasks_max] tasks
      in tasks\<lparr>rw_wakers := wakers, rw_strong_counts := strong_counts\<rparr>)"

definition rcx_strong_count :: "nat \<Rightarrow> 'n rcx_world \<Rightarrow> usize res" where
  "rcx_strong_count key x =
     and_then (ensure Index_panic (key < length (rw_strong_counts x))) (\<lambda>_.
     Inr (weak_strong_count rcx_boxes (rw_strong_counts x ! key) x))"

subsection \<open>Polling\<close>

definition rcx_task_at :: "('n, 'f rcx_task node) slab_ops \<Rightarrow> nat \<Rightarrow> 'n rcx_world \<Rightarrow> 'f rcx_task res" where
  "rcx_task_at S ptr x =
     and_then (expect Dangling (im_get S (rd_nodes (cell_data (rw_data x))) ptr)) (\<lambda>n.
     Inr (nd_value n))"

definition rcx_put_fut ::
  "('n, 'f rcx_task node) slab_ops \<Rightarrow> nat \<Rightarrow> 'f option \<Rightarrow> 'n rcx_world \<Rightarrow> 'n rcx_world res" where
  "rcx_put_fut S ptr fut x =
     (let data = cell_data (rw_data x) in
      and_then (expect Dangling (im_get S (rd_nodes data) ptr)) (\<lambda>n.
      Inr (x\<lparr>rw_data := (rw_data x)\<lparr>cell_data := data
        \<lparr>rd_nodes := im_set S (rd_nodes data) ptr
           (n\<lparr>nd_value := (nd_value n)\<lparr>rt_fut := fut\<rparr>\<rparr>)\<rparr>\<rparr>\<rparr>)))"

definition rcx_begin ::
  "('n, 'f rcx_task node) slab_ops \<Rightarrow> 'n rcx_world \<Rightarrow> (nat option \<times> 'n rcx_world) res" where
  "rcx_begin S x =
     rcx_borrow x (\<lambda>tasks.
       and_then (take_next rcx_flag S (rd_next tasks) (rd_nodes tasks)) (\<lambda>taken.
       case taken of
         None \<Rightarrow> Inr (None, tasks)
       | Some (nkey, nxt, nodes) \<Rightarrow> Inr (Some nkey, tasks\<lparr>rd_next := nxt, rd_nodes := nodes\<rparr>)))"

type_synonym ('n, 'f, 'w) rcx_polls =
  "'f \<Rightarrow> nat \<Rightarrow> 'n rcx_world \<Rightarrow> 'w \<Rightarrow> (bool \<times> 'f \<times> 'n rcx_world \<times> 'w) run"

type_synonym ('n, 'f, 'w) rcx_drops = "'f \<Rightarrow> 'n rcx_world \<Rightarrow> 'w \<Rightarrow> ('n rcx_world \<times> 'w) res"

definition rcx_poll ::
  "('n, 'f rcx_task node) slab_ops \<Rightarrow> ('n, 'f, 'w) rcx_polls \<Rightarrow> nat \<Rightarrow> 'n rcx_world \<Rightarrow> 'w \<Rightarrow>
     (bool \<times> 'n rcx_world \<times> 'w) run" where
  "rcx_poll S poll nkey x w =
     run_then (Some (rcx_task_at S nkey x)) (\<lambda>task.
     run_then (Some (expect Unwrap_panic (rt_fut task))) (\<lambda>fut.
     run_then (Some (ensure Index_panic (nkey < length (rw_wakers x)))) (\<lambda>_.
     run_then (poll fut (rw_wakers x ! nkey) x w) (\<lambda>(done, fut, x, w).
     run_then (Some (rcx_put_fut S nkey (Some fut) x)) (\<lambda>x.
     Some (Inr (done, x, w)))))))"

definition rcx_complete ::
  "('n, 'f rcx_task node) slab_ops \<Rightarrow> ('n, 'f, 'w) rcx_drops \<Rightarrow> nat \<Rightarrow> 'n rcx_world \<Rightarrow> 'w \<Rightarrow>
     ('n rcx_world \<times> 'w) res" where
  "rcx_complete S drop_fut nkey x w =
     and_then (rcx_task_at S nkey x) (\<lambda>task.
     and_then
       (case rt_fut task of
          Some fut \<Rightarrow> drop_fut fut x w
        | None \<Rightarrow> Inr (x, w)) (\<lambda>(x, w).
     and_then (rcx_put_fut S nkey None x) (\<lambda>x.
     and_then (rcx_strong_count nkey x) (\<lambda>count.
     and_then (ensure Assert_panic (count = 1)) (\<lambda>_.
     and_then
       (rcx_borrow x (\<lambda>tasks.
          and_then (free_nodes S nkey (rd_next tasks) (rd_nodes tasks)) (\<lambda>(nxt, nodes).
          Inr ((), tasks\<lparr>rd_next := nxt, rd_nodes := nodes\<rparr>)))) (\<lambda>(_, x).
     Inr (x, w)))))))"

definition rcx_process_next ::
  "('n, 'f rcx_task node) slab_ops \<Rightarrow> ('n, 'f, 'w) rcx_polls \<Rightarrow> ('n, 'f, 'w) rcx_drops \<Rightarrow>
     'n rcx_world \<Rightarrow> 'w \<Rightarrow> ('n rcx_world \<times> 'w) run" where
  "rcx_process_next S poll drop_fut =
     process_loop (rcx_begin S) (rcx_poll S poll) (rcx_complete S drop_fut)"

subsection \<open>The executor\<close>

definition rcx_spawn ::
  "('n, 'f rcx_task node) slab_ops \<Rightarrow> 'f \<Rightarrow> 'n rcx_world \<Rightarrow> ((unit + unit) \<times> 'n rcx_world) res" where
  "rcx_spawn S f x = rcx_add S f x"

definition rcx_run ::
  "('n, 'f rcx_task node) slab_ops \<Rightarrow> ('n, 'f, 'w) rcx_polls \<Rightarrow> ('n, 'f, 'w) rcx_drops \<Rightarrow>
     ('n rcx_world, 'w, 'e) parking \<Rightarrow> 'n rcx_world \<Rightarrow> 'w \<Rightarrow> ('n rcx_world \<times> 'w) run" where
  "rcx_run S poll drop_fut park =
     executor_run (rcx_process_next S poll drop_fut) (rcx_is_empty S) park"

text \<open>
  Dropping the executor drops its \<open>Rc<Tasks>\<close>, and with the last one the tasks: the futures that
  are left, in the order of the slab, then the wakers.
\<close>

fun drop_futs ::
  "('n, 'f, 'w) rcx_drops \<Rightarrow> (nat \<times> 'f rcx_task node) list \<Rightarrow> 'n rcx_world \<Rightarrow> 'w \<Rightarrow>
     ('n rcx_world \<times> 'w) res" where
  "drop_futs drop_fut [] x w = Inr (x, w)"
| "drop_futs drop_fut ((_, n) # ns) x w =
     and_then
       (case rt_fut (nd_value n) of
          Some fut \<Rightarrow> drop_fut fut x w
        | None \<Rightarrow> Inr (x, w)) (\<lambda>(x, w).
     drop_futs drop_fut ns x w)"

fun drop_wakers :: "(nat, 'x) raw_vtable \<Rightarrow> nat list \<Rightarrow> 'x \<Rightarrow> 'x res" where
  "drop_wakers vt [] x = Inr x"
| "drop_wakers vt (p # ps) x = and_then (vt_drop vt p x) (drop_wakers vt ps)"

definition rcx_executor_drop ::
  "waker_factory \<Rightarrow> ('n, 'f rcx_task node) slab_ops \<Rightarrow> nat \<Rightarrow> ('n, 'f, 'w) rcx_drops \<Rightarrow>
     'n rcx_world \<Rightarrow> 'w \<Rightarrow> ('n rcx_world \<times> 'w) res" where
  "rcx_executor_drop F S current drop_fut x w =
     (let x = x\<lparr>rw_strong := rw_strong x - 1\<rparr> in
      if rw_strong x = 0 then
        and_then (drop_futs drop_fut (slab_iter S (rd_nodes (cell_data (rw_data x)))) x w) (\<lambda>(x, w).
        and_then (drop_wakers (rcx_vtable F S current) (rw_wakers x) x) (\<lambda>x.
        Inr (x, w)))
      else Inr (x, w))"

subsection \<open>The invariant\<close>

text \<open>
  \<open>rcx_ok S cap addr current x xs\<close>: nothing is borrowed, the queue stands for \<open>xs\<close>, which are the
  awake tasks, every task between two turns has its future, and for every key there is a live box
  whose waker wakes that key from the thread the executor was made on.
\<close>

abbreviation rcx_nodes :: "'n rcx_world \<Rightarrow> 'n" where
  "rcx_nodes x \<equiv> rd_nodes (cell_data (rw_data x))"

abbreviation rcx_next :: "'n rcx_world \<Rightarrow> dlist" where
  "rcx_next x \<equiv> rd_next (cell_data (rw_data x))"

definition waker_of :: "nat \<Rightarrow> nat \<Rightarrow> task_waker" where
  "waker_of current k = \<lparr>tw_tasks = 0, tw_task_id = k, tw_thread_id = current\<rparr>"

definition rcx_wakers_ok :: "nat \<Rightarrow> (nat \<Rightarrow> nat) \<Rightarrow> nat \<Rightarrow> 'n rcx_world \<Rightarrow> bool" where
  "rcx_wakers_ok cap addr current x \<longleftrightarrow>
     rw_strong x \<noteq> 0 \<and> rw_wakers x = map addr [0..<cap] \<and>
     rw_strong_counts x = map addr [0..<cap] \<and>
     (\<forall>k < cap. \<exists>b. rw_boxes x (addr k) = Some b \<and> rc_strong b \<noteq> 0 \<and> rc_value b = waker_of current k)"

definition rcx_ok ::
  "('n, 'f rcx_task node) slab_ops \<Rightarrow> nat \<Rightarrow> (nat \<Rightarrow> nat) \<Rightarrow> nat \<Rightarrow> 'n rcx_world \<Rightarrow> nat list \<Rightarrow> bool" where
  "rcx_ok S cap addr current x xs \<longleftrightarrow>
     \<not> cell_borrowed (rw_data x) \<and> queue_ok rcx_flag S cap (rcx_next x) (rcx_nodes x) xs \<and>
     (\<forall>k v. value_at S (rcx_nodes x) k = Some v \<longrightarrow> rt_fut v \<noteq> None) \<and>
     rcx_wakers_ok cap addr current x"

definition rcx_keeps :: "('n, 'f rcx_task node) slab_ops \<Rightarrow> 'n rcx_world \<Rightarrow> 'n rcx_world \<Rightarrow> bool" where
  "rcx_keeps S x x' \<longleftrightarrow>
     (\<forall>k. value_at S (rcx_nodes x) k \<noteq> None \<longrightarrow> value_at S (rcx_nodes x') k \<noteq> None)"

lemma rcx_keeps_refl [simp]: "rcx_keeps S x x"
  by (simp add: rcx_keeps_def)

lemma rcx_keeps_trans: "rcx_keeps S x x' \<Longrightarrow> rcx_keeps S x' x'' \<Longrightarrow> rcx_keeps S x x''"
  by (simp add: rcx_keeps_def)

lemma rcx_flag_simps [simp]:
  "awake_of rcx_flag v = rt_awake v"
  "set_awake rcx_flag b v = v\<lparr>rt_awake := b\<rparr>"
  by (simp_all add: rcx_flag_def)

lemma rcx_ok_queue:
  "rcx_ok S cap addr current x xs \<Longrightarrow> queue_ok rcx_flag S cap (rcx_next x) (rcx_nodes x) xs"
  by (simp add: rcx_ok_def)

lemma rcx_ok_free: "rcx_ok S cap addr current x xs \<Longrightarrow> \<not> cell_borrowed (rw_data x)"
  by (simp add: rcx_ok_def)

lemma rcx_ok_fut:
  "rcx_ok S cap addr current x xs \<Longrightarrow> value_at S (rcx_nodes x) k = Some v \<Longrightarrow> \<exists>f. rt_fut v = Some f"
  by (auto simp: rcx_ok_def)

lemma rcx_ok_box:
  "rcx_ok S cap addr current x xs \<Longrightarrow> k < cap \<Longrightarrow>
     \<exists>b. rw_boxes x (addr k) = Some b \<and> rc_strong b \<noteq> 0 \<and> rc_value b = waker_of current k"
  by (simp add: rcx_ok_def rcx_wakers_ok_def)

lemma rcx_ok_cap:
  "rcx_ok S cap addr current x xs \<Longrightarrow> value_at S (rcx_nodes x) k = Some v \<Longrightarrow> k < cap"
  using rcx_ok_queue by (fastforce simp: queue_ok_def)

lemma rcx_awake_idem: "rt_awake v \<Longrightarrow> v\<lparr>rt_awake := True\<rparr> = v"
  by (cases v) simp

text \<open>A world whose tasks were replaced.\<close>

lemma rcx_ok_data:
  assumes "rcx_ok S cap addr current x xs" and "queue_ok rcx_flag S cap nxt nodes ys"
    and "\<And>k v. value_at S nodes k = Some v \<Longrightarrow> rt_fut v \<noteq> None"
  shows "rcx_ok S cap addr current
    (x\<lparr>rw_data := (rw_data x)\<lparr>cell_data := \<lparr>rd_nodes = nodes, rd_next = nxt\<rparr>\<rparr>\<rparr>) ys"
  using assms by (simp add: rcx_ok_def rcx_wakers_ok_def)

lemma rcx_data_eq: "data\<lparr>rd_next := nxt, rd_nodes := nodes\<rparr> = \<lparr>rd_nodes = nodes, rd_next = nxt\<rparr>"
  by (cases data) simp

subsection \<open>A new executor\<close>

lemma make_wakers_ok:
  assumes "make_wakers addr current ids x = (ws, cs, x')" and "inj_on addr (set ids)" and "distinct ids"
  shows "ws = map addr ids \<and> cs = map addr ids \<and>
    x' = x\<lparr>rw_boxes := rw_boxes x'\<rparr> \<and>
    (\<forall>k \<in> set ids. rw_boxes x' (addr k) = Some (rc_new (waker_of current k))) \<and>
    (\<forall>p. p \<notin> addr ` set ids \<longrightarrow> rw_boxes x' p = rw_boxes x p)"
  using assms
proof (induction ids arbitrary: x ws cs)
  case (Cons k ids)
  let ?x = "x\<lparr>rw_boxes := (rw_boxes x)(addr k \<mapsto> rc_new (waker_of current k))\<rparr>"
  obtain ws' cs' where r: "make_wakers addr current ids ?x = (ws', cs', x')" "ws = addr k # ws'"
    "cs = addr k # cs'"
    using Cons.prems(1) by (auto simp: new_waker_def waker_of_def split: prod.splits)
  have i: "inj_on addr (set ids)" "distinct ids" "addr k \<notin> addr ` set ids"
    using Cons.prems(2,3) by auto
  from Cons.IH [OF r(1) i(1,2)] r(2,3) i(3) show ?case by auto
qed simp

lemma rcx_new_ok:
  assumes "slab_ok S" and "inj_on addr {..<cap}"
  shows "rcx_ok S cap addr current (rcx_new S addr current cap) []"
    and "value_at S (rcx_nodes (rcx_new S addr current cap)) = Map.empty"
    and "k < cap \<Longrightarrow> weak_strong_count rcx_boxes (addr k) (rcx_new S addr current cap) = 1"
proof -
  let ?x = "\<lparr>rw_strong = 1,
    rw_data = ref_cell_new \<lparr>rd_nodes = with_capacity S cap, rd_next = list_default\<rparr>,
    rw_wakers = [], rw_strong_counts = [], rw_boxes = Map.empty\<rparr>"
  obtain ws cs x' where m: "make_wakers addr current [0..<cap] ?x = (ws, cs, x')"
    by (metis prod_cases3)
  have "inj_on addr (set [0..<cap])" using assms(2) by (simp add: atLeast0LessThan)
  from make_wakers_ok [OF m this] have r: "ws = map addr [0..<cap]" "cs = map addr [0..<cap]"
    "x' = ?x\<lparr>rw_boxes := rw_boxes x'\<rparr>"
    "\<And>k. k < cap \<Longrightarrow> rw_boxes x' (addr k) = Some (rc_new (waker_of current k))" by auto
  have new: "rcx_new S addr current cap =
      ?x\<lparr>rw_boxes := rw_boxes x', rw_wakers := ws, rw_strong_counts := cs\<rparr>"
    using r(3) by (auto simp: rcx_new_def m Let_def)
  show "rcx_ok S cap addr current (rcx_new S addr current cap) []"
    using queue_ok_new [OF assms(1), of rcx_flag cap] r(1,2,4) slab_new [OF assms(1)]
    by (simp add: new rcx_ok_def rcx_wakers_ok_def value_at_def rc_new_def)
  show "value_at S (rcx_nodes (rcx_new S addr current cap)) = Map.empty"
    using slab_new [OF assms(1)] by (auto simp: new value_at_def)
  show "k < cap \<Longrightarrow> weak_strong_count rcx_boxes (addr k) (rcx_new S addr current cap) = 1"
    using r(4) by (simp add: new weak_strong_count_def rcx_boxes_def rc_new_def)
qed

subsection \<open>The functions the futures call\<close>

lemma rcx_wake_ok:
  assumes ok: "rcx_ok S cap addr current x xs" and k: "value_at S (rcx_nodes x) k = Some v"
  shows "\<exists>x'. rcx_wake S k x = Inr x' \<and> rcx_ok S cap addr current x' (sched_wake k xs) \<and>
    rcx_keeps S x x' \<and> rw_boxes x' = rw_boxes x \<and>
    value_at S (rcx_nodes x') = (value_at S (rcx_nodes x))(k \<mapsto> v\<lparr>rt_awake := True\<rparr>)"
proof -
  obtain nxt' nodes' where w: "wake_nodes rcx_flag S k (rcx_next x) (rcx_nodes x) = Inr (nxt', nodes')"
      "queue_ok rcx_flag S cap nxt' nodes' (sched_wake k xs)"
      "value_at S nodes' = (value_at S (rcx_nodes x))(k \<mapsto> v\<lparr>rt_awake := True\<rparr>)"
    using rcx_task.wake_ok [OF rcx_ok_queue [OF ok] k] by (cases "rt_awake v") (auto simp: rcx_awake_idem)
  let ?x = "x\<lparr>rw_data := (rw_data x)\<lparr>cell_data := \<lparr>rd_nodes = nodes', rd_next = nxt'\<rparr>\<rparr>\<rparr>"
  have "rcx_wake S k x = Inr ?x"
    using w(1) rcx_ok_free [OF ok]
    by (simp add: rcx_wake_def rcx_borrow_def with_borrow_def rcx_data_eq)
  moreover have "rcx_ok S cap addr current ?x (sched_wake k xs)"
    using rcx_ok_fut [OF ok] k w(3) by (intro rcx_ok_data [OF ok w(2)]) (fastforce split: if_splits)
  ultimately show ?thesis using w(3) by (auto simp: rcx_keeps_def)
qed

lemma rcx_wake_missing:
  "rcx_ok S cap addr current x xs \<Longrightarrow> value_at S (rcx_nodes x) k = None \<Longrightarrow>
     rcx_wake S k x = Inl Index_panic"
  by (simp add: rcx_wake_def rcx_borrow_def with_borrow_def wake_nodes_def rcx_ok_def value_at_def)

definition rcx_new_task :: "'f \<Rightarrow> 'f rcx_task" where
  "rcx_new_task f = \<lparr>rt_fut = Some f, rt_awake = True\<rparr>"

lemma rcx_add_ok:
  assumes ok: "rcx_ok S cap addr current x xs" and room: "slab_len S (rcx_nodes x) < cap"
  shows "\<exists>k x'. rcx_add S f x = Inr (Inr (), x') \<and> value_at S (rcx_nodes x) k = None \<and> k < cap \<and>
    rcx_ok S cap addr current x' (xs @ [k]) \<and> rcx_keeps S x x' \<and> rw_boxes x' = rw_boxes x \<and>
    value_at S (rcx_nodes x') = (value_at S (rcx_nodes x))(k \<mapsto> rcx_new_task f)"
proof -
  obtain k nxt' nodes' where a: "add_nodes S (\<lambda>_. rcx_new_task f) (rcx_next x) (rcx_nodes x) =
      Inr (Some (k, nxt', nodes'))" "value_at S (rcx_nodes x) k = None" "k < cap"
      "queue_ok rcx_flag S cap nxt' nodes' (xs @ [k])"
      "value_at S nodes' = (value_at S (rcx_nodes x))(k \<mapsto> rcx_new_task f)"
    using rcx_task.add_ok [OF rcx_ok_queue [OF ok] _ room, of "\<lambda>_. rcx_new_task f"]
    by (auto simp: rcx_new_task_def)
  let ?x = "x\<lparr>rw_data := (rw_data x)\<lparr>cell_data := \<lparr>rd_nodes = nodes', rd_next = nxt'\<rparr>\<rparr>\<rparr>"
  have "rcx_add S f x = Inr (Inr (), ?x)"
    using a(1) rcx_ok_free [OF ok]
    by (simp add: rcx_add_def rcx_borrow_def with_borrow_def rcx_new_task_def rcx_data_eq)
  moreover have "rcx_ok S cap addr current ?x (xs @ [k])"
    using rcx_ok_fut [OF ok] a(5)
    by (intro rcx_ok_data [OF ok a(4)]) (fastforce simp: rcx_new_task_def split: if_splits)
  ultimately show ?thesis using a(2,3,5) by (auto simp: rcx_keeps_def)
qed

lemma rcx_add_full:
  "rcx_ok S cap addr current x xs \<Longrightarrow> slab_len S (rcx_nodes x) = cap \<Longrightarrow> rcx_add S f x = Inr (Inl (), x)"
  by (simp add: rcx_add_def rcx_borrow_def with_borrow_def rcx_ok_free rcx_task.add_full [OF rcx_ok_queue])

text \<open>The functions of a waker's table, on a live box used on its own thread.\<close>

lemma rcx_table:
  assumes "rw_boxes x p = Some b" and "rc_strong b \<noteq> 0" and "tw_thread_id (rc_value b) = current"
  shows "vt_clone (rcx_vtable F S current) p x =
      Inr (p, x\<lparr>rw_boxes := (rw_boxes x)(p \<mapsto> b\<lparr>rc_strong := rc_strong b + 1\<rparr>)\<rparr>)"
    and "vt_drop (rcx_vtable F S current) p x =
      Inr (x\<lparr>rw_boxes := (rw_boxes x)(p \<mapsto> b\<lparr>rc_strong := rc_strong b - 1\<rparr>)\<rparr>)"
    and "vt_wake_by_ref (rcx_vtable F S current) p x =
      (if rw_strong x \<noteq> 0 then rcx_wake S (tw_task_id (rc_value b)) x else Inr x)"
    and "vt_wake (rcx_vtable F S current) p x =
      and_then (if rw_strong x \<noteq> 0 then rcx_wake S (tw_task_id (rc_value b)) x else Inr x)
        (rc_drop rcx_boxes p)"
  using assms
  by (cases F; simp add: rcx_vtable_def factory_vtable_def raw_waker_def checked_raw_waker_def
      check_thread_def is_current_thread_def rcx_local_wake_def task_local_wake_def task_wake_def
      task_wake_by_ref_def rcx_upgrade_def rc_clone_def rc_drop_def rc_deref_def deref_def
      rcx_boxes_def)+

text \<open>A count that changes but does not reach zero keeps the invariant.\<close>

lemma rcx_set_count:
  assumes ok: "rcx_ok S cap addr current x xs" and b: "rw_boxes x p = Some b" and r: "r \<noteq> 0"
  shows "rcx_ok S cap addr current (x\<lparr>rw_boxes := (rw_boxes x)(p \<mapsto> b\<lparr>rc_strong := r\<rparr>)\<rparr>) xs"
  using assms by (auto simp: rcx_ok_def rcx_wakers_ok_def)

subsection \<open>The steps the futures can take\<close>

text \<open>
  A future wakes tasks through wakers, clones them and drops its clones; a clone is dropped once,
  so that a count the executor holds a part of stays positive. It spawns through the executor.
\<close>

inductive rcx_step ::
  "waker_factory \<Rightarrow> ('n, 'f rcx_task node) slab_ops \<Rightarrow> nat \<Rightarrow> 'n rcx_world \<Rightarrow> 'n rcx_world \<Rightarrow> bool"
  for F S current where
  rcx_step_wake: "vt_wake_by_ref (rcx_vtable F S current) p x = Inr x' \<Longrightarrow> rcx_step F S current x x'"
| rcx_step_spawn: "rcx_spawn S f x = Inr (r, x') \<Longrightarrow> rcx_step F S current x x'"
| rcx_step_clone:
    "weak_strong_count rcx_boxes p x \<noteq> -1 \<Longrightarrow> vt_clone (rcx_vtable F S current) p x = Inr (p, x') \<Longrightarrow>
       rcx_step F S current x x'"
| rcx_step_drop:
    "1 < weak_strong_count rcx_boxes p x \<Longrightarrow> vt_drop (rcx_vtable F S current) p x = Inr x' \<Longrightarrow>
       rcx_step F S current x x'"

text \<open>A function of the table that returns was called with a live box, on its thread.\<close>

lemma rcx_table_live:
  "vt_clone (rcx_vtable F S current) p x = Inr y \<Longrightarrow> \<exists>b. rw_boxes x p = Some b \<and> rc_strong b \<noteq> 0"
  "vt_drop (rcx_vtable F S current) p x = Inr y' \<Longrightarrow> \<exists>b. rw_boxes x p = Some b \<and> rc_strong b \<noteq> 0"
  "vt_wake_by_ref (rcx_vtable F S current) p x = Inr y' \<Longrightarrow>
     \<exists>b. rw_boxes x p = Some b \<and> rc_strong b \<noteq> 0"
  by (cases F; auto simp: rcx_vtable_def factory_vtable_def raw_waker_def checked_raw_waker_def
      check_thread_def rcx_local_wake_def rc_clone_def rc_drop_def rc_deref_def deref_def rcx_boxes_def
      res_iff split: if_splits)+

lemma rcx_table_iff:
  assumes "rw_boxes x p = Some b" and "rc_strong b \<noteq> 0"
  shows "vt_clone (rcx_vtable F S current) p x = Inr (p, x') \<Longrightarrow>
      x' = x\<lparr>rw_boxes := (rw_boxes x)(p \<mapsto> b\<lparr>rc_strong := rc_strong b + 1\<rparr>)\<rparr>"
    and "vt_drop (rcx_vtable F S current) p x = Inr x' \<Longrightarrow>
      x' = x\<lparr>rw_boxes := (rw_boxes x)(p \<mapsto> b\<lparr>rc_strong := rc_strong b - 1\<rparr>)\<rparr>"
    and "vt_wake_by_ref (rcx_vtable F S current) p x = Inr x' \<Longrightarrow>
      (if rw_strong x \<noteq> 0 then rcx_wake S (tw_task_id (rc_value b)) x else Inr x) = Inr x'"
  using assms
  by (cases F; auto simp: rcx_vtable_def factory_vtable_def raw_waker_def checked_raw_waker_def
      check_thread_def rcx_local_wake_def task_local_wake_def task_wake_by_ref_def rcx_upgrade_def
      rc_clone_def rc_drop_def rc_deref_def deref_def rcx_boxes_def res_iff split: if_splits)+

lemma rcx_step_ok:
  assumes "rcx_step F S current x x'" and ok: "rcx_ok S cap addr current x xs"
  shows "\<exists>zs. rcx_ok S cap addr current x' (xs @ zs) \<and> rcx_keeps S x x'"
  using assms(1)
proof cases
  case (rcx_step_wake p)
  then obtain b where b: "rw_boxes x p = Some b" "rc_strong b \<noteq> 0" using rcx_table_live(3) by blast
  have "rw_strong x \<noteq> 0" using ok by (simp add: rcx_ok_def rcx_wakers_ok_def)
  with rcx_table_iff(3) [OF b rcx_step_wake] have w: "rcx_wake S (tw_task_id (rc_value b)) x = Inr x'"
    by simp
  then obtain v where v: "value_at S (rcx_nodes x) (tw_task_id (rc_value b)) = Some v"
    using rcx_wake_missing [OF ok] by (cases "value_at S (rcx_nodes x) (tw_task_id (rc_value b))") auto
  from rcx_wake_ok [OF ok v] w have "rcx_ok S cap addr current x' (sched_wake (tw_task_id (rc_value b)) xs)"
    "rcx_keeps S x x'" by auto
  with sched_wake_appends [of "tw_task_id (rc_value b)" xs] show ?thesis by metis
next
  case (rcx_step_spawn f r)
  from queue_ok_len [OF rcx_ok_queue [OF ok]] consider "slab_len S (rcx_nodes x) = cap"
    | "slab_len S (rcx_nodes x) < cap" by linarith
  then show ?thesis
  proof cases
    case 1
    have "x' = x" using rcx_add_full [OF ok 1, of f] rcx_step_spawn by (simp add: rcx_spawn_def)
    with ok show ?thesis by (auto intro: exI [of _ "[]"])
  next
    case 2
    from rcx_add_ok [OF ok 2, of f] rcx_step_spawn show ?thesis by (auto simp: rcx_spawn_def)
  qed
next
  case (rcx_step_clone p)
  then obtain b where b: "rw_boxes x p = Some b" "rc_strong b \<noteq> 0" using rcx_table_live(1) by blast
  then have "rc_strong b + 1 \<noteq> 0"
    using rcx_step_clone(1) usize_succ_nonzero by (simp add: weak_strong_count_def rcx_boxes_def)
  from rcx_set_count [OF ok b(1) this] rcx_table_iff(1) [OF b rcx_step_clone(2)] show ?thesis
    by (auto simp: rcx_keeps_def intro: exI [of _ "[]"])
next
  case (rcx_step_drop p)
  then obtain b where b: "rw_boxes x p = Some b" "rc_strong b \<noteq> 0" using rcx_table_live(2) by blast
  then have "rc_strong b - 1 \<noteq> 0"
    using rcx_step_drop(1) usize_pred_nonzero by (simp add: weak_strong_count_def rcx_boxes_def)
  from rcx_set_count [OF ok b(1) this] rcx_table_iff(2) [OF b rcx_step_drop(2)] show ?thesis
    by (auto simp: rcx_keeps_def intro: exI [of _ "[]"])
qed

lemma rcx_steps_ok:
  assumes "(rcx_step F S current)\<^sup>*\<^sup>* x x'" and "rcx_ok S cap addr current x xs"
  shows "\<exists>zs. rcx_ok S cap addr current x' (xs @ zs) \<and> rcx_keeps S x x'"
  using assms
proof (induction rule: rtranclp_induct)
  case base
  then show ?case by (auto intro: exI [of _ "[]"])
next
  case (step x1 x2)
  then obtain zs where "rcx_ok S cap addr current x1 (xs @ zs)" "rcx_keeps S x x1" by blast
  with rcx_step_ok [OF step.hyps(2)] rcx_keeps_trans show ?case by (metis append_assoc)
qed

subsection \<open>A turn of the loop\<close>

definition rcx_behaved ::
  "waker_factory \<Rightarrow> ('n, 'f rcx_task node) slab_ops \<Rightarrow> nat \<Rightarrow> ('n, 'f, 'w) rcx_polls \<Rightarrow>
     ('n, 'f, 'w) rcx_drops \<Rightarrow> bool" where
  "rcx_behaved F S current poll drop_fut \<longleftrightarrow>
     (\<forall>f p x w d f' x' w'. poll f p x w = Some (Inr (d, f', x', w')) \<longrightarrow> (rcx_step F S current)\<^sup>*\<^sup>* x x') \<and>
     (\<forall>f x w x' w'. drop_fut f x w = Inr (x', w') \<longrightarrow> (rcx_step F S current)\<^sup>*\<^sup>* x x')"

abbreviation rcx_turn ::
  "('n, 'f rcx_task node) slab_ops \<Rightarrow> ('n, 'f, 'w) rcx_polls \<Rightarrow> ('n, 'f, 'w) rcx_drops \<Rightarrow>
     nat \<Rightarrow> 'n rcx_world \<Rightarrow> 'w \<Rightarrow> ('n rcx_world \<times> 'w) run" where
  "rcx_turn S poll drop_fut \<equiv> turn (rcx_poll S poll) (rcx_complete S drop_fut)"

lemma rcx_begin_empty: "rcx_ok S cap addr current x [] \<Longrightarrow> rcx_begin S x = Inr (None, x)"
  by (simp add: rcx_begin_def rcx_borrow_def with_borrow_def rcx_ok_free
      rcx_task.take_none [OF rcx_ok_queue])

lemma rcx_begin_front:
  assumes ok: "rcx_ok S cap addr current x (k # xs)"
  shows "\<exists>x1 v. rcx_begin S x = Inr (Some k, x1) \<and> rcx_ok S cap addr current x1 xs \<and> k \<notin> set xs \<and>
    rw_boxes x1 = rw_boxes x \<and> value_at S (rcx_nodes x) k = Some v \<and>
    value_at S (rcx_nodes x1) = (value_at S (rcx_nodes x))(k \<mapsto> v\<lparr>rt_awake := False\<rparr>)"
proof -
  note q = rcx_ok_queue [OF ok]
  obtain nxt' nodes' v where tk: "take_next rcx_flag S (rcx_next x) (rcx_nodes x) =
      Inr (Some (k, nxt', nodes'))" "value_at S (rcx_nodes x) k = Some v"
      "queue_ok rcx_flag S cap nxt' nodes' xs"
      "value_at S nodes' = (value_at S (rcx_nodes x))(k \<mapsto> v\<lparr>rt_awake := False\<rparr>)"
    using rcx_task.take_ok [OF q] by auto
  let ?x = "x\<lparr>rw_data := (rw_data x)\<lparr>cell_data := \<lparr>rd_nodes = nodes', rd_next = nxt'\<rparr>\<rparr>\<rparr>"
  have "rcx_begin S x = Inr (Some k, ?x)"
    using tk(1) by (simp add: rcx_begin_def rcx_borrow_def with_borrow_def rcx_ok_free [OF ok] rcx_data_eq)
  moreover have "rcx_ok S cap addr current ?x xs"
    using rcx_ok_fut [OF ok] tk(2,4) by (intro rcx_ok_data [OF ok tk(3)]) (fastforce split: if_splits)
  moreover have "k \<notin> set xs" using run_queue.rep_distinct [OF queue_ok_rep [OF q]] by simp
  ultimately show ?thesis using tk(2,4) by auto
qed

lemma rcx_task_at_iff: "rcx_task_at S k x = Inr v \<longleftrightarrow> value_at S (rcx_nodes x) k = Some v"
  by (auto simp: rcx_task_at_def res_iff value_at_Some_iff split: option.splits)

lemma rcx_put_ok:
  assumes ok: "rcx_ok S cap addr current x xs" and v: "value_at S (rcx_nodes x) k = Some v"
  shows "\<exists>nodes. rcx_put_fut S k fut x =
      Inr (x\<lparr>rw_data := (rw_data x)\<lparr>cell_data := (cell_data (rw_data x))\<lparr>rd_nodes := nodes\<rparr>\<rparr>\<rparr>) \<and>
    queue_ok rcx_flag S cap (rcx_next x) nodes xs \<and>
    value_at S nodes = (value_at S (rcx_nodes x))(k \<mapsto> v\<lparr>rt_fut := fut\<rparr>)"
proof -
  obtain n where n: "im_get S (rcx_nodes x) k = Some n" "nd_value n = v"
    using v by (auto simp: value_at_Some_iff)
  with rcx_task.put_ok [OF rcx_ok_queue [OF ok] n(1), of "v\<lparr>rt_fut := fut\<rparr>"] show ?thesis
    by (auto simp: rcx_put_fut_def Let_def)
qed

lemma rcx_put_keeps:
  assumes ok: "rcx_ok S cap addr current x xs" and v: "value_at S (rcx_nodes x) k = Some v"
  shows "\<exists>x'. rcx_put_fut S k (Some f) x = Inr x' \<and> rcx_ok S cap addr current x' xs \<and>
    rw_boxes x' = rw_boxes x \<and>
    value_at S (rcx_nodes x') = (value_at S (rcx_nodes x))(k \<mapsto> v\<lparr>rt_fut := Some f\<rparr>)"
  using rcx_put_ok [OF ok v, of "Some f"] ok by (auto simp: rcx_ok_def rcx_wakers_ok_def)

text \<open>The end of a task, in one step.\<close>

lemma rcx_complete_eq:
  assumes v: "value_at S (rcx_nodes x) k = Some v" "rt_fut v = Some f"
    and d: "drop_fut f x w = Inr (x1, w1)" and ok: "rcx_ok S cap addr current x1 xs"
    and v1: "value_at S (rcx_nodes x1) k = Some v1" and b: "rw_boxes x1 (addr k) = Some b"
  shows "if rc_strong b = 1
     then \<exists>x'. rcx_complete S drop_fut k x w = Inr (x', w1) \<and>
       rcx_ok S cap addr current x' (removeAll k xs) \<and> rw_boxes x' = rw_boxes x1 \<and>
       value_at S (rcx_nodes x') = (value_at S (rcx_nodes x1))(k := None)
     else rcx_complete S drop_fut k x w = Inl Assert_panic"
proof -
  have k: "k < cap" by (rule rcx_ok_cap [OF ok v1])
  obtain nodes where n: "queue_ok rcx_flag S cap (rcx_next x1) nodes xs"
    "value_at S nodes = (value_at S (rcx_nodes x1))(k \<mapsto> v1\<lparr>rt_fut := None\<rparr>)"
    and put: "rcx_put_fut S k None x1 =
      Inr (x1\<lparr>rw_data := (rw_data x1)\<lparr>cell_data := (cell_data (rw_data x1))\<lparr>rd_nodes := nodes\<rparr>\<rparr>\<rparr>)"
    using rcx_put_ok [OF ok v1, of None] by blast
  let ?x2 = "x1\<lparr>rw_data := (rw_data x1)\<lparr>cell_data := (cell_data (rw_data x1))\<lparr>rd_nodes := nodes\<rparr>\<rparr>\<rparr>"
  have at: "rcx_task_at S k x = Inr v" using v(1) by (simp add: rcx_task_at_iff)
  have count: "rcx_strong_count k ?x2 = Inr (rc_strong b)"
    using ok k b by (simp add: rcx_strong_count_def rcx_ok_def rcx_wakers_ok_def weak_strong_count_def
        rcx_boxes_def)
  show ?thesis
  proof (cases "rc_strong b = 1")
    case True
    have "value_at S nodes k = Some (v1\<lparr>rt_fut := None\<rparr>)" using n(2) by simp
    from rcx_task.free_ok [OF n(1) this] obtain nxt' nodes'
      where f: "free_nodes S k (rcx_next x1) nodes = Inr (nxt', nodes')"
        "queue_ok rcx_flag S cap nxt' nodes' (removeAll k xs)"
        "value_at S nodes' = (value_at S (rcx_nodes x1))(k := None)"
      using n(2) by auto
    let ?x = "x1\<lparr>rw_data := (rw_data x1)\<lparr>cell_data := \<lparr>rd_nodes = nodes', rd_next = nxt'\<rparr>\<rparr>\<rparr>"
    have "rcx_complete S drop_fut k x w = Inr (?x, w1)"
      using at v(2) d put count f(1) True rcx_ok_free [OF ok]
      by (simp add: rcx_complete_def rcx_borrow_def with_borrow_def)
    moreover have "rcx_ok S cap addr current ?x (removeAll k xs)"
      using f(3) rcx_ok_fut [OF ok] by (intro rcx_ok_data [OF ok f(2)]) (fastforce split: if_splits)
    ultimately show ?thesis using True f(3) by auto
  next
    case False
    with at v(2) d put count show ?thesis by (simp add: rcx_complete_def)
  qed
qed

lemma rcx_complete_ok:
  assumes b: "rcx_behaved F S current poll drop_fut" and ok: "rcx_ok S cap addr current x (xs @ zs)"
    and k: "k \<notin> set xs" and r: "rcx_complete S drop_fut k x w = Inr (x', w')"
  shows "\<exists>zs. rcx_ok S cap addr current x' (xs @ zs)"
proof -
  obtain v where at: "rcx_task_at S k x = Inr v"
    using r by (auto simp: rcx_complete_def res_iff)
  then have v: "value_at S (rcx_nodes x) k = Some v" by (simp add: rcx_task_at_iff)
  obtain f where f: "rt_fut v = Some f" using rcx_ok_fut [OF ok v] by blast
  obtain x1 w1 where d: "drop_fut f x w = Inr (x1, w1)"
    using r at f by (auto simp: rcx_complete_def res_iff)
  with b have "(rcx_step F S current)\<^sup>*\<^sup>* x x1" unfolding rcx_behaved_def by blast
  from rcx_steps_ok [OF this ok] obtain ys where x1: "rcx_ok S cap addr current x1 (xs @ ys)"
    "rcx_keeps S x x1" by auto
  with v obtain v1 where v1: "value_at S (rcx_nodes x1) k = Some v1" by (auto simp: rcx_keeps_def)
  obtain bx where bx: "rw_boxes x1 (addr k) = Some bx"
    using rcx_ok_box [OF x1(1) rcx_ok_cap [OF x1(1) v1]] by blast
  from rcx_complete_eq [where drop_fut = drop_fut, OF v f d x1(1) v1 bx] r k show ?thesis
    by (auto split: if_splits)
qed

lemma rcx_turn_ok:
  assumes b: "rcx_behaved F S current poll drop_fut" and ok: "rcx_ok S cap addr current x xs"
    and k: "k \<notin> set xs" and r: "rcx_turn S poll drop_fut k x w = Some (Inr (x', w'))"
  shows "\<exists>zs. rcx_ok S cap addr current x' (xs @ zs)"
proof -
  obtain v f d f' x2 w2 x3 where v: "value_at S (rcx_nodes x) k = Some v"
    and p: "poll f (rw_wakers x ! k) x w = Some (Inr (d, f', x2, w2))"
    and put: "rcx_put_fut S k (Some f') x2 = Inr x3"
    and c: "(if d then rcx_complete S drop_fut k x3 w2 else Inr (x3, w2)) = Inr (x', w')"
    using r by (auto simp: turn_def rcx_poll_def res_iff rcx_task_at_iff)
  from b p have "(rcx_step F S current)\<^sup>*\<^sup>* x x2" unfolding rcx_behaved_def by blast
  from rcx_steps_ok [OF this ok] obtain zs where x2: "rcx_ok S cap addr current x2 (xs @ zs)"
    "rcx_keeps S x x2" by blast
  with v obtain v2 where v2: "value_at S (rcx_nodes x2) k = Some v2" by (auto simp: rcx_keeps_def)
  with rcx_put_keeps [OF x2(1) v2, of f'] put have "rcx_ok S cap addr current x3 (xs @ zs)" by auto
  with c rcx_complete_ok [OF b this k, of w2 x' w'] show ?thesis by (cases d) auto
qed

definition rcx_inv ::
  "waker_factory \<Rightarrow> ('n, 'f rcx_task node) slab_ops \<Rightarrow> ('n, 'f, 'w) rcx_polls \<Rightarrow>
     ('n, 'f, 'w) rcx_drops \<Rightarrow> nat \<Rightarrow> (nat \<Rightarrow> nat) \<Rightarrow> nat \<Rightarrow> 'n rcx_world \<Rightarrow> nat list \<Rightarrow> bool" where
  "rcx_inv F S poll drop_fut cap addr current x xs \<longleftrightarrow>
     rcx_behaved F S current poll drop_fut \<and> rcx_ok S cap addr current x xs"

interpretation rcx_loop: poll_loop "rcx_begin S" "rcx_poll S poll" "rcx_complete S drop_fut"
  "rcx_inv F S poll drop_fut cap addr current" for F S poll drop_fut cap addr current
proof unfold_locales
  show "rcx_begin S x = Inr (None, x)" if "rcx_inv F S poll drop_fut cap addr current x []" for x
    using that by (auto simp: rcx_inv_def intro: rcx_begin_empty)
  show "\<exists>x1. rcx_begin S x = Inr (Some k, x1) \<and> rcx_inv F S poll drop_fut cap addr current x1 xs \<and>
      k \<notin> set xs"
    if "rcx_inv F S poll drop_fut cap addr current x (k # xs)" for x k xs
    using that rcx_begin_front [of S cap addr current x k xs] by (auto simp: rcx_inv_def)
  show "\<exists>zs. rcx_inv F S poll drop_fut cap addr current x' (xs @ zs)"
    if "rcx_inv F S poll drop_fut cap addr current x xs" "k \<notin> set xs"
      "rcx_turn S poll drop_fut k x w = Some (Inr (x', w'))" for x xs k w x' w'
    using that rcx_turn_ok [of F S current poll drop_fut cap addr x xs k w x' w']
    by (auto simp: rcx_inv_def)
qed

lemmas rcx_ends = rcx_loop.run_end [folded rcx_process_next_def]

subsection \<open>The executor meets the contract\<close>

definition rcx_view ::
  "('n, 'f rcx_task node) slab_ops \<Rightarrow> (nat \<Rightarrow> nat) \<Rightarrow> 'n rcx_world \<Rightarrow> 'f tasks" where
  "rcx_view S addr x k =
     Option.bind (value_at S (rcx_nodes x) k)
       (\<lambda>v. map_option (\<lambda>f. (f, weak_strong_count rcx_boxes (addr k) x)) (rt_fut v))"

definition rcx_rep ::
  "('n, 'f rcx_task node) slab_ops \<Rightarrow> nat \<Rightarrow> (nat \<Rightarrow> nat) \<Rightarrow> nat \<Rightarrow> 'n rcx_world \<Rightarrow> 'f tasks \<Rightarrow>
     nat list \<Rightarrow> bool" where
  "rcx_rep S cap addr current x m xs \<longleftrightarrow>
     rcx_ok S cap addr current x xs \<and> m = rcx_view S addr x \<and> inj_on addr {..<cap} \<and>
     (\<forall>k < cap. value_at S (rcx_nodes x) k = None \<longrightarrow> weak_strong_count rcx_boxes (addr k) x = 1)"

lemma rcx_repD:
  assumes "rcx_rep S cap addr current x m xs"
  shows "rcx_ok S cap addr current x xs" and "m = rcx_view S addr x" and "inj_on addr {..<cap}"
    and "k < cap \<Longrightarrow> value_at S (rcx_nodes x) k = None \<Longrightarrow> weak_strong_count rcx_boxes (addr k) x = 1"
  using assms by (simp_all add: rcx_rep_def)

lemma rcx_count_boxes:
  "rw_boxes x' = rw_boxes x \<Longrightarrow> weak_strong_count rcx_boxes p x' = weak_strong_count rcx_boxes p x"
  by (simp add: weak_strong_count_def rcx_boxes_def)

lemma rcx_count_box:
  "rw_boxes x p = Some b \<Longrightarrow> weak_strong_count rcx_boxes p x = rc_strong b"
  by (simp add: weak_strong_count_def rcx_boxes_def)

lemma rcx_view_upd:
  assumes "value_at S (rcx_nodes x') = (value_at S (rcx_nodes x))(k := v)" and "rw_boxes x' = rw_boxes x"
  shows "rcx_view S addr x' = (rcx_view S addr x)(k := Option.bind v (\<lambda>v.
    map_option (\<lambda>f. (f, weak_strong_count rcx_boxes (addr k) x)) (rt_fut v)))"
  using assms rcx_count_boxes [OF assms(2)] by (auto simp: rcx_view_def fun_eq_iff)

lemma rcx_view_awake:
  assumes "value_at S (rcx_nodes x) k = Some v" and "rw_boxes x' = rw_boxes x"
    and "value_at S (rcx_nodes x') = (value_at S (rcx_nodes x))(k \<mapsto> v\<lparr>rt_awake := b\<rparr>)"
  shows "rcx_view S addr x' = rcx_view S addr x"
  using assms rcx_count_boxes [OF assms(2)] by (auto simp: rcx_view_def fun_eq_iff)

lemma rcx_rep_Some:
  assumes "rcx_rep S cap addr current x m xs" and "m k = Some (f, r)"
  shows "\<exists>v b. value_at S (rcx_nodes x) k = Some v \<and> rt_fut v = Some f \<and> k < cap \<and>
    rw_boxes x (addr k) = Some b \<and> rc_strong b = r \<and> r \<noteq> 0 \<and> rc_value b = waker_of current k"
proof -
  note ok = rcx_repD(1) [OF assms(1)]
  obtain v where v: "value_at S (rcx_nodes x) k = Some v" "rt_fut v = Some f"
    "weak_strong_count rcx_boxes (addr k) x = r"
    using assms by (cases "value_at S (rcx_nodes x) k") (auto simp: rcx_rep_def rcx_view_def)
  from rcx_ok_box [OF ok rcx_ok_cap [OF ok v(1)]] v rcx_ok_cap [OF ok v(1)] show ?thesis
    by (auto simp: weak_strong_count_def rcx_boxes_def)
qed

lemma rcx_rep_dom:
  assumes "rcx_rep S cap addr current x m xs" shows "dom m = dom (value_at S (rcx_nodes x))"
proof -
  have "m k \<noteq> None \<longleftrightarrow> value_at S (rcx_nodes x) k \<noteq> None" for k
    using rcx_ok_fut [OF rcx_repD(1) [OF assms], of k]
    by (cases "value_at S (rcx_nodes x) k") (auto simp: rcx_repD(2) [OF assms] rcx_view_def)
  then show ?thesis by blast
qed

lemma rcx_rep_card:
  assumes "rcx_rep S cap addr current x m xs" shows "slab_len S (rcx_nodes x) = card (dom m)"
  using task_pool.used_view [OF queue_ok_rep [OF rcx_ok_queue [OF rcx_repD(1) [OF assms]]]]
  by (simp add: rcx_rep_dom [OF assms])

lemma rcx_rep_new:
  assumes "slab_ok S" and "inj_on addr {..<cap}"
  shows "rcx_rep S cap addr current (rcx_new S addr current cap) Map.empty []"
  using rcx_new_ok [OF assms] assms(2) by (auto simp: rcx_rep_def rcx_view_def)

lemma rcx_rep_set_count:
  assumes rep: "rcx_rep S cap addr current x m xs" and m: "m k = Some (f, r)"
    and b: "rw_boxes x (addr k) = Some b" and r': "r' \<noteq> 0"
  shows "rcx_rep S cap addr current (x\<lparr>rw_boxes := (rw_boxes x)(addr k \<mapsto> b\<lparr>rc_strong := r'\<rparr>)\<rparr>)
    (m(k \<mapsto> (f, r'))) xs"
proof -
  note inj = rcx_repD(3) [OF rep] and ok = rcx_repD(1) [OF rep]
  obtain v where v: "value_at S (rcx_nodes x) k = Some v" "rt_fut v = Some f" "k < cap"
    using rcx_rep_Some [OF rep m] by blast
  let ?x = "x\<lparr>rw_boxes := (rw_boxes x)(addr k \<mapsto> b\<lparr>rc_strong := r'\<rparr>)\<rparr>"
  have c: "weak_strong_count rcx_boxes (addr j) ?x =
      (if j = k then r' else weak_strong_count rcx_boxes (addr j) x)" if "j < cap" for j
    using inj that v(3) by (auto simp: weak_strong_count_def rcx_boxes_def inj_on_def)
  have "rcx_view S addr ?x j = (m(k \<mapsto> (f, r'))) j" for j
    using c rcx_ok_cap [OF ok, of j] v rcx_repD(2) [OF rep]
    by (cases "value_at S (rcx_nodes x) j") (auto simp: rcx_view_def)
  then have "rcx_view S addr ?x = m(k \<mapsto> (f, r'))" by blast
  with rcx_set_count [OF ok b r'] inj c rcx_repD(4) [OF rep] v(1) show ?thesis
    by (auto simp: rcx_rep_def)
qed

text \<open>A step that changes the tasks but no count.\<close>

lemma rcx_rep_data:
  assumes "rcx_rep S cap addr current x m xs" and "rcx_ok S cap addr current x' ys"
    and "rw_boxes x' = rw_boxes x"
    and "value_at S (rcx_nodes x') = (value_at S (rcx_nodes x))(k := v)"
    and "v = None \<Longrightarrow> weak_strong_count rcx_boxes (addr k) x = 1"
  shows "rcx_rep S cap addr current x' (m(k := Option.bind v (\<lambda>v.
    map_option (\<lambda>f. (f, weak_strong_count rcx_boxes (addr k) x)) (rt_fut v)))) ys"
  using assms rcx_count_boxes [OF assms(3)] rcx_view_upd [OF assms(4,3)]
  by (auto simp: rcx_rep_def)

lemma rcx_poll_rep:
  assumes rep: "rcx_rep S cap addr current x m xs" and m: "m k = Some (f, r)"
    and p: "poll f (addr k) x w = Some (Inr (d, f', x2, w2))"
    and rep2: "rcx_rep S cap addr current x2 m2 ys" and m2: "m2 k = Some (f2, r2)"
  shows "\<exists>x3. rcx_poll S poll k x w = Some (Inr (d, x3, w2)) \<and>
    rcx_rep S cap addr current x3 (m2(k \<mapsto> (f', r2))) ys"
proof -
  obtain v where v: "value_at S (rcx_nodes x) k = Some v" "rt_fut v = Some f" "k < cap"
    using rcx_rep_Some [OF rep m] by blast
  obtain v2 b2 where v2: "value_at S (rcx_nodes x2) k = Some v2" "rw_boxes x2 (addr k) = Some b2"
    "rc_strong b2 = r2"
    using rcx_rep_Some [OF rep2 m2] by blast
  obtain x3 where x3: "rcx_put_fut S k (Some f') x2 = Inr x3" "rcx_ok S cap addr current x3 ys"
    "rw_boxes x3 = rw_boxes x2"
    "value_at S (rcx_nodes x3) = (value_at S (rcx_nodes x2))(k \<mapsto> v2\<lparr>rt_fut := Some f'\<rparr>)"
    using rcx_put_keeps [OF rcx_repD(1) [OF rep2] v2(1)] by blast
  have "rw_wakers x = map addr [0..<cap]"
    using rcx_repD(1) [OF rep] by (simp add: rcx_ok_def rcx_wakers_ok_def)
  with v p x3(1) have "rcx_poll S poll k x w = Some (Inr (d, x3, w2))"
    by (simp add: rcx_poll_def iffD2 [OF rcx_task_at_iff])
  with rcx_rep_data [OF rep2 x3(2-4)] v2(2,3) show ?thesis by (auto simp: rcx_count_box)
qed

lemma rcx_complete_rep:
  assumes rep: "rcx_rep S cap addr current x m xs" and m: "m k = Some (f, 1)"
    and d: "\<And>x. drop_fut f x w = Inr (x, w')"
  shows "\<exists>x'. rcx_complete S drop_fut k x w = Inr (x', w') \<and>
    rcx_rep S cap addr current x' (m(k := None)) (removeAll k xs)"
proof -
  obtain v b where v: "value_at S (rcx_nodes x) k = Some v" "rt_fut v = Some f"
    "rw_boxes x (addr k) = Some b" "rc_strong b = 1"
    using rcx_rep_Some [OF rep m] by blast
  from rcx_complete_eq [where drop_fut = drop_fut, OF v(1,2) d rcx_repD(1) [OF rep] v(1,3)] v(4)
  obtain x' where "rcx_complete S drop_fut k x w = Inr (x', w')"
    "rcx_ok S cap addr current x' (removeAll k xs)" "rw_boxes x' = rw_boxes x"
    "value_at S (rcx_nodes x') = (value_at S (rcx_nodes x))(k := None)" by auto
  with rcx_rep_data [OF rep this(2-4)] v(3,4) show ?thesis by (auto simp: rcx_count_box)
qed

interpretation rcx_exec: task_executor "rcx_vtable F S current" addr cap "rcx_rep S cap addr current"
  "rcx_begin S" "rcx_poll S" "rcx_complete S" "rcx_is_empty S" "rcx_spawn S" for F S cap addr current
proof unfold_locales
  fix x :: "'a rcx_world" and m xs k f and r :: usize
  assume rep: "rcx_rep S cap addr current x m xs"
  note ok = rcx_repD(1) [OF rep]
  show "finite (dom m) \<and> distinct xs \<and> set xs \<subseteq> dom m"
    using task_pool.used_view [OF queue_ok_rep [OF rcx_ok_queue [OF ok]]]
      run_queue.rep_distinct [OF queue_ok_rep [OF rcx_ok_queue [OF ok]]]
      queue_ok_member [OF rcx_ok_queue [OF ok]] rcx_rep_dom [OF rep] by auto
  show "rcx_is_empty S x = Inr (m = Map.empty)"
    using queue_ok_empty_iff [OF rcx_ok_queue [OF ok]] rcx_rep_dom [OF rep]
    by (auto simp: rcx_is_empty_def rcx_ok_free [OF ok])
  show "\<exists>x'. vt_wake_by_ref (rcx_vtable F S current) (addr k) x = Inr x' \<and>
      rcx_rep S cap addr current x' m (sched_wake k xs)"
    if "m k = Some a" for a
  proof -
    obtain f r where a: "a = (f, r)" by (cases a)
    with that obtain v b where v: "value_at S (rcx_nodes x) k = Some v" "rw_boxes x (addr k) = Some b"
      "rc_strong b \<noteq> 0" "rc_value b = waker_of current k"
      using rcx_rep_Some [OF rep, of k f r] by auto
    from rcx_wake_ok [OF ok v(1)] obtain x' where x': "rcx_wake S k x = Inr x'"
      "rcx_ok S cap addr current x' (sched_wake k xs)" "rw_boxes x' = rw_boxes x"
      "value_at S (rcx_nodes x') = (value_at S (rcx_nodes x))(k \<mapsto> v\<lparr>rt_awake := True\<rparr>)" by blast
    have "rw_strong x \<noteq> 0" using ok by (simp add: rcx_ok_def rcx_wakers_ok_def)
    then have "vt_wake_by_ref (rcx_vtable F S current) (addr k) x = Inr x'"
      using rcx_table(3) [OF v(2,3), of current F S] v(4) x'(1) by (simp add: waker_of_def)
    moreover have "rcx_rep S cap addr current x' m (sched_wake k xs)"
      using x'(2) rcx_view_awake [OF v(1) x'(3,4), of addr] rcx_repD(2,3) [OF rep]
        rcx_repD(4) [OF rep] x'(4) v(1) rcx_count_boxes [OF x'(3)]
      by (auto simp: rcx_rep_def)
    ultimately show ?thesis by blast
  qed
  show "vt_wake (rcx_vtable F S current) (addr k) x =
      and_then (vt_wake_by_ref (rcx_vtable F S current) (addr k) x)
        (vt_drop (rcx_vtable F S current) (addr k))"
    if "m k = Some a" for a
  proof -
    obtain f r where a: "a = (f, r)" by (cases a)
    with that obtain b v where b: "rw_boxes x (addr k) = Some b" "rc_strong b \<noteq> 0"
      "tw_thread_id (rc_value b) = current" and v: "value_at S (rcx_nodes x) k = Some v"
      and id: "tw_task_id (rc_value b) = k"
      using rcx_rep_Some [OF rep, of k f r] by (auto simp: waker_of_def)
    from rcx_wake_ok [OF ok v] obtain x' where x': "rcx_wake S k x = Inr x'" "rw_boxes x' = rw_boxes x"
      by blast
    have "rw_strong x \<noteq> 0" using ok by (simp add: rcx_ok_def rcx_wakers_ok_def)
    moreover have "rc_drop rcx_boxes (addr k) x' = vt_drop (rcx_vtable F S current) (addr k) x'"
      using rcx_table(2) [of x' "addr k" b current F S] b x'(2)
      by (simp add: rc_drop_def rc_deref_def deref_def rcx_boxes_def)
    ultimately show ?thesis
      using rcx_table(3,4) [OF b, of F S] x'(1) id by simp
  qed
  show "\<exists>x'. vt_clone (rcx_vtable F S current) (addr k) x = Inr (addr k, x') \<and>
      rcx_rep S cap addr current x' (m(k \<mapsto> (f, r + 1))) xs"
    if "m k = Some (f, r)" "r + 1 \<noteq> 0"
    using rcx_rep_Some [OF rep that(1)] rcx_rep_set_count [OF rep that(1) _ that(2)]
      rcx_table(1) [of x "addr k" _ current F S] by (fastforce simp: waker_of_def)
  show "\<exists>x'. vt_drop (rcx_vtable F S current) (addr k) x = Inr x' \<and>
      rcx_rep S cap addr current x' (m(k \<mapsto> (f, r - 1))) xs"
    if "m k = Some (f, r)" "1 < r"
    using rcx_rep_Some [OF rep that(1)]
      rcx_rep_set_count [OF rep that(1) _ usize_pred_nonzero [OF that(2)]]
      rcx_table(2) [of x "addr k" _ current F S] by (fastforce simp: waker_of_def)
  show "\<exists>k x'. rcx_spawn S f x = Inr (Inr (), x') \<and> m k = None \<and>
      rcx_rep S cap addr current x' (m(k \<mapsto> (f, 1))) (xs @ [k])" if "card (dom m) < cap"
  proof -
    have "slab_len S (rcx_nodes x) < cap" using that rcx_rep_card [OF rep] by simp
    from rcx_add_ok [OF ok this, of f] obtain k x' where a: "rcx_add S f x = Inr (Inr (), x')"
      "value_at S (rcx_nodes x) k = None" "k < cap" "rcx_ok S cap addr current x' (xs @ [k])"
      "rw_boxes x' = rw_boxes x"
      "value_at S (rcx_nodes x') = (value_at S (rcx_nodes x))(k \<mapsto> rcx_new_task f)" by blast
    have "m k = None" using rcx_rep_dom [OF rep] a(2) by auto
    with rcx_rep_data [OF rep a(4-6)] a(1) rcx_repD(4) [OF rep a(3,2)] show ?thesis
      by (auto simp: rcx_spawn_def rcx_new_task_def)
  qed
  show "rcx_spawn S f x = Inr (Inl (), x)" if "card (dom m) = cap"
    using rcx_add_full [OF ok] that rcx_rep_card [OF rep] by (simp add: rcx_spawn_def)
next
  show "rcx_begin S x = Inr (None, x)" if "rcx_rep S cap addr current x m []" for x m
    by (rule rcx_begin_empty [OF rcx_repD(1) [OF that]])
  show "\<exists>x1. rcx_begin S x = Inr (Some k, x1) \<and> rcx_rep S cap addr current x1 m xs"
    if rep: "rcx_rep S cap addr current x m (k # xs)" for x m k xs
  proof -
    from rcx_begin_front [OF rcx_repD(1) [OF rep]] obtain x1 v where b: "rcx_begin S x = Inr (Some k, x1)"
      "rcx_ok S cap addr current x1 xs" "rw_boxes x1 = rw_boxes x" "value_at S (rcx_nodes x) k = Some v"
      "value_at S (rcx_nodes x1) = (value_at S (rcx_nodes x))(k \<mapsto> v\<lparr>rt_awake := False\<rparr>)" by blast
    then show ?thesis
      using rcx_view_awake [OF b(4,3,5), of addr] rcx_repD(2,3) [OF rep] rcx_repD(4) [OF rep]
        rcx_count_boxes [OF b(3)]
      by (auto simp: rcx_rep_def)
  qed
qed (rule rcx_poll_rep rcx_complete_rep; assumption)+

subsection \<open>Properties\<close>

text \<open>For the witnesses: an executor of two slots and a future that counts the polls left.\<close>

definition rcx_two_slots :: "(nat rcx_task node) vslab rcx_world" where
  "rcx_two_slots = rcx_new vec_slab (\<lambda>k. k + 40) 7 2"

definition rcx_yield :: "waker_factory \<Rightarrow> ('n, nat rcx_task node) slab_ops \<Rightarrow> nat \<Rightarrow> ('n, nat, unit) rcx_polls"
  where
  "rcx_yield F S current = (\<lambda>n p x w.
     if n = 0 then Some (Inr (True, n, x, w))
     else run_then (Some (vt_wake_by_ref (rcx_vtable F S current) p x)) (\<lambda>x.
       Some (Inr (False, n - 1, x, w))))"

definition rcx_no_drop :: "('n, nat, unit) rcx_drops" where
  "rcx_no_drop = (\<lambda>_ x w. Inr (x, w))"

lemma rcx_yield_behaved: "rcx_behaved F S current (rcx_yield F S current) rcx_no_drop"
  unfolding rcx_behaved_def
proof (intro conjI allI impI)
  fix f p x w d f' x' w'
  assume "rcx_yield F S current f p x w = Some (Inr (d, f', x', w'))"
  then have "x' = x \<or> vt_wake_by_ref (rcx_vtable F S current) p x = Inr x'"
    by (auto simp: rcx_yield_def res_iff split: if_splits)
  then show "(rcx_step F S current)\<^sup>*\<^sup>* x x'" by (auto intro: rcx_step_wake)
qed (simp add: rcx_no_drop_def)

lemma rcx_one_task:
  "\<exists>x x'. rcx_spawn vec_slab 3 rcx_two_slots = Inr (Inr (), x) \<and>
     (\<exists>k. rcx_ok vec_slab 2 (\<lambda>k. k + 40) 7 x [k]) \<and>
     rcx_process_next vec_slab (rcx_yield Checked_rc_waker_factory vec_slab 7) rcx_no_drop x () =
       Some (Inr (x', ())) \<and>
     rcx_is_empty vec_slab x' = Inr True"
proof -
  have "rcx_rep vec_slab 2 (\<lambda>k. k + 40) 7 rcx_two_slots Map.empty []"
    unfolding rcx_two_slots_def by (rule rcx_rep_new) (simp_all add: inj_on_def)
  from rcx_exec.spawn_room [OF this, of 3] obtain k x
    where x: "rcx_spawn vec_slab 3 rcx_two_slots = Inr (Inr (), x)"
      "rcx_rep vec_slab 2 (\<lambda>k. k + 40) 7 x [k \<mapsto> (3, 1)] [k]"
    by (auto simp del: fun_upd_apply)
  have y: "rcx_yield F vec_slab 7 = rcx_exec.yielding F vec_slab 7 id (\<lambda>n. n - 1)" for F
    by (simp add: rcx_yield_def rcx_exec.yielding_def fun_eq_iff)
  have d: "rcx_no_drop = (\<lambda>_ x w. Inr (x, ()))" by (simp add: rcx_no_drop_def fun_eq_iff)
  from rcx_exec.lone_task_returns [OF x(2), of id "\<lambda>n. n - 1" Checked_rc_waker_factory "()"] obtain x'
    where "rcx_process_next vec_slab (rcx_yield Checked_rc_waker_factory vec_slab 7) rcx_no_drop x () =
        Some (Inr (x', ()))"
      and r: "rcx_rep vec_slab 2 (\<lambda>k. k + 40) 7 x' Map.empty []"
    by (auto simp: rcx_process_next_def y d)
  then show ?thesis using x rcx_exec.empty_iff [OF r] by (auto simp: rcx_rep_def)
qed

text \<open>
  C16. When \<open>run\<close> of the reference-counting executor returns, no task is stored or queued, the
  waker of every key is still there, and nothing is borrowed.
\<close>

theorem rcx_run_completes:
  assumes "rcx_behaved F S current poll drop_fut"
    and "\<And>x w r x' w'. park x w = Inr (r, x', w') \<Longrightarrow> (rcx_step F S current)\<^sup>*\<^sup>* x x'"
    and "rcx_ok S cap addr current x xs" and "rcx_run S poll drop_fut park x w = Some (Inr (x', w'))"
  shows "rcx_is_empty S x' = Inr True \<and> rcx_ok S cap addr current x' []"
proof -
  have i: "rcx_inv F S poll drop_fut cap addr current x xs" using assms(1,3) by (simp add: rcx_inv_def)
  have keep: "\<exists>zs. rcx_inv F S poll drop_fut cap addr current x' zs"
    if "rcx_inv F S poll drop_fut cap addr current x []" "park x w = Inr (p, x', w')" for x w p x' w'
    using rcx_steps_ok [OF assms(2) [OF that(2)], of cap addr "[]"] that(1) by (auto simp: rcx_inv_def)
  have "rcx_inv F S poll drop_fut cap addr current x' [] \<and> rcx_is_empty S x' = Inr True"
    by (rule rcx_ends [OF assms(4) [unfolded rcx_run_def] i]) (rule keep)
  then show ?thesis by (simp add: rcx_inv_def)
qed

theorem rcx_run_completes_witness:
  "\<exists>x x'. rcx_spawn vec_slab 3 rcx_two_slots = Inr (Inr (), x) \<and>
     rcx_run vec_slab (rcx_yield Checked_rc_waker_factory vec_slab 7) rcx_no_drop
       (\<lambda>x w. Inr (Inr () :: unit + unit, x, w)) x () = Some (Inr (x', ())) \<and>
     rcx_is_empty vec_slab x' = Inr True"
proof -
  let ?park = "\<lambda>x w. Inr (Inr () :: unit + unit, x, w)"
  from rcx_one_task obtain x x' k where x: "rcx_spawn vec_slab 3 rcx_two_slots = Inr (Inr (), x)"
      "rcx_ok vec_slab 2 (\<lambda>k. k + 40) 7 x [k]"
      "rcx_process_next vec_slab (rcx_yield Checked_rc_waker_factory vec_slab 7) rcx_no_drop x () =
        Some (Inr (x', ()))"
      "rcx_is_empty vec_slab x' = Inr True" by blast
  from x(3,4) have r: "rcx_run vec_slab (rcx_yield Checked_rc_waker_factory vec_slab 7) rcx_no_drop
      ?park x () = Some (Inr (x', ()))"
    by (simp add: rcx_run_def executor_run.simps)
  from rcx_run_completes [OF rcx_yield_behaved _ x(2) r] x(1) r show ?thesis by auto
qed

lemma drop_futs_trivial:
  assumes "\<And>f x. drop_fut f x w = Inr (x, w)" shows "drop_futs drop_fut ns x w = Inr (x, w)"
  using assms by (induction ns) (auto split: option.splits)

lemma drop_wakers_ok:
  assumes "distinct ps" and "rw_strong x = 0"
    and "\<And>p. p \<in> set ps \<Longrightarrow> \<exists>b. rw_boxes x p = Some b \<and> rc_strong b \<noteq> 0 \<and>
      tw_thread_id (rc_value b) = current"
  shows "\<exists>x'. drop_wakers (rcx_vtable F S current) ps x = Inr x' \<and> rw_strong x' = 0 \<and>
    (\<forall>p. rw_boxes x' p = (if p \<in> set ps then map_option (\<lambda>b. b\<lparr>rc_strong := rc_strong b - 1\<rparr>) (rw_boxes x p)
       else rw_boxes x p))"
  using assms
proof (induction ps arbitrary: x)
  case (Cons p ps)
  obtain b where b: "rw_boxes x p = Some b" "rc_strong b \<noteq> 0" "tw_thread_id (rc_value b) = current"
    using Cons.prems(3) [of p] by auto
  let ?x = "x\<lparr>rw_boxes := (rw_boxes x)(p \<mapsto> b\<lparr>rc_strong := rc_strong b - 1\<rparr>)\<rparr>"
  have "\<exists>x'. drop_wakers (rcx_vtable F S current) ps ?x = Inr x' \<and> rw_strong x' = 0 \<and>
    (\<forall>q. rw_boxes x' q = (if q \<in> set ps then map_option (\<lambda>b. b\<lparr>rc_strong := rc_strong b - 1\<rparr>) (rw_boxes ?x q)
       else rw_boxes ?x q))"
  proof (rule Cons.IH)
    show "\<exists>b. rw_boxes ?x q = Some b \<and> rc_strong b \<noteq> 0 \<and> tw_thread_id (rc_value b) = current"
      if "q \<in> set ps" for q
      using that Cons.prems(1) Cons.prems(3) [of q] by auto
  qed (use Cons.prems in auto)
  then show ?case using rcx_table(2) [OF b, of F S] b(1) Cons.prems(1) by auto
qed simp

text \<open>
  C17. The wakers of the reference-counting executor outlive it: dropping the executor gives up its
  own reference to each box and no more, so that a clone that is left still leads to its box, and
  waking through it does nothing. With embedded wakers the clone would lead to freed memory.
\<close>

theorem rcx_waker_outlives:
  assumes "rcx_ok S cap addr current x xs" and "inj_on addr {..<cap}" and "rw_strong x = 1"
    and "\<And>f x. drop_fut f x w = Inr (x, w)"
    and "k < cap" and "1 < weak_strong_count rcx_boxes (addr k) x"
  shows "\<exists>x'. rcx_executor_drop F S current drop_fut x w = Inr (x', w) \<and>
    weak_strong_count rcx_boxes (addr k) x' = weak_strong_count rcx_boxes (addr k) x - 1 \<and>
    vt_wake_by_ref (rcx_vtable F S current) (addr k) x' = Inr x'"
proof -
  let ?x = "x\<lparr>rw_strong := 0\<rparr>" and ?ps = "map addr [0..<cap]"
  have ws: "rw_wakers x = ?ps" using assms(1) by (simp add: rcx_ok_def rcx_wakers_ok_def)
  have box: "\<exists>b. rw_boxes x (addr j) = Some b \<and> rc_strong b \<noteq> 0 \<and> tw_thread_id (rc_value b) = current"
    if "j < cap" for j
    using rcx_ok_box [OF assms(1) that] by (auto simp: waker_of_def)
  have "distinct ?ps" using assms(2) by (simp add: distinct_map atLeast0LessThan)
  moreover have "\<exists>b. rw_boxes ?x p = Some b \<and> rc_strong b \<noteq> 0 \<and> tw_thread_id (rc_value b) = current"
    if "p \<in> set ?ps" for p
    using that box by auto
  ultimately obtain x'
    where x': "drop_wakers (rcx_vtable F S current) ?ps ?x = Inr x'" "rw_strong x' = 0"
      "\<And>p. rw_boxes x' p = (if p \<in> set ?ps
        then map_option (\<lambda>b. b\<lparr>rc_strong := rc_strong b - 1\<rparr>) (rw_boxes x p) else rw_boxes x p)"
    using drop_wakers_ok [of ?ps ?x current F S] by auto
  have "rcx_executor_drop F S current drop_fut x w = Inr (x', w)"
    using x'(1) ws assms(3) by (simp add: rcx_executor_drop_def drop_futs_trivial [of drop_fut w, OF assms(4)])
  moreover obtain b where b: "rw_boxes x (addr k) = Some b" "tw_thread_id (rc_value b) = current"
    using box [OF assms(5)] by blast
  then have b': "rw_boxes x' (addr k) = Some (b\<lparr>rc_strong := rc_strong b - 1\<rparr>)"
    using x'(3) [of "addr k"] assms(5) by auto
  moreover have "rc_strong b - 1 \<noteq> 0"
    using assms(6) b(1) usize_pred_nonzero by (simp add: rcx_count_box)
  ultimately show ?thesis
    using rcx_table(3) [OF b', of current F S] b x'(2) by (simp add: rcx_count_box)
qed

theorem rcx_waker_outlives_witness:
  "\<exists>x x'. vt_clone (rcx_vtable Rc_waker_factory vec_slab 7) 41 rcx_two_slots = Inr (41, x) \<and>
     rcx_executor_drop Rc_waker_factory vec_slab 7 rcx_no_drop x () = Inr (x', ()) \<and>
     vt_wake_by_ref (rcx_vtable Rc_waker_factory vec_slab 7) 41 x' = Inr x'"
proof -
  let ?addr = "\<lambda>k :: nat. k + 40" and ?x = rcx_two_slots
  have inj: "inj_on ?addr {..<2}" by (simp add: inj_on_def)
  have ok: "rcx_ok vec_slab 2 ?addr 7 ?x []" and one: "weak_strong_count rcx_boxes 41 ?x = 1"
    using rcx_new_ok(1) [OF vec_slab_ok inj] rcx_new_ok(3) [OF vec_slab_ok inj, of 1]
    by (simp_all add: rcx_two_slots_def)
  obtain b where b: "rw_boxes ?x 41 = Some b" "rc_strong b \<noteq> 0" "tw_thread_id (rc_value b) = 7"
    using rcx_ok_box [OF ok, of 1] by (auto simp: waker_of_def)
  have "rc_strong b = 1" using one b(1) by (simp add: rcx_count_box)
  let ?y = "?x\<lparr>rw_boxes := (rw_boxes ?x)(41 \<mapsto> b\<lparr>rc_strong := 2\<rparr>)\<rparr>"
  have c: "vt_clone (rcx_vtable Rc_waker_factory vec_slab 7) 41 ?x = Inr (41, ?y)"
    using rcx_table(1) [OF b] \<open>rc_strong b = 1\<close> by simp
  have oky: "rcx_ok vec_slab 2 ?addr 7 ?y []" by (rule rcx_set_count [OF ok b(1)]) simp
  have s: "rw_strong ?y = 1" by (simp add: rcx_two_slots_def rcx_new_def Let_def new_waker_def upt_rec)
  have "1 < weak_strong_count rcx_boxes (?addr 1) ?y" by (simp add: rcx_count_box)
  from rcx_waker_outlives [OF oky inj s, of rcx_no_drop "()" 1 Rc_waker_factory, OF _ _ this] c
  show ?thesis by (auto simp: rcx_no_drop_def)
qed

end
