(* ===== verification/Async_Servers.thy ===== *)
theory Async_Servers
  imports Async_Correct Manual_Correct Box_Executor Box_Rc_Executor
begin

section \<open>The asynchronous servers (src/src/run.rs)\<close>

text \<open>
  The functions of \<open>run.rs\<close> that run the server on each executor. They differ in the executor,
  in how a connection is spawned and in the size of the buffers, and share the order of their
  steps: make the counters, the reactor and the executor, hand the caller a closure that spawns
  the listener and runs the executor, read the metrics, drop what was made in reverse order.

  On the executors with a spawner the memory of the spawner is the field \<open>io_links\<close> of the
  world; the spawner is at the address 0 and the executor at 1. While the executor runs, its
  tasks are threaded through the futures apart from that memory; they are written back for every
  call that goes through the spawner. The counts of \<open>Rc\<close>s that only keep the reactor, the
  counters and the executor alive to the end of the function are not modelled.
\<close>

subsection \<open>The order of the steps\<close>

definition run_server ::
  "('r, 'v, 'p) reactor_lib \<Rightarrow> 'w libc \<Rightarrow>
     (('r, 'v, 'p) fake_reactor \<Rightarrow> stats_data \<times> 'w \<Rightarrow> 'z res) \<Rightarrow> ('z \<Rightarrow> 'z run) \<Rightarrow>
     ('z \<Rightarrow> stats_data \<times> 'w) \<Rightarrow> ('z \<Rightarrow> 'z res) \<Rightarrow> bool \<Rightarrow> nat \<Rightarrow> 'w \<Rightarrow> (stats_metrics \<times> 'w) run" where
  "run_server E L setup closure stats teardown syscalls calls w =
     run_then (Some (stats_data_new L syscalls w)) (\<lambda>st.
     run_then (Some (setup (reactor_new E (CONNS_MAX + 1)) st)) (\<lambda>z.
     run_then (call_times calls closure z) (\<lambda>z.
     let result = stats_get (fst (stats z)) in
     run_then (Some (teardown z)) (\<lambda>z.
     let (d, w) = stats z in
     run_then (Some (stats_data_drop L d w)) (\<lambda>w.
     Some (Inr (result, w)))))))"

subsection \<open>Executors behind a spawner\<close>

text \<open>A call through the spawner from a future that the executor is polling.\<close>

definition spawn_running ::
  "('a \<Rightarrow> 't \<Rightarrow> unit \<Rightarrow> (spawned \<times> 't \<times> unit) res) \<Rightarrow> nat \<Rightarrow> nat \<Rightarrow> 'a \<Rightarrow> 't \<Rightarrow>
     ('r, 'v, 'p, 's, 't spawn_memory) io_world \<Rightarrow>
     (spawned \<times> 't \<times> ('r, 'v, 'p, 's, 't spawn_memory) io_world) res" where
  "spawn_running spawn self spawner arg t w =
     (let m = io_links w in
      and_then (expect Dangling (sm_executors m self)) (\<lambda>ex.
      let m = m\<lparr>sm_executors := (sm_executors m)(self \<mapsto> ex\<lparr>ex_tasks := t\<rparr>)\<rparr> in
      and_then (spawner_spawn spawn spawner arg m ()) (\<lambda>(r, m, _).
      and_then (expect Dangling (sm_executors m self)) (\<lambda>ex.
      Inr (r, ex_tasks ex, w\<lparr>io_links := m\<rparr>)))))"

text \<open>\<open>executor.run(..)\<close> on the executor at its address.\<close>

definition run_at ::
  "('t \<Rightarrow> ('r, 'v, 'p, 's, 't spawn_memory) io_world \<Rightarrow>
     ('t \<times> ('r, 'v, 'p, 's, 't spawn_memory) io_world) run) \<Rightarrow> nat \<Rightarrow>
     ('r, 'v, 'p, 's, 't spawn_memory) io_world \<Rightarrow>
     ('r, 'v, 'p, 's, 't spawn_memory) io_world run" where
  "run_at run self w =
     run_then (Some (expect Dangling (sm_executors (io_links w) self))) (\<lambda>ex.
     run_then (run (ex_tasks ex) w) (\<lambda>(t, w).
     run_then (Some (expect Dangling (sm_executors (io_links w) self))) (\<lambda>ex.
     Some (Inr (w\<lparr>io_links := (io_links w)
       \<lparr>sm_executors := (sm_executors (io_links w))(self \<mapsto> ex\<lparr>ex_tasks := t\<rparr>)\<rparr>\<rparr>)))))"

definition linked_setup ::
  "'t \<Rightarrow> ('r, 'v, 'p) fake_reactor \<Rightarrow> 's \<Rightarrow> ('r, 'v, 'p, 's, 't spawn_memory) io_world res" where
  "linked_setup tasks reactor st =
     (let m = spawner_new 0 \<lparr>sm_executors = Map.empty, sm_spawners = Map.empty\<rparr>;
          m = executor_new 1 tasks m
      in
      and_then (set_spawner 1 0 m) (\<lambda>m.
      Inr \<lparr>io_reactor = reactor, io_stats = st, io_links = m\<rparr>))"

text \<open>
  The executor is dropped before the reactor. Wakers that were left in the reactor would point
  into the memory of tasks that are gone, here into \<open>freed\<close>, which holds none. No task is left in
  the executor then (\<open>linked_clean\<close>), so that the boxing executor has no future to drop.
\<close>

definition linked_teardown ::
  "('r, 'v, 'p) reactor_lib \<Rightarrow> (nat, 't) raw_vtable \<Rightarrow> 't \<Rightarrow>
     ('r, 'v, 'p, 's, 't spawn_memory) io_world \<Rightarrow>
     ('r, 'v, 'p, 's, 't spawn_memory) io_world res" where
  "linked_teardown E vt freed w =
     and_then (executor_drop 1 (io_links w)) (\<lambda>m.
     and_then (reactor_drop E vt freed (io_reactor w)) (\<lambda>_.
     Inr (w\<lparr>io_links := m\<rparr>)))"

text \<open>The closure: \<open>spawner.spawn(..).unwrap()\<close>, then \<open>executor.run(|| reactor.poll())\<close>.\<close>

definition linked_closure ::
  "('a \<Rightarrow> 't \<Rightarrow> unit \<Rightarrow> (spawned \<times> 't \<times> unit) res) \<Rightarrow> 'a \<Rightarrow>
     ('t \<Rightarrow> ('r, 'v, 'p, 's, 't spawn_memory) io_world \<Rightarrow>
     ('t \<times> ('r, 'v, 'p, 's, 't spawn_memory) io_world) run) \<Rightarrow>
     ('r, 'v, 'p, 's, 't spawn_memory) io_world \<Rightarrow>
     ('r, 'v, 'p, 's, 't spawn_memory) io_world run" where
  "linked_closure spawn invoke run w =
     run_then (Some (spawner_spawn spawn 0 invoke (io_links w) ())) (\<lambda>(r, m, _).
     case r of
       Inl _ \<Rightarrow> Some (Inl Unwrap_panic)
     | Inr _ \<Rightarrow> run_at run 1 (w\<lparr>io_links := m\<rparr>))"

subsection \<open>The server on \<open>ArgExecutor\<close>\<close>

text \<open>The function that makes the future of a task: \<open>dest.write(server_task(.., invoke))\<close>.\<close>

definition server_spawn_fn :: "async_invoke \<Rightarrow> 't \<Rightarrow> 'w \<Rightarrow> (server_future \<times> 't \<times> 'w) res" where
  "server_spawn_fn invoke t w = Inr (Srv_start invoke, t, w)"

definition listen_spawn ::
  "('n, arg_task node) slab_ops \<Rightarrow>
     (('n, server_future) arg_tasks,
      ('r, 'v, 'p, 's, ('n, server_future) arg_tasks spawn_memory) io_world) conn_spawn" where
  "listen_spawn S stream = spawn_running (arg_spawn S server_spawn_fn) 1 0 (Invoke_connection stream)"

definition run_arg ::
  "nat \<Rightarrow> ('n, arg_task node) slab_ops \<Rightarrow> ('r, 'v, 'p) reactor_lib \<Rightarrow> 'w libc \<Rightarrow> bool \<Rightarrow> nat \<Rightarrow> 'w \<Rightarrow>
     (stats_metrics \<times> 'w) run" where
  "run_arg N S E L =
     (let inc = stats_inc L; vt = arg_vtable S in
      run_server E L
        (linked_setup (arg_tasks_new S (CONNS_MAX + 1)))
        (linked_closure (arg_spawn S server_spawn_fn) Invoke_listen
           (arg_run S (server_poll N E inc vt (listen_spawn S)) (server_drop E inc vt)
              (reactor_poll E inc vt)))
        io_stats
        (linked_teardown E vt (arg_tasks_new S 0)))"

definition run_nonbox ::
  "('n, arg_task node) slab_ops \<Rightarrow> ('r, 'v, 'p) reactor_lib \<Rightarrow> 'w libc \<Rightarrow> bool \<Rightarrow> nat \<Rightarrow> 'w \<Rightarrow>
     (stats_metrics \<times> 'w) run" where
  "run_nonbox = run_arg SMALL_BUFSIZE"

text \<open>The future of a task may be boxed by the caller: it is polled through the box.\<close>

definition run_callerbox ::
  "('n, arg_task node) slab_ops \<Rightarrow> ('r, 'v, 'p) reactor_lib \<Rightarrow> 'w libc \<Rightarrow> bool \<Rightarrow> nat \<Rightarrow> 'w \<Rightarrow>
     (stats_metrics \<times> 'w) run" where
  "run_callerbox = run_arg SMALL_BUFSIZE"

definition run_large_nonbox ::
  "('n, arg_task node) slab_ops \<Rightarrow> ('r, 'v, 'p) reactor_lib \<Rightarrow> 'w libc \<Rightarrow> bool \<Rightarrow> nat \<Rightarrow> 'w \<Rightarrow>
     (stats_metrics \<times> 'w) run" where
  "run_large_nonbox = run_arg LARGE_BUFSIZE"

subsection \<open>The server on \<open>BoxExecutor\<close>\<close>

definition listen_box_spawn ::
  "('n, server_future bx_task node) slab_ops \<Rightarrow>
     ('n bx_tasks, ('r, 'v, 'p, 's, 'n bx_tasks spawn_memory) io_world) conn_spawn" where
  "listen_box_spawn S stream = spawn_running (bx_spawn S) 1 0 (Srv_start (Invoke_connection stream))"

type_synonym ('t, 'w) listen_fn =
  "listen_future \<Rightarrow> nat \<Rightarrow> 't \<Rightarrow> 'w \<Rightarrow> ((io_error + unit) option \<times> listen_future \<times> 't \<times> 'w) res"

definition listen_box_poll ::
  "('n, server_future bx_task node) slab_ops \<Rightarrow> ('r, 'v, 'p) reactor_lib \<Rightarrow>
     (stats_type \<Rightarrow> 's \<Rightarrow> 's res) \<Rightarrow> (nat, 'n bx_tasks) raw_vtable \<Rightarrow>
     ('n bx_tasks, ('r, 'v, 'p, 's, 'n bx_tasks spawn_memory) io_world) listen_fn" where
  "listen_box_poll S E inc vt = listen_poll E inc vt (listen_box_spawn S)"

text \<open>The caller boxes the block and calls \<open>spawn_boxed\<close>, which is all that \<open>spawn\<close> does.\<close>

definition listen_box_callerbox_poll ::
  "('n, server_future bx_task node) slab_ops \<Rightarrow> ('r, 'v, 'p) reactor_lib \<Rightarrow>
     (stats_type \<Rightarrow> 's \<Rightarrow> 's res) \<Rightarrow> (nat, 'n bx_tasks) raw_vtable \<Rightarrow>
     ('n bx_tasks, ('r, 'v, 'p, 's, 'n bx_tasks spawn_memory) io_world) listen_fn" where
  "listen_box_callerbox_poll S E inc vt = listen_poll E inc vt (listen_box_spawn S)"

definition run_bx ::
  "nat \<Rightarrow> ((stats_type \<Rightarrow> stats_data \<times> 'w \<Rightarrow> (stats_data \<times> 'w) res) \<Rightarrow> (nat, 'n bx_tasks) raw_vtable \<Rightarrow>
     ('n bx_tasks, ('r, 'v, 'p, stats_data \<times> 'w, 'n bx_tasks spawn_memory) io_world) listen_fn) \<Rightarrow>
     ('n, server_future bx_task node) slab_ops \<Rightarrow> ('r, 'v, 'p) reactor_lib \<Rightarrow> 'w libc \<Rightarrow> bool \<Rightarrow>
     nat \<Rightarrow> 'w \<Rightarrow> (stats_metrics \<times> 'w) run" where
  "run_bx N listen S E L =
     (let inc = stats_inc L; vt = bx_vtable S in
      run_server E L
        (linked_setup (bx_tasks_new S (CONNS_MAX + 1)))
        (linked_closure (bx_spawn S) (Srv_start Invoke_listen)
           (bx_run S (block_poll (listen inc vt) (connection_box_poll N E inc vt)) (server_drop E inc vt)
              (reactor_poll E inc vt)))
        io_stats
        (linked_teardown E vt (bx_tasks_new S 0)))"

definition run_box ::
  "('n, server_future bx_task node) slab_ops \<Rightarrow> ('r, 'v, 'p) reactor_lib \<Rightarrow> 'w libc \<Rightarrow> bool \<Rightarrow>
     nat \<Rightarrow> 'w \<Rightarrow> (stats_metrics \<times> 'w) run" where
  "run_box S E = run_bx SMALL_BUFSIZE (listen_box_poll S E) S E"

definition run_box_callerbox ::
  "('n, server_future bx_task node) slab_ops \<Rightarrow> ('r, 'v, 'p) reactor_lib \<Rightarrow> 'w libc \<Rightarrow> bool \<Rightarrow>
     nat \<Rightarrow> 'w \<Rightarrow> (stats_metrics \<times> 'w) run" where
  "run_box_callerbox S E = run_bx SMALL_BUFSIZE (listen_box_callerbox_poll S E) S E"

definition run_large_box ::
  "('n, server_future bx_task node) slab_ops \<Rightarrow> ('r, 'v, 'p) reactor_lib \<Rightarrow> 'w libc \<Rightarrow> bool \<Rightarrow>
     nat \<Rightarrow> 'w \<Rightarrow> (stats_metrics \<times> 'w) run" where
  "run_large_box S E = run_bx LARGE_BUFSIZE (listen_box_poll S E) S E"

subsection \<open>The server on \<open>BoxRcExecutor\<close>\<close>

definition listen_rc_spawn ::
  "('n, server_future rcx_task node) slab_ops \<Rightarrow>
     ('n rcx_world, ('r, 'v, 'p, 's, unit) io_world) conn_spawn" where
  "listen_rc_spawn S stream x w =
     and_then (rcx_spawn S (Srv_start (Invoke_connection stream)) x) (\<lambda>(r, x). Inr (r, x, w))"

definition listen_rc_poll ::
  "('n, server_future rcx_task node) slab_ops \<Rightarrow> ('r, 'v, 'p) reactor_lib \<Rightarrow>
     (stats_type \<Rightarrow> 's \<Rightarrow> 's res) \<Rightarrow> (nat, 'n rcx_world) raw_vtable \<Rightarrow>
     ('n rcx_world, ('r, 'v, 'p, 's, unit) io_world) listen_fn" where
  "listen_rc_poll S E inc vt = listen_poll E inc vt (listen_rc_spawn S)"

definition box_rc_closure ::
  "waker_factory \<Rightarrow> ('n, server_future rcx_task node) slab_ops \<Rightarrow> ('r, 'v, 'p) reactor_lib \<Rightarrow>
     (stats_type \<Rightarrow> 's \<Rightarrow> 's res) \<Rightarrow> nat \<Rightarrow> 'n rcx_world \<times> ('r, 'v, 'p, 's, unit) io_world \<Rightarrow>
     ('n rcx_world \<times> ('r, 'v, 'p, 's, unit) io_world) run" where
  "box_rc_closure F S E inc current = (\<lambda>(x, w).
     let vt = rcx_vtable F S current in
     run_then (Some (rcx_spawn S (Srv_start Invoke_listen) x)) (\<lambda>(r, x).
     case r of
       Inl _ \<Rightarrow> Some (Inl Unwrap_panic)
     | Inr _ \<Rightarrow>
         rcx_run S (block_poll (listen_rc_poll S E inc vt) (connection_box_poll SMALL_BUFSIZE E inc vt))
           (server_drop E inc vt) (reactor_poll E inc vt) x w))"

definition box_rc_teardown ::
  "waker_factory \<Rightarrow> ('n, server_future rcx_task node) slab_ops \<Rightarrow> ('r, 'v, 'p) reactor_lib \<Rightarrow>
     (stats_type \<Rightarrow> 's \<Rightarrow> 's res) \<Rightarrow> nat \<Rightarrow> 'n rcx_world \<times> ('r, 'v, 'p, 's, unit) io_world \<Rightarrow>
     ('n rcx_world \<times> ('r, 'v, 'p, 's, unit) io_world) res" where
  "box_rc_teardown F S E inc current = (\<lambda>(x, w).
     let vt = rcx_vtable F S current in
     and_then (rcx_executor_drop F S current (server_drop E inc vt) x w) (\<lambda>(x, w).
     and_then (reactor_drop E vt x (io_reactor w)) (\<lambda>x.
     Inr (x, w))))"

text \<open>The mode chooses the factory; the allocator places the boxes of the wakers at \<open>addr\<close>.\<close>

datatype box_rc_mode = Mode_RcWaker | Mode_CheckedRcWaker | Mode_ArcWaker

fun mode_factory :: "box_rc_mode \<Rightarrow> waker_factory" where
  "mode_factory Mode_RcWaker = Rc_waker_factory"
| "mode_factory Mode_CheckedRcWaker = Checked_rc_waker_factory"
| "mode_factory Mode_ArcWaker = Arc_waker_factory"

definition run_box_rc ::
  "(nat \<Rightarrow> nat) \<Rightarrow> nat \<Rightarrow> ('n, server_future rcx_task node) slab_ops \<Rightarrow> ('r, 'v, 'p) reactor_lib \<Rightarrow>
     'w libc \<Rightarrow> box_rc_mode \<Rightarrow> bool \<Rightarrow> nat \<Rightarrow> 'w \<Rightarrow> (stats_metrics \<times> 'w) run" where
  "run_box_rc addr current S E L mode =
     (let inc = stats_inc L; F = mode_factory mode in
      run_server E L
        (\<lambda>reactor st. Inr (rcx_new S addr current (CONNS_MAX + 1),
           \<lparr>io_reactor = reactor, io_stats = st, io_links = ()\<rparr>))
        (box_rc_closure F S E inc current)
        (\<lambda>(x, w). io_stats w)
        (box_rc_teardown F S E inc current))"

subsection \<open>Running the closure any number of times\<close>

text \<open>
  If the closure keeps \<open>clean\<close> and makes the calls of 256 connections, the function returns with
  as many times these calls.
\<close>

lemma closure_times:
  assumes step: "\<And>z. clean z \<Longrightarrow> \<exists>z'. closure z = Some (Inr z') \<and> clean z' \<and>
      run_stats.advanced L good (stats z) (tally 257 257 258 512 512 512) (stats z')"
    and "clean z" and "stats_ready L good (stats z)"
  shows "\<exists>z'. call_times n closure z = Some (Inr z') \<and> clean z' \<and> run_stats.advanced L good (stats z)
    (tally (n * 257) (n * 257) (n * 258) (n * 512) (n * 512) (n * 512)) (stats z')"
  using assms(2,3)
proof (induction n arbitrary: z)
  case 0
  then show ?case using run_stats.advanced_refl by simp
next
  case (Suc n)
  from step [OF Suc.prems(1)] obtain z1 where one: "closure z = Some (Inr z1)" "clean z1"
    and a1: "run_stats.advanced L good (stats z) (tally 257 257 258 512 512 512) (stats z1)" by blast
  from Suc.IH [OF one(2) run_stats.advanced_ready [OF a1]] obtain z2
    where "call_times n closure z1 = Some (Inr z2)" "clean z2"
      and a2: "run_stats.advanced L good (stats z1)
        (tally (n * 257) (n * 257) (n * 258) (n * 512) (n * 512) (n * 512)) (stats z2)" by blast
  with one run_stats.advanced_trans [OF a1 a2] show ?case by auto
qed

lemma run_server_expected:
  assumes L: "syscalls \<Longrightarrow> libc_ok L good"
    and made: "\<And>st. stats_ready L good st \<Longrightarrow>
      \<exists>z. setup (reactor_new E (CONNS_MAX + 1)) st = Inr z \<and> clean z \<and> stats z = st"
    and step: "\<And>z. clean z \<Longrightarrow> \<exists>z'. closure z = Some (Inr z') \<and> clean z' \<and>
      run_stats.advanced L good (stats z) (tally 257 257 258 512 512 512) (stats z')"
    and teardown: "\<And>z. clean z \<Longrightarrow> \<exists>z'. teardown z = Inr z' \<and> stats z' = stats z"
  shows "run_server E L setup closure stats teardown syscalls n w = expected_run L syscalls n w"
proof (cases "stats_data_new L syscalls w")
  case (Inl e)
  then show ?thesis by (simp add: run_server_def expected_run_def)
next
  case (Inr st)
  obtain d1 w1 where new: "stats_data_new L syscalls w = Inr (d1, w1)" using Inr by (cases st) simp
  from stats_new_ready [OF new L] have r: "stats_ready L good (d1, w1)" by blast
  from made [OF r] obtain z1 where z1: "setup (reactor_new E (CONNS_MAX + 1)) (d1, w1) = Inr z1"
    "clean z1" "stats z1 = (d1, w1)" by blast
  have "stats_ready L good (stats z1)" using r z1(3) by simp
  from closure_times [of clean closure L good stats, OF step z1(2) this, of n] obtain z2
    where z2: "call_times n closure z1 = Some (Inr z2)" "clean z2"
      "run_stats.advanced L good (stats z1)
        (tally (n * 257) (n * 257) (n * 258) (n * 512) (n * 512) (n * 512)) (stats z2)" by blast
  obtain d2 w2 where dw: "stats z2 = (d2, w2)" by (cases "stats z2")
  from teardown [OF z2(2)] obtain z3 where z3: "teardown z2 = Inr z3" "stats z3 = (d2, w2)"
    using dw by auto
  show ?thesis
    using z1(1) z2(1) z3 dw expected_run_ends [OF new L z2(3) [unfolded z1(3) dw]]
    by (simp add: run_server_def new Let_def)
qed

subsection \<open>The executors with a spawner\<close>

definition linked :: "'t spawn_memory \<Rightarrow> bool" where
  "linked m \<longleftrightarrow> sm_spawners m 0 = Some (Some 1) \<and> (\<exists>t. sm_executors m 1 = Some \<lparr>ex_tasks = t, ex_spawner = Some 0\<rparr>)"

lemma spawn_running_ok:
  assumes "linked (io_links w)" and "spawn arg t () = Inr (r, t', ())"
  shows "\<exists>m'. spawn_running spawn 1 0 arg t w = Inr (r, t', w\<lparr>io_links := m'\<rparr>) \<and> linked m'"
  using assms by (auto simp: linked_def spawn_running_def spawner_spawn_def spawn_by_ctx_def Let_def)

text \<open>Between two calls of the closure no task is stored and nothing is registered.\<close>

definition linked_clean ::
  "('r, 'v, 'p) reactor_lib \<Rightarrow> 'w libc \<Rightarrow> (int \<times> int \<Rightarrow> 'w \<Rightarrow> bool) \<Rightarrow> ('t \<Rightarrow> bool) \<Rightarrow>
     ('r, 'v, 'p, stats_data \<times> 'w, 't spawn_memory) io_world \<Rightarrow> bool" where
  "linked_clean E L good idle w \<longleftrightarrow>
     io_rep E 257 w Map.empty Map.empty \<and> stats_ready L good (io_stats w) \<and> linked (io_links w) \<and>
     (\<forall>ex. sm_executors (io_links w) 1 = Some ex \<longrightarrow> idle (ex_tasks ex))"

lemma linked_setup_ok:
  assumes "lib_ok E" and "stats_ready L good st" and "idle tasks"
  shows "\<exists>w. linked_setup tasks (reactor_new E (CONNS_MAX + 1)) st = Inr w \<and>
    linked_clean E L good idle w \<and> io_stats w = st"
  using reactor_new_rep [OF assms(1), of 257 st] assms(2,3)
  by (auto simp: linked_setup_def linked_clean_def linked_def spawner_new_def executor_new_def
      set_spawner_def CONNS_MAX_def Let_def)

lemma linked_teardown_ok:
  assumes "linked_clean E L good idle w"
  shows "\<exists>w'. linked_teardown E vt freed w = Inr w' \<and> io_stats w' = io_stats w"
proof -
  have "reactor_drop E vt freed (io_reactor w) = Inr freed"
    using assms by (auto simp: linked_clean_def intro: reactor_drop_clean)
  with assms show ?thesis
    by (auto simp: linked_clean_def linked_def linked_teardown_def executor_drop_def Let_def)
qed

lemma linked_closure_ok:
  assumes clean: "linked_clean E L good idle w"
    and spawn: "\<And>t. idle t \<Longrightarrow> \<exists>t'. spawn arg t () = Inr (Inr (), t', ()) \<and> busy t'"
    and run: "\<And>t w. busy t \<Longrightarrow> io_rep E 257 w Map.empty Map.empty \<Longrightarrow> stats_ready L good (io_stats w) \<Longrightarrow>
      linked (io_links w) \<Longrightarrow> \<exists>t' w'. run t w = Some (Inr (t', w')) \<and> idle t' \<and>
        io_rep E 257 w' Map.empty Map.empty \<and> linked (io_links w') \<and>
        run_stats.advanced L good (io_stats w) (tally 257 257 258 512 512 512) (io_stats w')"
  shows "\<exists>w'. linked_closure spawn arg run w = Some (Inr w') \<and> linked_clean E L good idle w' \<and>
    run_stats.advanced L good (io_stats w) (tally 257 257 258 512 512 512) (io_stats w')"
proof -
  obtain t where t: "sm_executors (io_links w) 1 = Some \<lparr>ex_tasks = t, ex_spawner = Some 0\<rparr>" "idle t"
    "sm_spawners (io_links w) 0 = Some (Some 1)"
    using clean by (auto simp: linked_clean_def linked_def)
  from spawn [OF t(2)] obtain t1 where t1: "spawn arg t () = Inr (Inr (), t1, ())" "busy t1" by blast
  let ?put = "\<lambda>m t. m\<lparr>sm_executors := (sm_executors m)(1 \<mapsto> \<lparr>ex_tasks = t, ex_spawner = Some 0\<rparr>)\<rparr>"
  let ?w1 = "w\<lparr>io_links := ?put (io_links w) t1\<rparr>"
  have sp: "spawner_spawn spawn 0 arg (io_links w) () = Inr (Inr (), ?put (io_links w) t1, ())"
    using t(1,3) t1(1) by (simp add: spawner_spawn_def spawn_by_ctx_def)
  have "io_rep E 257 ?w1 Map.empty Map.empty" "stats_ready L good (io_stats ?w1)" "linked (io_links ?w1)"
    using clean t(3) by (auto simp: linked_clean_def linked_def intro: io_rep_links)
  from run [OF t1(2) this] obtain t2 w2 where r: "run t1 ?w1 = Some (Inr (t2, w2))" "idle t2"
    "io_rep E 257 w2 Map.empty Map.empty" "linked (io_links w2)"
    "run_stats.advanced L good (io_stats w) (tally 257 257 258 512 512 512) (io_stats w2)" by auto
  from r(4) obtain t' where t': "sm_executors (io_links w2) 1 = Some \<lparr>ex_tasks = t', ex_spawner = Some 0\<rparr>"
    "sm_spawners (io_links w2) 0 = Some (Some 1)" by (auto simp: linked_def)
  have "linked_closure spawn arg run w = Some (Inr (w2\<lparr>io_links := ?put (io_links w2) t2\<rparr>))"
    using sp r(1) t'(1) by (simp add: linked_closure_def run_at_def)
  moreover have "linked_clean E L good idle (w2\<lparr>io_links := ?put (io_links w2) t2\<rparr>)"
    using r(2,3) t'(2) run_stats.advanced_ready [OF r(5)]
    by (auto simp: linked_clean_def linked_def intro: io_rep_links)
  ultimately show ?thesis using r(5) by auto
qed

subsection \<open>The three servers\<close>

lemma listen_spawn_room:
  assumes rep: "arg_rep S cap t m xs" and l: "linked (io_links w)" and room: "card (dom m) < cap"
  shows "\<exists>k t' l'. listen_spawn S s t w = Inr (Inr (), t', w\<lparr>io_links := l'\<rparr>) \<and> linked l' \<and> m k = None \<and>
    arg_rep S cap t' (m(k \<mapsto> (Srv_start (Invoke_connection s), 1))) (xs @ [k])"
proof -
  let ?f = "Srv_start (Invoke_connection s)"
  from arg_give_ok [OF rep room, of ?f] obtain k t' where g: "arg_give S ?f t = Inr (Inr (), t')" "m k = None"
    "arg_rep S cap t' (m(k \<mapsto> (?f, 1))) (xs @ [k])" by blast
  then have "arg_spawn S server_spawn_fn (Invoke_connection s) t () = Inr (Inr (), t', ())"
    by (auto simp: arg_give_def arg_spawn_def server_spawn_fn_def [abs_def] res_iff)
  from spawn_running_ok [OF l, of "arg_spawn S server_spawn_fn", OF this] g(2,3) show ?thesis
    by (auto simp: listen_spawn_def simp del: fun_upd_apply)
qed

lemma listen_box_spawn_room:
  assumes rep: "bx_rep S cap t m xs" and l: "linked (io_links w)" and room: "card (dom m) < cap"
  shows "\<exists>k t' l'. listen_box_spawn S s t w = Inr (Inr (), t', w\<lparr>io_links := l'\<rparr>) \<and> linked l' \<and> m k = None \<and>
    bx_rep S cap t' (m(k \<mapsto> (Srv_start (Invoke_connection s), 1))) (xs @ [k])"
proof -
  let ?f = "Srv_start (Invoke_connection s)"
  from bx_exec.spawn_room [OF rep room, of ?f] obtain k t' where g: "bx_add S ?f t = Inr (Inr (), t')" "m k = None"
    "bx_rep S cap t' (m(k \<mapsto> (?f, 1))) (xs @ [k])" by blast
  then have "bx_spawn S ?f t () = Inr (Inr (), t', ())" by (simp add: bx_spawn_def)
  from spawn_running_ok [OF l, of "bx_spawn S", OF this] g(2,3) show ?thesis
    by (auto simp: listen_box_spawn_def simp del: fun_upd_apply)
qed

lemma listen_rc_spawn_room:
  assumes rep: "rcx_rep S cap addr current t m xs" and room: "card (dom m) < cap"
  shows "\<exists>k t' l'. listen_rc_spawn S s t w = Inr (Inr (), t', w\<lparr>io_links := l'\<rparr>) \<and> True \<and> m k = None \<and>
    rcx_rep S cap addr current t' (m(k \<mapsto> (Srv_start (Invoke_connection s), 1))) (xs @ [k])"
proof -
  let ?f = "Srv_start (Invoke_connection s)"
  from rcx_exec.spawn_room [OF rep room, of ?f] obtain k t' where "rcx_spawn S ?f t = Inr (Inr (), t')" "m k = None"
    "rcx_rep S cap addr current t' (m(k \<mapsto> (?f, 1))) (xs @ [k])" by blast
  then show ?thesis
    by (intro exI [of _ k] exI [of _ t'] exI [of _ "()"]) (simp add: listen_rc_spawn_def)
qed

interpretation arg_server: async_server "arg_vtable S" "\<lambda>k. k" cap "arg_rep S cap" "arg_begin S"
  arg_poll "arg_complete S" "arg_is_empty S" "arg_give S" "stats_inc L" "stats_ready L good" stats_count
  "listen_spawn S" linked for S cap L good
  by unfold_locales (rule listen_spawn_room)

interpretation bx_server: async_server "bx_vtable S" "\<lambda>k. k" cap "bx_rep S cap" "bx_begin S"
  "bx_poll S" "bx_complete S" "bx_is_empty S" "bx_add S" "stats_inc L" "stats_ready L good" stats_count
  "listen_box_spawn S" linked for S cap L good
  by unfold_locales (rule listen_box_spawn_room)

interpretation rcx_server: async_server "rcx_vtable F S current" addr cap "rcx_rep S cap addr current"
  "rcx_begin S" "rcx_poll S" "rcx_complete S" "rcx_is_empty S" "rcx_spawn S" "stats_inc L" "stats_ready L good"
  stats_count "listen_rc_spawn S" "\<lambda>_. True" for F S cap addr current L good
  by unfold_locales (rule listen_rc_spawn_room)

lemma block_polls:
  "block_poll (listen_box_poll S E inc vt) (connection_box_poll N E inc vt) =
    server_poll N E inc vt (listen_box_spawn S)"
  "block_poll (listen_box_callerbox_poll S E inc vt) (connection_box_poll N E inc vt) =
    server_poll N E inc vt (listen_box_spawn S)"
  "block_poll (listen_rc_poll T E inc wt) (connection_box_poll N E inc wt) =
    server_poll N E inc wt (listen_rc_spawn T)"
  by (simp_all add: listen_box_poll_def listen_box_callerbox_poll_def listen_rc_poll_def
      connection_box_poll_def block_poll_server)

lemma bufsizes: "12 \<le> SMALL_BUFSIZE" "12 \<le> LARGE_BUFSIZE"
  by (simp_all add: SMALL_BUFSIZE_def LARGE_BUFSIZE_def)

text \<open>An executor without tasks, and one that has only the listener to start.\<close>

definition arg_idle :: "('n, arg_task node) slab_ops \<Rightarrow> ('n, server_future) arg_tasks \<Rightarrow> bool" where
  "arg_idle S t \<longleftrightarrow> arg_rep S 257 t Map.empty []"

definition arg_busy :: "('n, arg_task node) slab_ops \<Rightarrow> ('n, server_future) arg_tasks \<Rightarrow> bool" where
  "arg_busy S t \<longleftrightarrow> (\<exists>k. arg_rep S 257 t [k \<mapsto> (Srv_start Invoke_listen, 1)] [k])"

definition bx_idle :: "('n, server_future bx_task node) slab_ops \<Rightarrow> 'n bx_tasks \<Rightarrow> bool" where
  "bx_idle S t \<longleftrightarrow> bx_rep S 257 t Map.empty []"

definition bx_busy :: "('n, server_future bx_task node) slab_ops \<Rightarrow> 'n bx_tasks \<Rightarrow> bool" where
  "bx_busy S t \<longleftrightarrow> (\<exists>k. bx_rep S 257 t [k \<mapsto> (Srv_start Invoke_listen, 1)] [k])"

lemma arg_idle_new: "slab_ok S \<Longrightarrow> arg_idle S (arg_tasks_new S 257)"
  by (simp add: arg_idle_def arg_rep_new)

lemma bx_idle_new: "slab_ok S \<Longrightarrow> bx_idle S (bx_tasks_new S 257)"
  by (simp add: bx_idle_def bx_rep_new)

lemma arg_spawn_busy:
  assumes "arg_idle S t"
  shows "\<exists>t'. arg_spawn S server_spawn_fn Invoke_listen t () = Inr (Inr (), t', ()) \<and> arg_busy S t'"
proof -
  from arg_give_ok [OF assms [unfolded arg_idle_def], of "Srv_start Invoke_listen"] obtain k t'
    where "arg_give S (Srv_start Invoke_listen) t = Inr (Inr (), t')"
      "arg_rep S 257 t' [k \<mapsto> (Srv_start Invoke_listen, 1)] [k]" by auto
  then show ?thesis
    by (auto simp: arg_give_def arg_spawn_def arg_busy_def server_spawn_fn_def [abs_def] res_iff)
qed

lemma bx_spawn_busy:
  assumes "bx_idle S t"
  shows "\<exists>t'. bx_spawn S (Srv_start Invoke_listen) t () = Inr (Inr (), t', ()) \<and> bx_busy S t'"
proof -
  from bx_exec.spawn_room [OF assms [unfolded bx_idle_def], of "Srv_start Invoke_listen"] obtain k t'
    where "bx_add S (Srv_start Invoke_listen) t = Inr (Inr (), t')"
      "bx_rep S 257 t' [k \<mapsto> (Srv_start Invoke_listen, 1)] [k]" by auto
  then show ?thesis by (auto simp: bx_spawn_def bx_busy_def)
qed

lemma arg_serves:
  assumes "arg_busy S t" and "io_rep E 257 w Map.empty Map.empty" and "stats_ready L good (io_stats w)"
    and "linked (io_links w)" and "12 \<le> N"
  shows "\<exists>t' w'. arg_run S (server_poll N E (stats_inc L) (arg_vtable S) (listen_spawn S))
      (server_drop E (stats_inc L) (arg_vtable S)) (reactor_poll E (stats_inc L) (arg_vtable S)) t w =
      Some (Inr (t', w')) \<and> arg_idle S t' \<and> io_rep E 257 w' Map.empty Map.empty \<and> linked (io_links w') \<and>
    run_stats.advanced L good (io_stats w) (tally 257 257 258 512 512 512) (io_stats w')"
  using arg_server.server_serves [OF assms(2-4) _ assms(5) refl] assms(1)
  unfolding arg_run_def arg_process_next_def arg_idle_def arg_busy_def by blast

lemma bx_serves:
  assumes "bx_busy S t" and "io_rep E 257 w Map.empty Map.empty" and "stats_ready L good (io_stats w)"
    and "linked (io_links w)" and "12 \<le> N"
  shows "\<exists>t' w'. bx_run S (server_poll N E (stats_inc L) (bx_vtable S) (listen_box_spawn S))
      (server_drop E (stats_inc L) (bx_vtable S)) (reactor_poll E (stats_inc L) (bx_vtable S)) t w =
      Some (Inr (t', w')) \<and> bx_idle S t' \<and> io_rep E 257 w' Map.empty Map.empty \<and> linked (io_links w') \<and>
    run_stats.advanced L good (io_stats w) (tally 257 257 258 512 512 512) (io_stats w')"
  using bx_server.server_serves [OF assms(2-4) _ assms(5) refl] assms(1)
  unfolding bx_run_def bx_process_next_def bx_idle_def bx_busy_def by blast

lemma linked_server_expected:
  assumes E: "lib_ok E" and L: "syscalls \<Longrightarrow> libc_ok L good" and new: "idle tasks"
    and spawn: "\<And>t. idle t \<Longrightarrow> \<exists>t'. spawn arg t () = Inr (Inr (), t', ()) \<and> busy t'"
    and run: "\<And>t w. busy t \<Longrightarrow> io_rep E 257 w Map.empty Map.empty \<Longrightarrow> stats_ready L good (io_stats w) \<Longrightarrow>
      linked (io_links w) \<Longrightarrow> \<exists>t' w'. run t w = Some (Inr (t', w')) \<and> idle t' \<and>
        io_rep E 257 w' Map.empty Map.empty \<and> linked (io_links w') \<and>
        run_stats.advanced L good (io_stats w) (tally 257 257 258 512 512 512) (io_stats w')"
  shows "run_server E L (linked_setup tasks) (linked_closure spawn arg run) io_stats
    (linked_teardown E vt freed) syscalls n w = expected_run L syscalls n w"
proof (rule run_server_expected [where clean = "linked_clean E L good idle", OF L])
  show "\<exists>z'. linked_closure spawn arg run z = Some (Inr z') \<and> linked_clean E L good idle z' \<and>
      run_stats.advanced L good (io_stats z) (tally 257 257 258 512 512 512) (io_stats z')"
    if "linked_clean E L good idle z" for z
    using linked_closure_ok [where idle = idle and busy = busy and spawn = spawn and arg = arg and run = run,
        OF that] spawn run by blast
  show "\<exists>z. linked_setup tasks (reactor_new E (CONNS_MAX + 1)) st = Inr z \<and>
      linked_clean E L good idle z \<and> io_stats z = st" if "stats_ready L good st" for st
    using linked_setup_ok [where idle = idle and tasks = tasks, OF E that] new by blast
  show "\<exists>z'. linked_teardown E vt freed z = Inr z' \<and> io_stats z' = io_stats z"
    if "linked_clean E L good idle z" for z
    by (rule linked_teardown_ok [OF that])
qed

lemma run_arg_expected:
  assumes "slab_ok S" and "lib_ok E" and "12 \<le> N" and "syscalls \<Longrightarrow> libc_ok L good"
  shows "run_arg N S E L syscalls n w = expected_run L syscalls n w"
  unfolding run_arg_def Let_def
  by (rule linked_server_expected [where idle = "arg_idle S" and busy = "arg_busy S", OF assms(2,4)])
    (use arg_idle_new [OF assms(1)] arg_spawn_busy [of S] arg_serves [OF _ _ _ _ assms(3), of S] in
      \<open>simp_all add: CONNS_MAX_def\<close>)

lemma run_bx_expected:
  assumes "slab_ok S" and "lib_ok E" and "12 \<le> N" and "syscalls \<Longrightarrow> libc_ok L good"
    and "listen = listen_box_poll S E \<or> listen = listen_box_callerbox_poll S E"
  shows "run_bx N listen S E L syscalls n w = expected_run L syscalls n w"
proof -
  have block: "block_poll (listen inc vt) (connection_box_poll N E inc vt) =
    server_poll N E inc vt (listen_box_spawn S)" for inc vt using assms(5) block_polls by auto
  show ?thesis unfolding run_bx_def Let_def block
    by (rule linked_server_expected [where idle = "bx_idle S" and busy = "bx_busy S", OF assms(2,4)])
      (use bx_idle_new [OF assms(1)] bx_spawn_busy [of S] bx_serves [OF _ _ _ _ assms(3), of S] in
        \<open>simp_all add: CONNS_MAX_def\<close>)
qed

subsection \<open>The executor with counted wakers\<close>

definition rc_clean ::
  "('r, 'v, 'p) reactor_lib \<Rightarrow> 'w libc \<Rightarrow> (int \<times> int \<Rightarrow> 'w \<Rightarrow> bool) \<Rightarrow>
     ('n, server_future rcx_task node) slab_ops \<Rightarrow> (nat \<Rightarrow> nat) \<Rightarrow> nat \<Rightarrow>
     'n rcx_world \<times> ('r, 'v, 'p, stats_data \<times> 'w, unit) io_world \<Rightarrow> bool" where
  "rc_clean E L good S addr current = (\<lambda>(x, w).
     io_rep E 257 w Map.empty Map.empty \<and> stats_ready L good (io_stats w) \<and>
     rcx_rep S 257 addr current x Map.empty [])"

lemma box_rc_closure_ok:
  assumes "rc_clean E L good S addr current z"
  shows "\<exists>z'. box_rc_closure F S E (stats_inc L) current z = Some (Inr z') \<and> rc_clean E L good S addr current z' \<and>
    run_stats.advanced L good (io_stats (snd z)) (tally 257 257 258 512 512 512) (io_stats (snd z'))"
proof -
  obtain x w where z: "z = (x, w)" by (cases z)
  with assms have w: "io_rep E 257 w Map.empty Map.empty" "stats_ready L good (io_stats w)"
    and x: "rcx_rep S 257 addr current x Map.empty []" by (simp_all add: rc_clean_def)
  from rcx_exec.spawn_room [OF x, of "Srv_start Invoke_listen"] obtain k x1
    where sp: "rcx_spawn S (Srv_start Invoke_listen) x = Inr (Inr (), x1)"
      "rcx_rep S 257 addr current x1 [k \<mapsto> (Srv_start Invoke_listen, 1)] [k]" by auto
  from rcx_server.server_serves [OF w _ sp(2) bufsizes(1) refl, of F] obtain x2 w2
    where "rcx_run S (server_poll SMALL_BUFSIZE E (stats_inc L) (rcx_vtable F S current) (listen_rc_spawn S))
        (server_drop E (stats_inc L) (rcx_vtable F S current))
        (reactor_poll E (stats_inc L) (rcx_vtable F S current)) x1 w = Some (Inr (x2, w2))"
      "rcx_rep S 257 addr current x2 Map.empty []"
      and io: "io_rep E 257 w2 Map.empty Map.empty"
      and adv: "run_stats.advanced L good (io_stats w) (tally 257 257 258 512 512 512) (io_stats w2)"
    unfolding rcx_run_def rcx_process_next_def by blast
  with z sp(1) io adv run_stats.advanced_ready [OF adv] show ?thesis
    by (simp add: box_rc_closure_def rc_clean_def block_polls)
qed

lemma box_rc_teardown_ok:
  assumes "rc_clean E L good S addr current z"
  shows "\<exists>z'. box_rc_teardown F S E inc current z = Inr z' \<and> io_stats (snd z') = io_stats (snd z)"
proof -
  obtain x w where z: "z = (x, w)" by (cases z)
  with assms have io: "io_rep E 257 w Map.empty Map.empty"
    and x: "rcx_rep S 257 addr current x Map.empty []" by (simp_all add: rc_clean_def)
  note ok = rcx_repD(1) [OF x]
  have nodes: "slab_iter S (rcx_nodes x) = []"
  proof -
    have "slab_ok S" using rcx_ok_queue [OF ok] by (simp add: queue_ok_def queue_rep_def)
    moreover have "im_get S (rcx_nodes x) i = None" for i
    proof -
      have "i \<notin> dom (value_at S (rcx_nodes x))" using rcx_rep_dom [OF x] by simp
      then show ?thesis by (simp add: domIff value_at_def)
    qed
    ultimately have "map_of (slab_iter S (rcx_nodes x)) = Map.empty"
      using slab_iter_map [of S "rcx_nodes x"] by auto
    then show ?thesis by (simp only: map_of_eq_empty_iff)
  qed
  let ?x = "x\<lparr>rw_strong := rw_strong x - 1\<rparr>" and ?ps = "map addr [0..<257]"
  have ws: "rw_wakers x = ?ps" using ok by (simp add: rcx_ok_def rcx_wakers_ok_def)
  have "\<exists>x'. rcx_executor_drop F S current (server_drop E inc (rcx_vtable F S current)) x w = Inr (x', w)"
  proof (cases "rw_strong ?x = 0")
    case True
    have "distinct ?ps" using rcx_repD(3) [OF x] by (simp add: distinct_map atLeast0LessThan)
    moreover have "\<exists>b. rw_boxes ?x p = Some b \<and> rc_strong b \<noteq> 0 \<and> tw_thread_id (rc_value b) = current"
      if "p \<in> set ?ps" for p
    proof -
      from that obtain k where "k < 257" and "p = addr k" by auto
      then show ?thesis using rcx_ok_box [OF ok, of k] by (auto simp: waker_of_def)
    qed
    ultimately obtain x' where "drop_wakers (rcx_vtable F S current) ?ps ?x = Inr x'"
      using drop_wakers_ok [of ?ps ?x current F S] True by auto
    with True nodes ws show ?thesis by (simp add: rcx_executor_drop_def)
  next
    case False
    then show ?thesis by (simp add: rcx_executor_drop_def)
  qed
  with z show ?thesis by (auto simp: box_rc_teardown_def reactor_drop_clean [OF io])
qed

lemma run_box_rc_expected:
  assumes S: "slab_ok S" and E: "lib_ok E" and addr: "inj_on addr {..<257}"
    and L: "syscalls \<Longrightarrow> libc_ok L good"
  shows "run_box_rc addr current S E L mode syscalls n w = expected_run L syscalls n w"
  unfolding run_box_rc_def Let_def
proof (rule run_server_expected [where clean = "rc_clean E L good S addr current", OF L])
  show "\<exists>z. Inr (rcx_new S addr current (CONNS_MAX + 1),
      \<lparr>io_reactor = reactor_new E (CONNS_MAX + 1), io_stats = st, io_links = ()\<rparr>) = Inr z \<and>
      rc_clean E L good S addr current z \<and> (case z of (x, w) \<Rightarrow> io_stats w) = st"
    if st: "stats_ready L good st" for st
    using rcx_rep_new [OF S addr, of current] reactor_new_rep [OF E, of 257 st "()"] st
    by (simp add: rc_clean_def CONNS_MAX_def)
qed (use box_rc_closure_ok box_rc_teardown_ok in \<open>fastforce simp: case_prod_unfold\<close>)+

end
