(* ===== verification/Server_Properties.thy ===== *)
theory Server_Properties
  imports Async_Servers
begin

section \<open>What the servers and the reactor promise\<close>

text \<open>
  The properties of \<open>run.rs\<close> and \<open>future.rs\<close>, over the definitions of the program and the
  executors they run on: what the run functions return, how the reactor refuses, keeps and
  forgets registrations, that a blocked call leads to a wake, and the shape of the frames of a
  connection. The library of the witnesses are slabs kept in plain vectors.
\<close>

definition vec_lib :: "(event_registration vslab, (nat \<times> u8) vslab, (u8 \<times> nat) vslab) reactor_lib" where
  "vec_lib = \<lparr>lib_regs = vec_slab, lib_events = vec_slab, lib_items = vec_slab, lib_will_wake = (=)\<rparr>"

lemma vec_lib_ok [simp]: "lib_ok vec_lib"
  by (simp add: lib_ok_def vec_lib_def)

subsection \<open>The run functions\<close>

lemmas servers = run_nonbox_def run_callerbox_def run_large_nonbox_def run_box_def
  run_box_callerbox_def run_large_box_def

lemma nonbox_expected:
  assumes "slab_ok S" and "lib_ok E" and "syscalls \<Longrightarrow> libc_ok L good"
    and "run \<in> {run_nonbox S E L, run_callerbox S E L, run_large_nonbox S E L}"
  shows "run syscalls n w = expected_run L syscalls n w"
  using run_arg_expected [OF assms(1,2) bufsizes(1) assms(3)]
    run_arg_expected [OF assms(1,2) bufsizes(2) assms(3)] assms(4)
  by (auto simp: servers)

lemma box_expected:
  assumes "slab_ok S" and "lib_ok E" and "syscalls \<Longrightarrow> libc_ok L good"
    and "run \<in> {run_box S E L, run_box_callerbox S E L, run_large_box S E L}"
  shows "run syscalls n w = expected_run L syscalls n w"
  using run_bx_expected [OF assms(1,2) bufsizes(1) assms(3)]
    run_bx_expected [OF assms(1,2) bufsizes(2) assms(3)] assms(4)
  by (auto simp: servers)

text \<open>
  C3. The servers on the executor without boxes, called with a closure that runs them \<open>n\<close> times,
  return without a panic, with syscalls or without, and count what the tests of the program
  expect, \<open>n\<close> times, with small or large buffers and with the task boxed by the caller or not.
\<close>

theorem nonbox_servers_count:
  assumes "slab_ok S" and "lib_ok E"
    and "syscalls \<Longrightarrow> libc_ok L good" and "syscalls \<Longrightarrow> fst (libc_pipe L w) = 0"
    and "run \<in> {run_nonbox S E L, run_callerbox S E L, run_large_nonbox S E L}"
  shows "\<exists>w'. run syscalls n w = Some (Inr
    (\<lparr>m_register = of_nat (n * 257), m_unregister = of_nat (n * 257), m_poll = of_nat (n * 258),
      m_accept = of_nat (n * 512), m_read = of_nat (n * 512), m_write = of_nat (n * 512)\<rparr>, w'))"
  using expected_run_returns [where n = n, OF assms(3,4)] nonbox_expected [OF assms(1,2,3,5)]
  by (simp add: expected_stats_def)

theorem nonbox_servers_count_witness:
  "\<exists>w'. run_nonbox vec_slab vec_lib empty_pipe True 2 0 = Some (Inr
    (\<lparr>m_register = 514, m_unregister = 514, m_poll = 516, m_accept = 1024, m_read = 1024,
      m_write = 1024\<rparr>, w'))"
  using nonbox_servers_count [OF vec_slab_ok vec_lib_ok, of True empty_pipe "\<lambda>_ _. True" 0
      "run_nonbox vec_slab vec_lib empty_pipe" 2] by simp

text \<open>
  C5. The same of the servers on the executor that boxes the futures, or has them boxed by the
  caller, with small or large buffers.
\<close>

theorem box_servers_count:
  assumes "slab_ok S" and "lib_ok E"
    and "syscalls \<Longrightarrow> libc_ok L good" and "syscalls \<Longrightarrow> fst (libc_pipe L w) = 0"
    and "run \<in> {run_box S E L, run_box_callerbox S E L, run_large_box S E L}"
  shows "\<exists>w'. run syscalls n w = Some (Inr
    (\<lparr>m_register = of_nat (n * 257), m_unregister = of_nat (n * 257), m_poll = of_nat (n * 258),
      m_accept = of_nat (n * 512), m_read = of_nat (n * 512), m_write = of_nat (n * 512)\<rparr>, w'))"
  using expected_run_returns [where n = n, OF assms(3,4)] box_expected [OF assms(1,2,3,5)]
  by (simp add: expected_stats_def)

theorem box_servers_count_witness:
  "\<exists>w'. run_large_box vec_slab vec_lib empty_pipe False 1 0 = Some (Inr
    (\<lparr>m_register = 257, m_unregister = 257, m_poll = 258, m_accept = 512, m_read = 512,
      m_write = 512\<rparr>, w'))"
  using box_servers_count [OF vec_slab_ok vec_lib_ok, of False empty_pipe "\<lambda>_ _. True" 0
      "run_large_box vec_slab vec_lib empty_pipe" 1] by simp

text \<open>
  C6. The same of the server on the executor with counted wakers, in each of its modes, on any
  thread and wherever the allocator places the wakers, as long as no two are at one address.
\<close>

theorem box_rc_server_counts:
  assumes "slab_ok S" and "lib_ok E" and "inj_on addr {..<257}"
    and "syscalls \<Longrightarrow> libc_ok L good" and "syscalls \<Longrightarrow> fst (libc_pipe L w) = 0"
  shows "\<exists>w'. run_box_rc addr current S E L mode syscalls n w = Some (Inr
    (\<lparr>m_register = of_nat (n * 257), m_unregister = of_nat (n * 257), m_poll = of_nat (n * 258),
      m_accept = of_nat (n * 512), m_read = of_nat (n * 512), m_write = of_nat (n * 512)\<rparr>, w'))"
  using expected_run_returns [where n = n, OF assms(4,5)] run_box_rc_expected [OF assms(1-4)]
  by (simp add: expected_stats_def)

theorem box_rc_server_counts_witness:
  "\<exists>w'. run_box_rc (\<lambda>k. 16 * k + 64) 7 vec_slab vec_lib empty_pipe Mode_CheckedRcWaker True 1 0 = Some (Inr
    (\<lparr>m_register = 257, m_unregister = 257, m_poll = 258, m_accept = 512, m_read = 512,
      m_write = 512\<rparr>, w'))"
proof -
  have "inj_on (\<lambda>k. 16 * k + 64 :: nat) {..<257}" by (auto intro: inj_onI)
  from box_rc_server_counts [OF vec_slab_ok vec_lib_ok this, of True empty_pipe "\<lambda>_ _. True" 0 7
      Mode_CheckedRcWaker 1] show ?thesis by simp
qed

text \<open>
  C4. The manually written event loop and each of the seven asynchronous servers are the same to
  their caller and to the operating system: with the same closure, run \<open>n\<close> times, they have the
  same outcome, the same metrics and leave the system in the same state, having made the same
  number of reads from the pipe; and when no pipe can be made all of them panic alike.
\<close>

theorem servers_agree:
  assumes "slab_ok P" and "slab_ok V" and "slab_ok C" and "slab_ok S" and "slab_ok B" and "slab_ok R"
    and "lib_ok E" and "inj_on addr {..<257}" and "syscalls \<Longrightarrow> libc_ok L good"
    and "run \<in> {run_nonbox S E L, run_callerbox S E L, run_large_nonbox S E L,
      run_box B E L, run_box_callerbox B E L, run_large_box B E L, run_box_rc addr current R E L mode}"
  shows "run syscalls n w = run_manual P V C L syscalls n w"
proof -
  have "run syscalls n w = expected_run L syscalls n w"
    using assms(10) nonbox_expected [where n = n and w = w, OF assms(4,7,9)] box_expected [where n = n and w = w, OF assms(5,7,9)]
      run_box_rc_expected [where n = n and w = w, OF assms(6,7,8,9)] by auto
  with run_manual_expected [OF assms(1-3,9)] show ?thesis by simp
qed

text \<open>A system without pipes.\<close>

definition no_pipe :: "nat libc" where
  "no_pipe = empty_pipe\<lparr>libc_pipe := (\<lambda>w. (-1, (0, 0), w))\<rparr>"

theorem servers_agree_witness:
  "run_large_nonbox vec_slab vec_lib empty_pipe True 3 0 =
     run_manual vec_slab (vec_slab :: ((nat \<times> u8) vslab, nat \<times> u8) slab_ops) vec_slab empty_pipe True 3 0 \<and>
   run_box_rc (\<lambda>k. k) 5 vec_slab vec_lib no_pipe Mode_ArcWaker True 3 0 = Some (Inl Assert_panic)"
proof
  have addr: "inj_on (\<lambda>k :: nat. k) {..<257}" by simp
  note agree = servers_agree [OF vec_slab_ok vec_slab_ok vec_slab_ok vec_slab_ok vec_slab_ok vec_slab_ok
      vec_lib_ok addr, where good = "\<lambda>_ _. True"]
  show "run_large_nonbox vec_slab vec_lib empty_pipe True 3 0 =
      run_manual vec_slab (vec_slab :: ((nat \<times> u8) vslab, nat \<times> u8) slab_ops) vec_slab empty_pipe True 3 0"
    by (rule agree) simp_all
  have "libc_ok no_pipe (\<lambda>_ _. True)" by (simp add: libc_ok_def no_pipe_def empty_pipe_def)
  then have "run_box_rc (\<lambda>k. k) 5 vec_slab vec_lib no_pipe Mode_ArcWaker True 3 0 =
      run_manual vec_slab (vec_slab :: ((nat \<times> u8) vslab, nat \<times> u8) slab_ops) vec_slab no_pipe True 3 0"
    by (intro agree [where current = 5 and mode = Mode_ArcWaker]) simp_all
  also have "\<dots> = Some (Inl Assert_panic)" by (simp add: run_manual_def stats_data_new_def no_pipe_def)
  finally show "run_box_rc (\<lambda>k. k) 5 vec_slab vec_lib no_pipe Mode_ArcWaker True 3 0 = Some (Inl Assert_panic)" .
qed

subsection \<open>Registrations\<close>

text \<open>The lemmas of the reactor that need no executor, for the counters of the program.\<close>

lemmas run_register_ok = stats_trait.reactor_register_ok [OF run_stats.stats_trait_axioms]
lemmas run_stream_new_ok = stats_trait.async_stream_new_ok [OF run_stats.stats_trait_axioms]
lemmas run_stream_drop_ok = stats_trait.async_stream_drop_ok [OF run_stats.stats_trait_axioms]
lemmas run_reportedD = stats_trait.io_reportedD [OF run_stats.stats_trait_axioms]

text \<open>
  C27. The reactor takes registrations until it holds as many as it was made for. It refuses the
  next one with \<open>WriteZero\<close> and then changes nothing; otherwise the handle gets a key that was
  free, its registration is not ready and has no waker, all others stay, and one call is counted.
\<close>

theorem registers_until_full:
  assumes "io_rep E n w G H" and "card (dom G) \<le> n" and "stats_ready L good (io_stats w)"
  shows "if card (dom G) = n
    then reactor_register E (stats_inc L) T h interest w = Inr (Inl WriteZero, h, w)
    else \<exists>key i w'. reactor_register E (stats_inc L) T h interest w =
        Inr (Inr key, set_poll_index T (Some i) h, w') \<and> G key = None \<and>
      io_rep E n w' (G(key \<mapsto> \<lparr>er_ready = False, er_waker = None\<rparr>)) (H(key \<mapsto> i)) \<and>
      stats_count (io_stats w') = (stats_count (io_stats w))
        (Register := stats_count (io_stats w) Register + 1)"
proof (cases "card (dom G) = n")
  case True
  with reactor_register_full [OF assms(1)] show ?thesis by simp
next
  case False
  with run_register_ok [OF assms(1) _ assms(3), of T h interest] assms(2) show ?thesis
    by (auto dest!: run_reportedD(1) run_stats.reported_count simp del: fun_upd_apply)
qed

text \<open>The worlds of the witnesses: a new reactor, and one that holds a single stream.\<close>

definition idle_world ::
  "nat \<Rightarrow> (event_registration vslab, (nat \<times> u8) vslab, (u8 \<times> nat) vslab, stats_data \<times> nat, unit) io_world" where
  "idle_world n = \<lparr>io_reactor = reactor_new vec_lib n, io_stats = (no_calls, 0), io_links = ()\<rparr>"

lemma idle_world_rep [simp]: "io_rep vec_lib n (idle_world n) Map.empty Map.empty"
  by (simp add: idle_world_def reactor_new_rep)

lemma idle_world_ready [simp]: "stats_ready empty_pipe (\<lambda>_ _. True) (io_stats (idle_world n))"
  by (simp add: idle_world_def)

theorem registers_until_full_witness:
  "reactor_register vec_lib (stats_inc empty_pipe) listener_evented fake_listener_new READABLE (idle_world 0) =
      Inr (Inl WriteZero, fake_listener_new, idle_world 0) \<and>
   (\<exists>key i w'. reactor_register vec_lib (stats_inc empty_pipe) listener_evented fake_listener_new READABLE
      (idle_world 1) = Inr (Inr key, fake_listener_new\<lparr>fl_poll_index := Some i\<rparr>, w'))"
  using registers_until_full [OF idle_world_rep _ idle_world_ready, of 0 listener_evented fake_listener_new READABLE]
    registers_until_full [OF idle_world_rep _ idle_world_ready, of 1 listener_evented fake_listener_new READABLE]
  by auto

text \<open>
  C28. A stream that is registered and dropped again leaves the reactor with the registrations it
  had, in the poller as well, and the executor alone; each of the two calls is counted once.
\<close>

theorem stream_registration_ends:
  assumes "io_rep E n w G H" and "card (dom G) < n" and "stats_ready L good (io_stats w)"
  shows "\<exists>s' w1 w2. async_stream_new E (stats_inc L) s w = Inr (s', w1) \<and>
    dom G \<subset> dom (im_get (lib_regs E) (reactor_regs w1)) \<and>
    async_stream_drop E (stats_inc L) vt s' t w1 = Inr (t, w2) \<and> io_rep E n w2 G H \<and>
    (\<forall>c. stats_count (io_stats w2) c = stats_count (io_stats w) c + of_nat (tally 1 1 0 0 0 0 c))"
proof -
  from run_stream_new_ok [OF assms, of s] obtain key i w1
    where new: "async_stream_new E (stats_inc L) s w =
        Inr (\<lparr>as_inner = s\<lparr>fs_poll_index := Some i\<rparr>, as_key = key\<rparr>, w1)" "G key = None"
      and rep1: "io_rep E n w1 (G(key \<mapsto> \<lparr>er_ready = True, er_waker = None\<rparr>)) (H(key \<mapsto> i))"
      and "stats_trait.io_reported (stats_inc L) (stats_ready L good) stats_count w Register w1" by blast
  note r1 = run_reportedD(1,2) [OF this(4)]
  let ?s = "\<lparr>as_inner = s\<lparr>fs_poll_index := Some i\<rparr>, as_key = key\<rparr>"
  let ?G = "G(key \<mapsto> \<lparr>er_ready = True, er_waker = None\<rparr>)" and ?H = "H(key \<mapsto> i)"
  have "?G key = Some \<lparr>er_ready = True, er_waker = None\<rparr>" "?H key = Some i" by simp_all
  with run_stream_drop_ok [OF rep1 r1(2), of ?s _ i vt t] obtain w2
    where d: "async_stream_drop E (stats_inc L) vt ?s t w1 = Inr (t, w2)"
      "io_rep E n w2 (?G(key := None)) (?H(key := None))"
      "stats_trait.io_reported (stats_inc L) (stats_ready L good) stats_count w1 Unregister w2"
    by (auto simp del: fun_upd_apply)
  have H: "H key = None" using io_repD(5) [OF assms(1)] new(2) by blast
  have "io_rep E n w2 G H" using d(2) new(2) H by (simp add: fun_upd_idem)
  moreover have "dom G \<subset> dom (im_get (lib_regs E) (reactor_regs w1))"
    using io_repD(4) [OF rep1] new(2) by auto
  moreover have "run_stats.advanced L good (io_stats w) (tally 1 1 0 0 0 0) (io_stats w2)"
    using run_stats.advanced_trans [OF run_stats.reported_advanced(1) [OF r1(1)]
        run_stats.reported_advanced(2) [OF run_reportedD(1) [OF d(3)]]] by simp
  ultimately show ?thesis using new(1) d(1) run_stats.advanced_ready run_stats.advanced_count by blast
qed

theorem stream_registration_ends_witness:
  "\<exists>s w1 w2. async_stream_new vec_lib (stats_inc empty_pipe) fake_stream_new (idle_world 1) = Inr (s, w1) \<and>
    async_stream_drop vec_lib (stats_inc empty_pipe) (arg_vtable vec_slab) s
      (arg_tasks_new vec_slab 1 :: (arg_task node vslab, nat) arg_tasks) w1 =
      Inr (arg_tasks_new vec_slab 1, w2) \<and> io_rep vec_lib 1 w2 Map.empty Map.empty"
  using stream_registration_ends [OF idle_world_rep _ idle_world_ready, of 1 fake_stream_new
      "arg_vtable vec_slab" "arg_tasks_new vec_slab 1 :: (arg_task node vslab, nat) arg_tasks"] by auto

subsection \<open>A blocked call leads to a wake\<close>

text \<open>The reactor on the executor without boxes, whatever the futures are.\<close>

interpretation arg_reactor: reactor_client "arg_vtable S" "\<lambda>k. k" cap "arg_rep S cap" "arg_begin S"
  arg_poll "arg_complete S" "arg_is_empty S" "arg_give S" "stats_inc L" "stats_ready L good" stats_count
  for S cap L good
  by unfold_locales

text \<open>
  C11. A task whose read blocks is not forgotten: its turn leaves the waker with the registration,
  and the next poll of the reactor queues the task, together with all others that sleep.
  \<open>watched\<close> says that each task is queued or waits with its waker in a registration of its own.
\<close>

theorem blocked_read_is_woken:
  assumes "arg_rep S cap t m xs" and "m k = Some (f, 1)" and "k \<notin> set xs"
    and "io_rep E n w G H" and "stats_ready L good (io_stats w)"
    and "watched (\<lambda>k. k) kf m (k # xs) G H" and "kf f = Some (as_key s, i)"
    and "even (fs_calls (as_inner s))"
  shows "\<exists>t1 w1 t2 w2 m2 ys.
    read_future_poll E (stats_inc L) (arg_vtable S) s buf k t w = Inr (None, stream_stepped s, buf, t1, w1) \<and>
    arg_rep S cap t1 (m(k \<mapsto> (f, 2))) xs \<and>
    reactor_poll E (stats_inc L) (arg_vtable S) t1 w1 = Inr (Inr (), t2, w2) \<and>
    arg_rep S cap t2 m2 ys \<and> set ys = dom m \<and> (\<forall>j. map_option fst (m2 j) = map_option fst (m j))"
proof -
  have "G (as_key s) = Some (reg_of True k)"
    using watchedD(1) [OF assms(6,2)] assms(7) by (simp add: watched_by_def)
  from arg_reactor.read_future_blocks [OF assms(1,2,4) this assms(5,8), of buf] obtain t1 w1
    where r: "read_future_poll E (stats_inc L) (arg_vtable S) s buf k t w =
        Inr (None, stream_stepped s, buf, t1, w1)" "arg_rep S cap t1 (m(k \<mapsto> (f, 2))) xs"
      and io: "io_rep E n w1 (G(as_key s \<mapsto> reg_of False k)) H"
      and "stats_trait.io_reported (stats_inc L) (stats_ready L good) stats_count w Read w1" by blast
  note ready = run_reportedD(2) [OF this(4)]
  note w1 = watched_sleep [OF assms(6,3,2,7,7)]
  from arg_reactor.reactor_poll_wakes [OF io ready r(2) w1] obtain t2 w2 m2 ys
    where p: "reactor_poll E (stats_inc L) (arg_vtable S) t1 w1 = Inr (Inr (), t2, w2)"
      "arg_rep S cap t2 m2 ys" "set ys = dom (m(k \<mapsto> (f, 2)))"
      "\<forall>j. map_option fst (m2 j) = map_option fst ((m(k \<mapsto> (f, 2))) j)" by blast
  have "map_option fst (m2 j) = map_option fst (m j)" for j using p(4) assms(2) by simp
  moreover have "set ys = dom m" using p(3) assms(2) by auto
  ultimately show ?thesis using r p(1,2) by blast
qed

text \<open>A stream in a new reactor, and a task in its turn that is to read from it.\<close>

lemma lone_reader:
  "\<exists>s key i w t k.
    async_stream_new vec_lib (stats_inc empty_pipe) fake_stream_new (idle_world 1) = Inr (s, w) \<and>
    as_key s = key \<and> even (fs_calls (as_inner s)) \<and> stats_ready empty_pipe (\<lambda>_ _. True) (io_stats w) \<and>
    io_rep vec_lib 1 w [key \<mapsto> reg_of True 0] [key \<mapsto> i] \<and>
    arg_rep (vec_slab :: (arg_task node vslab, arg_task node) slab_ops) 1 t [k \<mapsto> ((key, i), 1)] [] \<and>
    watched (\<lambda>k. k) Some [k \<mapsto> ((key, i), 1)] [k] [key \<mapsto> reg_of True 0] [key \<mapsto> i]"
proof -
  let ?S = "vec_slab :: (arg_task node vslab, arg_task node) slab_ops" and ?t = "arg_tasks_new vec_slab 1"
  have card: "card (dom (Map.empty :: nat \<Rightarrow> event_registration option)) < 1" by simp
  have reg: "\<lparr>er_ready = True, er_waker = None\<rparr> = reg_of True 0" by (simp add: reg_of_def)
  from run_stream_new_ok [OF idle_world_rep card idle_world_ready, of fake_stream_new] obtain key i w
    where new: "async_stream_new vec_lib (stats_inc empty_pipe) fake_stream_new (idle_world 1) =
        Inr (\<lparr>as_inner = fake_stream_new\<lparr>fs_poll_index := Some i\<rparr>, as_key = key\<rparr>, w)"
      and io: "io_rep vec_lib 1 w [key \<mapsto> reg_of True 0] [key \<mapsto> i]"
      and "stats_trait.io_reported (stats_inc empty_pipe) (stats_ready empty_pipe (\<lambda>_ _. True)) stats_count
        (idle_world 1) Register w" unfolding reg by blast
  note ready = run_reportedD(2) [OF this(3)]
  have "arg_rep ?S 1 ?t Map.empty []"
    using arg_ok_new [of ?S 1] by (auto simp: arg_rep_def arg_view_def arg_tasks_new_def value_at_def slab_new)
  from arg_give_ok [OF this, of "(key, i)"] obtain k t0
    where rep0: "arg_rep ?S 1 t0 [k \<mapsto> ((key, i), 1)] [k]" by auto
  from arg_exec.begin_some [OF rep0] obtain t
    where rep: "arg_rep ?S 1 t [k \<mapsto> ((key, i), 1)] []" by blast
  have "watched (\<lambda>k. k) Some (Map.empty :: (nat \<times> nat) tasks) [] Map.empty Map.empty"
    by (simp add: watched_def handle_of_def [abs_def] inj_on_def)
  from watched_add [where k = k and key = key and f = "(key, i)" and i = i and p = 0, OF this, simplified]
  have "watched (\<lambda>k. k) Some [k \<mapsto> ((key, i), 1)] [k] [key \<mapsto> reg_of True 0] [key \<mapsto> i]" by simp
  moreover have "even (fs_calls (fake_stream_new\<lparr>fs_poll_index := Some i\<rparr>))" by (simp add: fake_stream_new_def)
  ultimately show ?thesis using new io ready rep
    by (intro exI [of _ "\<lparr>as_inner = fake_stream_new\<lparr>fs_poll_index := Some i\<rparr>, as_key = key\<rparr>"] exI [of _ key]
        exI [of _ i] exI [of _ w] exI [of _ t] exI [of _ k]) simp
qed

theorem blocked_read_is_woken_witness:
  "\<exists>s w (t :: (arg_task node vslab, nat \<times> nat) arg_tasks) k t1 w1 t2 w2 t3.
    async_stream_new vec_lib (stats_inc empty_pipe) fake_stream_new (idle_world 1) = Inr (s, w) \<and>
    read_future_poll vec_lib (stats_inc empty_pipe) (arg_vtable vec_slab) s (replicate 16 0) k t w =
      Inr (None, stream_stepped s, replicate 16 0, t1, w1) \<and> arg_begin vec_slab t1 = Inr (None, t1) \<and>
    reactor_poll vec_lib (stats_inc empty_pipe) (arg_vtable vec_slab) t1 w1 = Inr (Inr (), t2, w2) \<and>
    arg_begin vec_slab t2 = Inr (Some k, t3)"
proof -
  let ?S = "vec_slab :: (arg_task node vslab, arg_task node) slab_ops"
  obtain s i w t k where
    new: "async_stream_new vec_lib (stats_inc empty_pipe) fake_stream_new (idle_world 1) = Inr (s, w)"
    and ev: "even (fs_calls (as_inner s))" and ready: "stats_ready empty_pipe (\<lambda>_ _. True) (io_stats w)"
    and io: "io_rep vec_lib 1 w [as_key s \<mapsto> reg_of True 0] [as_key s \<mapsto> i]"
    and rep: "arg_rep ?S 1 t [k \<mapsto> ((as_key s, i), 1)] []"
    and wd: "watched (\<lambda>k. k) Some [k \<mapsto> ((as_key s, i), 1)] [k] [as_key s \<mapsto> reg_of True 0] [as_key s \<mapsto> i]"
    using lone_reader by blast
  have m: "[k \<mapsto> ((as_key s, i), 1 :: usize)] k = Some ((as_key s, i), 1)" by simp
  from blocked_read_is_woken [where buf = "replicate 16 0", OF rep m _ io ready wd _ ev]
  obtain t1 w1 t2 w2 m2 ys where
    r: "read_future_poll vec_lib (stats_inc empty_pipe) (arg_vtable ?S) s (replicate 16 0) k t w =
      Inr (None, stream_stepped s, replicate 16 0, t1, w1)"
      "reactor_poll vec_lib (stats_inc empty_pipe) (arg_vtable ?S) t1 w1 = Inr (Inr (), t2, w2)"
    and t1: "arg_rep ?S 1 t1 ([k \<mapsto> ((as_key s, i), 1)](k \<mapsto> ((as_key s, i), 2))) []"
    and t2: "arg_rep ?S 1 t2 m2 ys" "set ys = dom [k \<mapsto> ((as_key s, i), 1 :: usize)]" by auto
  have "distinct ys" using arg_exec.rep_queue [OF t2(1)] by blast
  with t2(2) have "ys = [k]" by (cases ys; cases "tl ys") auto
  with arg_exec.begin_some t2(1) obtain t3 where "arg_begin ?S t2 = Inr (Some k, t3)" by blast
  with arg_exec.begin_none [OF t1] new r show ?thesis by blast
qed

subsection \<open>The frames of a connection\<close>

text \<open>
  What the suspended \<open>connection\<close> holds: a buffer of the size it was made with and a number of
  received bytes that fits; while it reads there is no newline in them, while it writes there is
  one and fewer bytes were sent.
\<close>

definition frame_ok :: "nat \<Rightarrow> bool \<Rightarrow> conn_frame \<Rightarrow> bool" where
  "frame_ok N line c \<longleftrightarrow> length (cf_buf c) = N \<and> cf_buf_len c \<le> N \<and>
     (10 \<in> set (take (cf_buf_len c) (cf_buf c)) \<longleftrightarrow> line)"

definition conn_ok :: "nat \<Rightarrow> conn_future \<Rightarrow> bool" where
  "conn_ok N fut \<longleftrightarrow> (case fut of
       Conn_reading c \<Rightarrow> frame_ok N False c
     | Conn_writing c \<Rightarrow> frame_ok N True c \<and> cf_sent c < cf_buf_len c
     | _ \<Rightarrow> True)"

lemma read_future_result:
  "read_future_poll E inc vt s buf waker t w = Inr (r, s', buf', t', w') \<Longrightarrow>
     length buf' = length buf \<and> (\<forall>sz. r = Some (Inr sz) \<longrightarrow> sz \<le> length buf)"
  by (auto simp: read_future_poll_def poll_io_def res_iff Let_def
      split: if_splits sum.splits io_error.splits)

lemma conn_return_result:
  "conn_return E inc vt result c t w = Inr (r, fut, t', w') \<Longrightarrow> r = Some result \<and> fut = Conn_done"
  by (auto simp: conn_return_def res_iff)

lemma conn_write_ok:
  "conn_write E inc vt c waker t w = Inr (r, fut, t', w') \<Longrightarrow> frame_ok N True c \<Longrightarrow>
     cf_sent c < cf_buf_len c \<Longrightarrow> conn_ok N fut \<and> (if r = None then \<exists>c'. fut = Conn_writing c' else fut = Conn_done)"
proof (induction E inc vt c waker t w rule: conn_write.induct)
  case (1 E inc vt c waker t w)
  from "1.prems"(1) obtain src r1 s1 t1 w1
    where src: "slice_range (cf_buf c) (cf_sent c) (cf_buf_len c) = Inr src"
      and p: "write_future_poll E inc vt (cf_stream c) src waker t w = Inr (r1, s1, t1, w1)"
    by (subst (asm) conn_write.simps) (auto simp: res_iff)
  note step = "1.prems"(1) [unfolded conn_write.simps [of E inc vt c] src and_then.simps p prod.case Let_def]
  show ?case
  proof (cases r1)
    case None
    with step "1.prems"(2,3) show ?thesis by (auto simp: conn_ok_def frame_ok_def)
  next
    case (Some a)
    show ?thesis
    proof (cases a)
      case (Inl e)
      with Some step show ?thesis by (auto simp: res_iff conn_ok_def dest!: conn_return_result)
    next
      case (Inr sz)
      show ?thesis
      proof (cases "cf_sent c + sz < cf_buf_len c")
        case True
        let ?c = "c\<lparr>cf_stream := s1, cf_sent := cf_sent c + sz\<rparr>"
        from Some Inr step True obtain t2 w2 where d: "io_future_drop E vt (as_key s1) t1 w1 = Inr (t2, w2)"
          and rest: "conn_write E inc vt ?c waker t2 w2 = Inr (r, fut, t', w')" by (auto simp: res_iff)
        with "1.IH" [OF src p refl refl refl refl Some Inr d refl refl] True rest "1.prems"(2)
        show ?thesis by (simp add: frame_ok_def)
      next
        case False
        with Some Inr step show ?thesis by (auto simp: res_iff conn_ok_def dest!: conn_return_result)
      qed
    qed
  qed
qed

lemma conn_read_ok:
  "conn_read E inc vt c waker t w = Inr (r, fut, t', w') \<Longrightarrow> frame_ok N False c \<Longrightarrow>
     conn_ok N fut \<and>
     (if r = None then \<exists>c'. fut = Conn_reading c' \<or> fut = Conn_writing c' else fut = Conn_done)"
proof (induction E inc vt c waker t w rule: conn_read.induct)
  case (1 E inc vt c waker t w)
  from "1.prems"(1) obtain dest r1 s1 dest1 t1 w1
    where dest: "slice_from (cf_buf c) (cf_buf_len c) = Inr dest"
      and p: "read_future_poll E inc vt (cf_stream c) dest waker t w = Inr (r1, s1, dest1, t1, w1)"
    by (subst (asm) conn_read.simps) (auto simp: res_iff)
  note step = "1.prems"(1) [unfolded conn_read.simps [of E inc vt c] dest and_then.simps p prod.case Let_def]
  let ?buf = "write_from (cf_buf c) (cf_buf_len c) dest1"
  have len: "length ?buf = N" "cf_buf_len c \<le> N" "length dest = N - cf_buf_len c"
    "take (cf_buf_len c) ?buf = take (cf_buf_len c) (cf_buf c)"
    using dest read_future_result [OF p] "1.prems"(2) by (auto simp: write_from_def frame_ok_def res_iff)
  show ?case
  proof (cases r1)
    case None
    with step len "1.prems"(2) show ?thesis by (auto simp: conn_ok_def frame_ok_def)
  next
    case (Some a)
    show ?thesis
    proof (cases a)
      case (Inl e)
      with Some step show ?thesis by (auto simp: res_iff conn_ok_def dest!: conn_return_result)
    next
      case (Inr sz)
      let ?c = "c\<lparr>cf_stream := s1, cf_buf := ?buf, cf_buf_len := cf_buf_len c + sz\<rparr>"
      have fits: "cf_buf_len c + sz \<le> N" using read_future_result [OF p] Some Inr len by auto
      have to: "slice_to ?buf (cf_buf_len c + sz) = Inr (take (cf_buf_len c + sz) ?buf)"
        using fits len(1) by (simp add: slice_to_def)
      show ?thesis
      proof (cases "10 \<in> set (take (cf_buf_len c + sz) ?buf)")
        case True
        then have "frame_ok N True (?c\<lparr>cf_sent := 0\<rparr>)" using fits len(1) by (simp add: frame_ok_def)
        with True Some Inr step to show ?thesis
          by (auto simp: res_iff conn_ok_def dest!: conn_return_result conn_write_ok split: if_splits)
      next
        case False
        with Some Inr step to obtain t2 w2 where d: "io_future_drop E vt (as_key s1) t1 w1 = Inr (t2, w2)"
          and rest: "conn_read E inc vt ?c waker t2 w2 = Inr (r, fut, t', w')" by (auto simp: res_iff)
        from "1.IH" [OF dest p refl refl refl refl refl Some Inr d refl refl] False to rest fits len(1)
        show ?thesis by (simp add: frame_ok_def)
      qed
    qed
  qed
qed

text \<open>
  C26. Every poll of a connection keeps its frame well-formed, whatever the reactor, the wakers and
  the counters do: the received bytes fit into the buffer, it writes only after a whole line was
  received and while some of it is not sent. The poll answers exactly when the future is done.
\<close>

theorem connection_frames:
  assumes "conn_ok N fut" and "connection_poll N E inc vt fut waker t w = Inr (r, fut', t', w')"
  shows "conn_ok N fut' \<and>
    (if r = None then \<exists>c. fut' = Conn_reading c \<or> fut' = Conn_writing c else fut' = Conn_done)"
proof (cases fut)
  case (Conn_start s)
  have fr: "frame_ok N False \<lparr>cf_stream = s, cf_buf = replicate N 0, cf_buf_len = 0, cf_sent = 0\<rparr>"
    by (simp add: frame_ok_def)
  have rd: "conn_read E inc vt \<lparr>cf_stream = s, cf_buf = replicate N 0, cf_buf_len = 0, cf_sent = 0\<rparr>
      waker t w = Inr (r, fut', t', w')" using assms(2) Conn_start by (simp add: connection_poll_def)
  from conn_read_ok [OF rd fr] show ?thesis .
next
  case (Conn_reading c)
  with assms have "conn_read E inc vt c waker t w = Inr (r, fut', t', w')" "frame_ok N False c"
    by (simp_all add: connection_poll_def conn_ok_def)
  from conn_read_ok [OF this] show ?thesis .
next
  case (Conn_writing c)
  with assms have w: "conn_write E inc vt c waker t w = Inr (r, fut', t', w')" "frame_ok N True c"
    "cf_sent c < cf_buf_len c" by (simp_all add: connection_poll_def conn_ok_def)
  from conn_write_ok [OF w] show ?thesis by (auto split: if_splits)
next
  case Conn_done
  with assms(2) show ?thesis by (simp add: connection_poll_def)
qed

theorem connection_frames_witness:
  "\<exists>s w t k c t1 w1.
    async_stream_new vec_lib (stats_inc empty_pipe) fake_stream_new (idle_world 1) = Inr (s, w) \<and>
    connection_poll 16 vec_lib (stats_inc empty_pipe)
      (arg_vtable vec_slab :: (nat, (arg_task node vslab, nat \<times> nat) arg_tasks) raw_vtable) (Conn_start s) k t w =
      Inr (None, Conn_reading c, t1, w1) \<and> frame_ok 16 False c"
proof -
  let ?S = "vec_slab :: (arg_task node vslab, arg_task node) slab_ops"
  obtain s i w t k where
    new: "async_stream_new vec_lib (stats_inc empty_pipe) fake_stream_new (idle_world 1) = Inr (s, w)"
    and ev: "even (fs_calls (as_inner s))" and ready: "stats_ready empty_pipe (\<lambda>_ _. True) (io_stats w)"
    and io: "io_rep vec_lib 1 w [as_key s \<mapsto> reg_of True 0] [as_key s \<mapsto> i]"
    and rep: "arg_rep ?S 1 t [k \<mapsto> ((as_key s, i), 1)] []"
    using lone_reader by blast
  have g: "[k \<mapsto> ((as_key s, i), 1 :: usize)] k = Some ((as_key s, i), 1)"
    "[as_key s \<mapsto> reg_of True 0] (as_key s) = Some (reg_of True 0)" by simp_all
  from arg_reactor.conn_starts [where N = 16, OF rep g(1) io g(2) ready ev] obtain c t1 w1
    where p: "connection_poll 16 vec_lib (stats_inc empty_pipe) (arg_vtable ?S) (Conn_start s) k t w =
      Inr (None, Conn_reading c, t1, w1)" by blast
  from connection_frames [OF _ p] have "frame_ok 16 False c" by (simp add: conn_ok_def)
  with new p show ?thesis by blast
qed

end
