(* ===== verification/Entry_Point.thy ===== *)
theory Entry_Point
  imports Server_Properties
begin

section \<open>The program (src/src/lib.rs, src/src/main.rs)\<close>

text \<open>
  \<open>run\<close> prints the metrics of one run of the manual server and of one on the executor without
  boxes, with syscalls. What it prints is the list of the lines.
\<close>

definition lib_run ::
  "('p, u8 \<times> nat) slab_ops \<Rightarrow> ('v, nat \<times> u8) slab_ops \<Rightarrow> ('c, connection node) slab_ops \<Rightarrow>
     ('n, arg_task node) slab_ops \<Rightarrow> ('r, 'e, 'i) reactor_lib \<Rightarrow> 'w libc \<Rightarrow> 'w \<Rightarrow>
     (string list \<times> 'w) run" where
  "lib_run P V C S E L w =
     run_then (run_manual P V C L True 1 w) (\<lambda>(manual, w).
     run_then (run_nonbox S E L True 1 w) (\<lambda>(async, w).
     Some (Inr ([''manual: '' @ stats_metrics_fmt manual, ''async: '' @ stats_metrics_fmt async], w))))"

definition main ::
  "('p, u8 \<times> nat) slab_ops \<Rightarrow> ('v, nat \<times> u8) slab_ops \<Rightarrow> ('c, connection node) slab_ops \<Rightarrow>
     ('n, arg_task node) slab_ops \<Rightarrow> ('r, 'e, 'i) reactor_lib \<Rightarrow> 'w libc \<Rightarrow> 'w \<Rightarrow>
     (string list \<times> 'w) run" where
  "main = lib_run"

text \<open>
  C2. The program ends without a panic and prints the two lines of the README: both servers make
  the same calls, with the counts shown there. The system has a pipe to give, twice.
\<close>

theorem program_prints:
  assumes "slab_ok P" and "slab_ok V" and "slab_ok C" and "slab_ok S" and "lib_ok E"
    and "libc_ok L good" and "\<And>w. fst (libc_pipe L w) = 0"
  shows "\<exists>w'. main P V C S E L w = Some (Inr (
    [''manual: register=257 unregister=257 poll=258 accept=512 read=512 write=512'',
     ''async: register=257 unregister=257 poll=258 accept=512 read=512 write=512''], w'))"
proof -
  obtain w1 where m: "run_manual P V C L True 1 w = Some (Inr (expected_stats 1, w1))"
    using run_manual_returns [OF assms(1-3), of True L good w 1] assms(6,7) by blast
  obtain w2 where "run_nonbox S E L True 1 w1 = Some (Inr (expected_stats 1, w2))"
    using run_arg_expected [OF assms(4,5) bufsizes(1), of True L good 1 w1] assms(6,7)
      expected_run_returns [of True L good w1 1] by (auto simp: run_nonbox_def)
  with m expected_line show ?thesis by (simp add: main_def lib_run_def)
qed

theorem program_prints_witness:
  "\<exists>w'. main vec_slab (vec_slab :: ((nat \<times> u8) vslab, nat \<times> u8) slab_ops) vec_slab vec_slab vec_lib
    empty_pipe 0 = Some (Inr (
    [''manual: register=257 unregister=257 poll=258 accept=512 read=512 write=512'',
     ''async: register=257 unregister=257 poll=258 accept=512 read=512 write=512''], w'))"
  by (rule program_prints [where good = "\<lambda>_ _. True"]) simp_all

end
