(* ===== verification/Spec2Isabelle.thy ===== *)
theory Spec2Isabelle
  imports Entry_Point
begin

text \<open>
  A verification development for \<open>rust-async-bench\<close>, a benchmark that compares a manually written
  event loop with asynchronous servers on three hand-made executors. Every server does the same
  work: a listener accepts 256 connections, each of which reads a line and writes it back, over
  fake I/O objects that refuse every other call and count them all.

  \<^bold>\<open>The program and the theories.\<close> Paths are those under \<open>src/src\<close>.

  \<^item> \<open>list.rs\<close>, an intrusive list over any store with indexing: \<open>Intrusive_List\<close>. The store is
    a record of operations (\<open>Slab_Interface\<close>), since the program uses a \<open>slab::Slab\<close>, which is
    a library; \<open>slab_ok\<close> states what the slab documents, and a vector of slots with a free list
    is shown to satisfy it.
  \<^item> \<open>fakeio.rs\<close>, streams, the listener and the poller: \<open>Fake_IO\<close>. The trait \<open>Stats\<close> is the
    locale \<open>stats_trait\<close>.
  \<^item> \<open>run.rs\<close>: the counters (\<open>Stats\<close>, interpreting \<open>stats_trait\<close>), the manual event loop
    (\<open>Run_Manual\<close>, shown right in \<open>Manual_Correct\<close>), the asynchronous tasks (\<open>Async_Tasks\<close>) and
    the functions that run them on the executors (\<open>Async_Servers\<close>).
  \<^item> \<open>waker.rs\<close>, tables of wakers, embedded and reference-counted: \<open>Waker\<close>, with the wakers of
    tasks of \<open>executor.rs\<close> in \<open>Task_Waker\<close>.
  \<^item> \<open>executor.rs\<close>: the run queue the three modules share (\<open>Task_Queue\<close>, over the locale of
    \<open>Queue_Interface\<close>), their loops (\<open>Poll_Loop\<close>), the modules \<open>arg\<close> (\<open>Arg_Executor\<close>,
    \<open>Spawner\<close>), \<open>bx\<close> (\<open>Box_Executor\<close>) and \<open>boxrc\<close> (\<open>Box_Rc_Executor\<close>).
  \<^item> \<open>future.rs\<close>, the reactor, the asynchronous objects and the three futures: \<open>Reactor\<close>, shown
    right in \<open>Reactor_Correct\<close>.
  \<^item> \<open>lib.rs\<close> and \<open>main.rs\<close>: \<open>Entry_Point\<close>.

  \<^bold>\<open>How code becomes definitions.\<close> A function that may panic returns \<open>panic + 'a\<close> (\<open>'a res\<close>),
  one that may run forever \<open>(panic + 'a) option\<close> (\<open>'a run\<close>), where \<open>None\<close> is a run that does
  not return; each kind of panic has a constructor in \<open>Prelude\<close>. State is passed explicitly. A
  \<open>RefCell\<close> is a record with its borrow flag, so that a second borrow panics in the model, too.
  A waker is the pointer it was made with, and its table a record of functions on the memory it
  points into. Counters and reference counts are words of their width, so they wrap as in a
  release build (the counts of an \<open>Rc\<close> too, where the standard library aborts instead); keys,
  lengths and capacities are natural numbers.

  An \<open>async fn\<close> is a datatype of its awaits with the locals that live there, and one function
  that polls it from each of them and one that drops it in each of them. The futures of an
  executor are a parameter of it, polled and dropped by functions that get the tasks of the
  executor and the rest of the world, so that they may wake and spawn while they run. In
  \<open>Async_Servers\<close> these are the tasks of the server, the world is the reactor with the counters
  and the memory of the spawner, and \<open>park\<close> is the poll of the reactor.

  \<^bold>\<open>What is shown.\<close>

  \<^item> The list refines operations on sequences, for lists that share a store.
  \<^item> The run queue of an executor holds exactly the tasks that are awake; each module keeps its
    invariant in all operations whatever the futures do, no wake is lost, and \<open>run\<close> ends only
    without tasks. \<open>Executor_Contract\<close> abstracts an executor to a map from keys to futures with
    the number of references to their wakers, and a queue; the three modules interpret it. For
    futures whose scripts are known, \<open>rounds\<close> and \<open>lives\<close> specify the whole course of
    \<open>process_next\<close> and of \<open>run\<close>, waits included (\<open>scripted_executor\<close>, interpreted by \<open>arg\<close> and
    \<open>bx\<close>).
  \<^item> A spawner never dangles if each executor gets at most one spawner; it may otherwise.
  \<^item> The reactor is abstracted to its registrations and their places in the poller (\<open>io_rep\<close>);
    \<open>reactor_client\<close> puts it on top of the contract of an executor, and shows that a task that
    sleeps has its waker in a registration of its own and is queued by the next poll.
  \<^item> The asynchronous server is shown right once, over that contract (\<open>async_server\<close> in
    \<open>Async_Correct\<close>, with the plan of what is left to do in \<open>Async_Plan\<close>), and interpreted on
    the three executors: every run returns, leaves nothing behind and makes 257 registrations
    and unregistrations, 258 polls and 512 accepts, reads and writes.
  \<^item> So does the manual event loop. One connection of it is watched on a stream that records what
    is written (\<open>process_on\<close>): what it sends is the request it received. The eight run functions
    all equal one specification, \<open>expected_run\<close>, down to the state of the operating system.
    \<open>Server_Properties\<close> puts the results together, and
    \<open>Entry_Point\<close> shows what the program prints.

  \<^bold>\<open>Bounds.\<close> No fuel is used. Loops that may run forever are partial functions, and the claims
  about them include that they return, by the effort that is left to the futures (\<open>Async_Plan\<close>,
  the stages of a connection in \<open>Manual_Correct\<close>). The slabs have the capacities of the code:
  257 tasks and registrations of the asynchronous servers, 256 connections of the manual one; those
  of events and of the poller may grow. The capacity of a vector is the one it was made with.
  Buffers of 12 bytes or more are enough for the request; the code uses 128 and 16384.

  \<^bold>\<open>Parameters.\<close> The slabs, \<open>libc\<close> (its calls on a pipe, of which \<open>libc_ok\<close> says that reads from
  the empty pipe fail), \<open>Waker::will_wake\<close> (which may answer \<open>false\<close> for equal wakers), the
  addresses the allocator gives to boxes of wakers, and the identity of the running thread.

  \<^bold>\<open>Not modelled.\<close> The timing of the benchmarks and the script that formats their output
  (\<open>benches/run.rs\<close>, \<open>compare.py\<close>); the tests, which are what the properties state; the counts
  of the \<open>Rc\<close>s that only keep the reactor, the counters and an executor alive to the end of a
  run function; the borrow flags of the cells of spawners, which are never borrowed twice; boxing
  itself, a future behind a box being the future; a run of an executor inside a poll of one of its own tasks, in which the inner
  run removes tasks the outer one has pointers to; unwinding after a panic, which ends a run.
\<close>

end
